(* ===== verification/Prelude.thy ===== *)
theory Prelude
  imports Main "HOL-Library.Word" "HOL-Library.AList"
begin

text \<open>
  The vocabulary shared by every component: the machine types of the Rust code, the ways a
  call can fail to return a value, checked indexing, hash maps as association lists, and
  the general lemmas on lists and maps that the component proofs use.

  \<^item> \<open>U256\<close>, \<open>u128\<close>, \<open>u64\<close>, \<open>Address\<close> and \<open>B256\<close> are words of their width. The arithmetic of
    \<open>U256\<close> (crate \<open>ruint\<close>) wraps in \<open>+\<close> and \<open>*\<close>, as word arithmetic does.
  \<^item> \<open>usize\<close> indexes and counters are natural numbers. Only subtraction can leave the range
    in practice, so \<open>fetch_sub\<close> is written with its wrap-around.
  \<^item> A \<open>panic!\<close> (also as \<open>unreachable!\<close> or \<open>unimplemented!\<close>), a failed \<open>unwrap\<close> and an index outside a vector read through
    \<open>get_unchecked\<close> are values of \<open>rust_panic\<close>, on the left of a sum.
\<close>

named_theorems sched_defs \<open>unfoldings of the scheduler's small operations\<close>
named_theorems mv_defs \<open>unfoldings of the multi-version memory's small operations\<close>

section \<open>Machine types\<close>

type_synonym u8 = "8 word"
type_synonym u64 = "64 word"
type_synonym u128 = "128 word"
type_synonym u256 = "256 word"
type_synonym b256 = "256 word"
type_synonym address = "160 word"
type_synonym bytes = "u8 list"

section \<open>Failing calls\<close>

datatype rust_panic =
    Panicked string
  | Index_out_of_bounds
  | Unwrap_failed

type_synonym 'a panics = "rust_panic + 'a"

definition vec_get :: "'a list \<Rightarrow> nat \<Rightarrow> 'a panics" where
  "vec_get xs i = (if i < length xs then Inr (xs ! i) else Inl Index_out_of_bounds)"

lemma vec_get_Inr [simp]: "i < length xs \<Longrightarrow> vec_get xs i = Inr (xs ! i)"
  by (simp add: vec_get_def)

lemma vec_get_eq_Inr_iff: "vec_get xs i = Inr x \<longleftrightarrow> i < length xs \<and> x = xs ! i"
  by (auto simp: vec_get_def)

lemma vec_get_eq_Inl_iff: "vec_get xs i = Inl p \<longleftrightarrow> length xs \<le> i \<and> p = Index_out_of_bounds"
  by (auto simp: vec_get_def)

section \<open>Atomic counters\<close>

definition usize_max :: nat where
  "usize_max = 2 ^ 64 - 1"

definition wrapping_dec :: "nat \<Rightarrow> nat" where
  "wrapping_dec n = (if n = 0 then usize_max else n - 1)"

lemma wrapping_dec_pos [simp]: "0 < n \<Longrightarrow> wrapping_dec n = n - 1"
  by (simp add: wrapping_dec_def)

definition saturating_sub :: "('a::len) word \<Rightarrow> 'a word \<Rightarrow> 'a word" where
  "saturating_sub a b = (if b \<le> a then a - b else 0)"

lemma unat_saturating_sub: "unat (saturating_sub a b) = unat a - unat b"
  by (auto simp: saturating_sub_def unat_sub word_le_nat_alt)

section \<open>Hash maps as association lists\<close>

type_synonym ('k, 'v) hashmap = "('k \<times> 'v) list"

abbreviation (input) hm_get :: "('k, 'v) hashmap \<Rightarrow> 'k \<Rightarrow> 'v option" where
  "hm_get \<equiv> map_of"

abbreviation (input) hm_insert :: "'k \<Rightarrow> 'v \<Rightarrow> ('k, 'v) hashmap \<Rightarrow> ('k, 'v) hashmap" where
  "hm_insert \<equiv> AList.update"

lemma hm_get_insert: "hm_get (hm_insert k v m) = (hm_get m)(k \<mapsto> v)"
  by (simp add: update_conv')

lemma distinct_hm_insert: "distinct (map fst m) \<Longrightarrow> distinct (map fst (hm_insert k v m))"
  by (rule distinct_update)

lemma set_hm_insert:
  "distinct (map fst m) \<Longrightarrow> set (hm_insert k v m) = insert (k, v) {x \<in> set m. fst x \<noteq> k}"
  by (induction m) (auto simp: image_iff)

section \<open>Lists\<close>

lemma length_filter_update:
  "i < length xs \<Longrightarrow>
   length (filter P (xs[i := y])) + (if P (xs ! i) then 1 else 0) =
     length (filter P xs) + (if P y then 1 else 0)"
proof (induction xs arbitrary: i)
  case Nil
  then show ?case by simp
next
  case (Cons z zs)
  show ?case
  proof (cases i)
    case 0
    then show ?thesis by simp
  next
    case (Suc j)
    with Cons.prems have "j < length zs" by simp
    from Cons.IH[OF this] Suc show ?thesis by simp
  qed
qed

lemma length_filter_nth:
  "length (filter P xs) = card {i. i < length xs \<and> P (xs ! i)}"
  by (simp add: length_filter_conv_card)

end
