(* ===== verification/BTree_Map.thy ===== *)
theory BTree_Map
  imports Prelude
begin

text \<open>
  The ordered map of the standard library, \<open>BTreeMap<TxIdx, V>\<close>, as the code uses it: insert,
  remove, collect, iteration in key order, and \<open>range(..k)\<close> walked from the back with
  \<open>next_back\<close>. A map is a list of pairs with strictly increasing keys.

  The locale \<open>tx_map\<close> states what the clients (the multi-version memory and the reads of
  the virtual machine) rely on; it is interpreted on the list operations below.
\<close>

section \<open>Operations\<close>

type_synonym 'v btree = "(nat \<times> 'v) list"

definition btree_inv :: "'v btree \<Rightarrow> bool" where
  "btree_inv t \<longleftrightarrow> sorted_wrt (<) (map fst t)"

fun btree_insert :: "nat \<Rightarrow> 'v \<Rightarrow> 'v btree \<Rightarrow> 'v btree" where
  "btree_insert k v [] = [(k, v)]"
| "btree_insert k v ((i, w) # t) =
     (if k < i then (k, v) # (i, w) # t
      else if k = i then (k, v) # t
      else (i, w) # btree_insert k v t)"

fun btree_remove :: "nat \<Rightarrow> 'v btree \<Rightarrow> 'v btree" where
  "btree_remove k [] = []"
| "btree_remove k ((i, w) # t) = (if k = i then t else (i, w) # btree_remove k t)"

abbreviation (input) btree_get :: "'v btree \<Rightarrow> nat \<Rightarrow> 'v option" where
  "btree_get \<equiv> map_of"

definition btree_collect :: "(nat \<times> 'v) list \<Rightarrow> 'v btree" where
  "btree_collect kvs = fold (\<lambda>(k, v). btree_insert k v) kvs []"

text \<open>The successive results of \<open>next_back\<close> on \<open>range(..k)\<close>.\<close>

definition btree_range_back :: "nat \<Rightarrow> 'v btree \<Rightarrow> (nat \<times> 'v) list" where
  "btree_range_back k t = rev (filter (\<lambda>(i, _). i < k) t)"

section \<open>The interface the clients rely on\<close>

text \<open>A list with strictly decreasing keys is determined by its elements.\<close>

lemma strict_desc_unique:
  fixes xs ys :: "(nat \<times> 'v) list"
  assumes "sorted_wrt (>) (map fst xs)" and "sorted_wrt (>) (map fst ys)" and "set xs = set ys"
  shows "xs = ys"
  using assms
proof (induction xs arbitrary: ys)
  case Nil
  then show ?case by simp
next
  case (Cons x xs)
  then obtain y zs where ys: "ys = y # zs" by (cases ys) auto
  have below: "\<forall>z \<in> set xs. fst z < fst x" "\<forall>z \<in> set zs. fst z < fst y"
    using Cons.prems ys by auto
  have "x = y"
  proof (rule ccontr)
    assume "x \<noteq> y"
    moreover have "x \<in> insert y (set zs)" "y \<in> insert x (set xs)"
      using Cons.prems(3) ys by auto
    ultimately have "x \<in> set zs" "y \<in> set xs" by auto
    then show False using below by force
  qed
  moreover have "x \<notin> set xs" "y \<notin> set zs" using below by auto
  ultimately have "set xs = set zs" using Cons.prems(3) ys by auto
  then show ?case using Cons \<open>x = y\<close> ys by auto
qed

locale tx_map =
  fixes inv :: "'t \<Rightarrow> bool"
    and get :: "'t \<Rightarrow> nat \<Rightarrow> 'v option"
    and insert :: "nat \<Rightarrow> 'v \<Rightarrow> 't \<Rightarrow> 't"
    and remove :: "nat \<Rightarrow> 't \<Rightarrow> 't"
    and range_back :: "nat \<Rightarrow> 't \<Rightarrow> (nat \<times> 'v) list"
  assumes get_insert: "inv t \<Longrightarrow> get (insert k v t) = (get t)(k \<mapsto> v)"
    and get_remove: "inv t \<Longrightarrow> get (remove k t) = (get t)(k := None)"
    and inv_insert: "inv t \<Longrightarrow> inv (insert k v t)"
    and inv_remove: "inv t \<Longrightarrow> inv (remove k t)"
    and range_back_set: "inv t \<Longrightarrow> (i, v) \<in> set (range_back k t) \<longleftrightarrow> i < k \<and> get t i = Some v"
    and range_back_desc: "inv t \<Longrightarrow> sorted_wrt (>) (map fst (range_back k t))"
begin

text \<open>The walk is determined by the entries below the bound.\<close>

lemma range_back_cong:
  assumes t: "inv t" and u: "inv u" and eq: "\<And>i. i < k \<Longrightarrow> get t i = get u i"
  shows "range_back k t = range_back k u"
proof (rule strict_desc_unique)
  show "set (range_back k t) = set (range_back k u)"
    using range_back_set[OF t] range_back_set[OF u] eq by auto
qed (use range_back_desc t u in auto)

lemma range_back_insert_above:
  "inv t \<Longrightarrow> k \<le> i \<Longrightarrow> range_back k (insert i v t) = range_back k t"
  by (rule range_back_cong) (auto simp: get_insert inv_insert)

lemma range_back_remove_above:
  "inv t \<Longrightarrow> k \<le> i \<Longrightarrow> range_back k (remove i t) = range_back k t"
  by (rule range_back_cong) (auto simp: get_remove inv_remove)

text \<open>The first result of \<open>next_back\<close> is the entry of the closest lower transaction.\<close>

lemma range_back_closest:
  assumes "inv t" and "range_back k t = (i, v) # rest"
  shows "i < k \<and> get t i = Some v \<and> (\<forall>j. i < j \<and> j < k \<longrightarrow> get t j = None)"
proof -
  have mem: "(i, v) \<in> set (range_back k t)" using assms by simp
  have "get t j = None" if "i < j" "j < k" for j
  proof (rule ccontr)
    assume "get t j \<noteq> None"
    then obtain w where "get t j = Some w" by auto
    then have "(j, w) \<in> set (range_back k t)"
      using that range_back_set[OF assms(1)] by simp
    then show False
      using range_back_desc[OF assms(1), of k] assms(2) that by auto
  qed
  then show ?thesis using mem range_back_set[OF assms(1)] by auto
qed

lemma range_back_Nil_iff: "inv t \<Longrightarrow> range_back k t = [] \<longleftrightarrow> (\<forall>i < k. get t i = None)"
  using range_back_set[of t] by (metis list.set_intros(1) neq_Nil_conv not_Some_eq
      empty_iff list.set(1) surj_pair)

end

section \<open>The list operations provide the interface\<close>

lemma btree_inv_Nil [simp]: "btree_inv []"
  by (simp add: btree_inv_def)

lemma btree_inv_single [simp]: "btree_inv [p]"
  by (simp add: btree_inv_def)

lemma btree_inv_Cons: "btree_inv ((i, w) # t) \<longleftrightarrow> (\<forall>p \<in> set t. i < fst p) \<and> btree_inv t"
  by (auto simp: btree_inv_def)

lemma btree_get_insert: "btree_get (btree_insert k v t) = (btree_get t)(k \<mapsto> v)"
  by (induction k v t rule: btree_insert.induct) (auto simp: fun_eq_iff)

lemma btree_get_above: "\<forall>p \<in> set t. k < fst p \<Longrightarrow> btree_get t k = None"
  by (induction t) auto

lemma btree_get_remove: "btree_inv t \<Longrightarrow> btree_get (btree_remove k t) = (btree_get t)(k := None)"
  by (induction k t rule: btree_remove.induct)
    (auto simp: fun_eq_iff btree_inv_Cons btree_get_above)

lemma set_btree_insert: "set (btree_insert k v t) \<subseteq> insert (k, v) (set t)"
  by (induction k v t rule: btree_insert.induct) auto

lemma set_btree_remove: "set (btree_remove k t) \<subseteq> set t"
  by (induction k t rule: btree_remove.induct) auto

lemma btree_inv_insert: "btree_inv t \<Longrightarrow> btree_inv (btree_insert k v t)"
proof (induction k v t rule: btree_insert.induct)
  case (2 k v i w t)
  then show ?case using set_btree_insert[of k v t] by (force simp: btree_inv_Cons)
qed (simp add: btree_inv_def)

lemma btree_inv_remove: "btree_inv t \<Longrightarrow> btree_inv (btree_remove k t)"
proof (induction k t rule: btree_remove.induct)
  case (2 k i w t)
  then show ?case using set_btree_remove[of k t] by (auto simp: btree_inv_Cons)
qed simp

lemma btree_inv_distinct: "btree_inv t \<Longrightarrow> distinct (map fst t)"
  by (induction t) (auto simp: btree_inv_def)

lemma btree_get_iff: "btree_inv t \<Longrightarrow> btree_get t i = Some v \<longleftrightarrow> (i, v) \<in> set t"
  by (simp add: btree_inv_distinct)

lemma btree_range_back_desc: "btree_inv t \<Longrightarrow> sorted_wrt (>) (map fst (btree_range_back k t))"
  unfolding btree_inv_def btree_range_back_def
  by (induction t) (auto simp: sorted_wrt_append rev_map[symmetric])

interpretation bt: tx_map btree_inv btree_get btree_insert btree_remove btree_range_back
proof unfold_locales
  fix t :: "'v btree" and i v k
  assume "btree_inv t"
  then show "(i, v) \<in> set (btree_range_back k t) \<longleftrightarrow> i < k \<and> btree_get t i = Some v"
    by (auto simp: btree_range_back_def btree_get_iff)
qed (auto simp: btree_get_insert btree_get_remove btree_inv_insert btree_inv_remove
    btree_range_back_desc)

lemma btree_inv_fold: "btree_inv t \<Longrightarrow> btree_inv (fold (\<lambda>(k, v). btree_insert k v) kvs t)"
  by (induction kvs arbitrary: t) (auto simp: btree_inv_insert split: prod.splits)

lemma btree_inv_collect [simp]: "btree_inv (btree_collect kvs)"
  by (simp add: btree_collect_def btree_inv_fold)

lemma btree_get_fold:
  "btree_get (fold (\<lambda>(k, v). btree_insert k v) kvs t) = btree_get t ++ map_of (rev kvs)"
  by (induction kvs arbitrary: t) (auto simp: btree_get_insert fun_eq_iff map_add_def
      split: option.splits)

lemma btree_get_collect: "btree_get (btree_collect kvs) = map_of (rev kvs)"
  by (simp add: btree_collect_def btree_get_fold)

end
