(* ===== verification/Accounts.thy ===== *)
theory Accounts
  imports Prelude
begin

text \<open>
  The account data of \<open>src/src/storage.rs\<close> and its conversions to and from the types of the
  \<open>revm\<close> crate, the \<open>Storage\<close> trait, and the in-memory storage of
  \<open>src/src/storage/in_memory.rs\<close>.

  \<open>revm\<close>, \<open>keccak256\<close> and the formatting of numbers are not part of the repository. Their
  types appear with the fields the code reads; their functions are the fields of the
  parameter record \<open>revm\<close>, which every definition that calls them takes as an argument.
  A storage error occurs in the code only through its \<open>Debug\<close> rendering, so it is a string.
\<close>

section \<open>Types of revm that the code reads\<close>

datatype bytecode =
    LegacyRaw bytes
  | LegacyAnalyzed bytes nat "bool list"
  | Eof bytes

record account_info =
  info_balance :: u256
  info_nonce :: u64
  info_code_hash :: b256
  info_code :: "bytecode option"

datatype spec_id =
    FRONTIER | HOMESTEAD | TANGERINE | SPURIOUS_DRAGON | BYZANTIUM | PETERSBURG | ISTANBUL
  | BERLIN | LONDON | MERGE | SHANGHAI | CANCUN

text \<open>
  The functions of \<open>revm\<close> the modelled code calls: \<open>Bytecode::default\<close>, \<open>Bytecode::is_empty\<close>,
  \<open>Bytecode::hash_slow\<close>, \<open>Bytecode::new_analyzed\<close>, \<open>Bytecode::new_raw\<close>, \<open>to_analysed\<close> on raw
  bytecode (the three fields of the analysed bytecode it returns), \<open>AccountInfo::default\<close>,
  \<open>AccountInfo::from_balance\<close>, \<open>AccountInfo\<close>'s \<open>==\<close>, \<open>AccountInfo::is_empty_code_hash\<close>,
  \<open>SpecId::is_enabled_in\<close>, \<open>keccak256\<close> and the decimal rendering of a \<open>U256\<close>.
\<close>

record revm =
  bytecode_default :: bytecode
  bytecode_is_empty :: "bytecode \<Rightarrow> bool"
  hash_slow :: "bytecode \<Rightarrow> b256"
  new_analyzed :: "bytes \<Rightarrow> nat \<Rightarrow> bool list \<Rightarrow> bytecode"
  new_raw :: "bytes \<Rightarrow> bytecode"
  to_analysed :: "bytes \<Rightarrow> bytes \<times> nat \<times> bool list"
  info_default :: account_info
  info_from_balance :: "u256 \<Rightarrow> account_info"
  info_eq :: "account_info \<Rightarrow> account_info \<Rightarrow> bool"
  is_empty_code_hash :: "account_info \<Rightarrow> bool"
  is_enabled_in :: "spec_id \<Rightarrow> spec_id \<Rightarrow> bool"
  keccak256 :: "bytes \<Rightarrow> b256"
  u256_to_string :: "u256 \<Rightarrow> bytes"

section \<open>Accounts\<close>

record evm_code =
  bytecode_bytes :: bytes
  original_len :: nat
  jump_table :: "bool list"

record account_basic =
  balance :: u256
  nonce :: u64
  code :: "evm_code option"
  code_hash :: "b256 option"

record evm_account =
  basic :: account_basic
  storage :: "(u256, u256) hashmap"

definition account_basic_default :: account_basic where
  "account_basic_default = \<lparr>balance = 0, nonce = 0, code = None, code_hash = None\<rparr>"

definition evm_account_default :: evm_account where
  "evm_account_default = \<lparr>basic = account_basic_default, storage = []\<rparr>"

definition evm_account_of_basic :: "account_basic \<Rightarrow> evm_account" where
  "evm_account_of_basic b = \<lparr>basic = b, storage = []\<rparr>"

definition with_balance :: "u256 \<Rightarrow> evm_account" where
  "with_balance b = evm_account_of_basic (account_basic_default\<lparr>balance := b\<rparr>)"

definition is_empty :: "account_basic \<Rightarrow> bool" where
  "is_empty b \<longleftrightarrow> balance b = 0 \<and> nonce b = 0 \<and> code b = None"

section \<open>Conversions\<close>

definition bytecode_of_evm_code :: "revm \<Rightarrow> evm_code \<Rightarrow> bytecode" where
  "bytecode_of_evm_code rv c = new_analyzed rv (bytecode_bytes c) (original_len c) (jump_table c)"

fun evm_code_of_bytecode :: "revm \<Rightarrow> bytecode \<Rightarrow> evm_code panics" where
  "evm_code_of_bytecode rv (LegacyRaw b) =
     (case to_analysed rv b of (bs, n, jt) \<Rightarrow>
        Inr \<lparr>bytecode_bytes = bs, original_len = n, jump_table = jt\<rparr>)"
| "evm_code_of_bytecode rv (LegacyAnalyzed bs n jt) =
     Inr \<lparr>bytecode_bytes = bs, original_len = n, jump_table = jt\<rparr>"
| "evm_code_of_bytecode rv (Eof _) = Inl (Panicked ''TODO: Support EOF'')"

definition info_of_basic :: "revm \<Rightarrow> account_basic \<Rightarrow> account_info" where
  "info_of_basic rv a =
     (let cd = (case code a of Some c \<Rightarrow> bytecode_of_evm_code rv c | None \<Rightarrow> bytecode_default rv)
      in \<lparr>info_balance = balance a, info_nonce = nonce a,
          info_code_hash = (case code_hash a of Some h \<Rightarrow> h | None \<Rightarrow> hash_slow rv cd),
          info_code = Some cd\<rparr>)"

definition basic_of_info :: "revm \<Rightarrow> account_info \<Rightarrow> account_basic panics" where
  "basic_of_info rv i =
     (case info_code i of
        None \<Rightarrow>
          Inr \<lparr>balance = info_balance i, nonce = info_nonce i, code = None, code_hash = None\<rparr>
      | Some c \<Rightarrow>
          if bytecode_is_empty rv c then
            Inr \<lparr>balance = info_balance i, nonce = info_nonce i, code = None, code_hash = None\<rparr>
          else
            (case evm_code_of_bytecode rv c of
               Inl p \<Rightarrow> Inl p
             | Inr ec \<Rightarrow>
                 Inr \<lparr>balance = info_balance i, nonce = info_nonce i, code = Some ec,
                      code_hash = Some (info_code_hash i)\<rparr>))"

text \<open>
  \<open>PlainAccount\<close> and \<open>Account\<close> are structs of \<open>revm\<close>. Of an \<open>Account\<close> the code reads the
  info, the storage slots with their present value, whether a slot changed
  (\<open>changed_storage_slots\<close>), and the three flags.
\<close>

record plain_account =
  plain_info :: account_info
  plain_storage :: "(u256, u256) hashmap"

record slot =
  present_value :: u256
  is_changed :: bool

record account =
  info :: account_info
  slots :: "(u256, slot) hashmap"
  is_selfdestructed :: bool
  is_touched :: bool
  account_is_empty :: bool

definition plain_of_evm_account :: "revm \<Rightarrow> evm_account \<Rightarrow> plain_account" where
  "plain_of_evm_account rv a =
     \<lparr>plain_info = info_of_basic rv (basic a), plain_storage = storage a\<rparr>"

definition evm_account_of_plain :: "revm \<Rightarrow> plain_account \<Rightarrow> evm_account panics" where
  "evm_account_of_plain rv a =
     (case basic_of_info rv (plain_info a) of
        Inl p \<Rightarrow> Inl p
      | Inr b \<Rightarrow> Inr \<lparr>basic = b, storage = plain_storage a\<rparr>)"

definition evm_account_of_account :: "revm \<Rightarrow> account \<Rightarrow> evm_account panics" where
  "evm_account_of_account rv a =
     (case basic_of_info rv (info a) of
        Inl p \<Rightarrow> Inl p
      | Inr b \<Rightarrow> Inr \<lparr>basic = b, storage = map (\<lambda>(k, v). (k, present_value v)) (slots a)\<rparr>)"

section \<open>The Storage trait\<close>

type_synonym storage_error = string

record storage_ops =
  st_basic :: "address \<Rightarrow> storage_error + account_basic option"
  st_is_contract :: "address \<Rightarrow> storage_error + bool"
  st_code_by_hash :: "b256 \<Rightarrow> storage_error + evm_code option"
  st_has_storage :: "address \<Rightarrow> storage_error + bool"
  st_storage :: "address \<Rightarrow> u256 \<Rightarrow> storage_error + u256"
  st_block_hash :: "u256 \<Rightarrow> storage_error + b256"

text \<open>The default \<open>is_contract\<close> of the trait.\<close>

definition default_is_contract ::
  "(address \<Rightarrow> storage_error + account_basic option) \<Rightarrow> address \<Rightarrow> storage_error + bool" where
  "default_is_contract bsc a =
     (case bsc a of
        Inl e \<Rightarrow> Inl e
      | Inr acc \<Rightarrow> Inr (case acc of None \<Rightarrow> False | Some b \<Rightarrow> code b \<noteq> None))"

text \<open>\<open>StorageWrapper\<close>: a storage as a \<open>DatabaseRef\<close> of \<open>revm\<close>.\<close>

record database_ref =
  basic_ref :: "address \<Rightarrow> storage_error + account_info option"
  code_by_hash_ref :: "b256 \<Rightarrow> storage_error + bytecode"
  has_storage_ref :: "address \<Rightarrow> storage_error + bool"
  storage_ref :: "address \<Rightarrow> u256 \<Rightarrow> storage_error + u256"
  block_hash_ref :: "u256 \<Rightarrow> storage_error + b256"

definition storage_wrapper :: "revm \<Rightarrow> storage_ops \<Rightarrow> database_ref" where
  "storage_wrapper rv st =
     \<lparr>basic_ref = (\<lambda>a. map_sum id (map_option (info_of_basic rv)) (st_basic st a)),
      code_by_hash_ref = (\<lambda>h. map_sum id
        (\<lambda>c. case c of Some ec \<Rightarrow> bytecode_of_evm_code rv ec | None \<Rightarrow> bytecode_default rv)
        (st_code_by_hash st h)),
      has_storage_ref = st_has_storage st,
      storage_ref = st_storage st,
      block_hash_ref = st_block_hash st\<rparr>"

text \<open>
  The other direction: any \<open>DatabaseRef\<close> as a storage. Converting an account or its code can
  panic (\<open>EvmCode::from\<close> on EOF bytecode).
\<close>

definition database_basic ::
  "revm \<Rightarrow> database_ref \<Rightarrow> address \<Rightarrow> (storage_error + account_basic option) panics" where
  "database_basic rv d a =
     (case basic_ref d a of
        Inl e \<Rightarrow> Inr (Inl e)
      | Inr None \<Rightarrow> Inr (Inr None)
      | Inr (Some i) \<Rightarrow> map_sum id (\<lambda>b. Inr (Some b)) (basic_of_info rv i))"

definition database_is_contract :: "revm \<Rightarrow> database_ref \<Rightarrow> address \<Rightarrow> (storage_error + bool) panics" where
  "database_is_contract rv d a = map_sum id (\<lambda>r. default_is_contract (\<lambda>_. r) a) (database_basic rv d a)"

definition database_code_by_hash ::
  "revm \<Rightarrow> database_ref \<Rightarrow> b256 \<Rightarrow> (storage_error + evm_code option) panics" where
  "database_code_by_hash rv d h =
     (case code_by_hash_ref d h of
        Inl e \<Rightarrow> Inr (Inl e)
      | Inr c \<Rightarrow>
          if bytecode_is_empty rv c then Inr (Inr None)
          else map_sum id (\<lambda>ec. Inr (Some ec)) (evm_code_of_bytecode rv c))"

definition database_has_storage :: "database_ref \<Rightarrow> address \<Rightarrow> storage_error + bool" where
  "database_has_storage d a = has_storage_ref d a"

definition database_storage :: "database_ref \<Rightarrow> address \<Rightarrow> u256 \<Rightarrow> storage_error + u256" where
  "database_storage d a i = storage_ref d a i"

definition database_block_hash :: "database_ref \<Rightarrow> u256 \<Rightarrow> storage_error + b256" where
  "database_block_hash d n = block_hash_ref d n"

section \<open>InMemoryStorage\<close>

record in_memory_storage =
  accounts :: "(address, evm_account) hashmap"
  block_hashes :: "(u256, b256) hashmap"

text \<open>\<open>collect\<close> into a hash map: a later pair with the same key replaces the earlier one.\<close>

definition hm_collect :: "('k \<times> 'v) list \<Rightarrow> ('k, 'v) hashmap" where
  "hm_collect kvs = fold (\<lambda>(k, v). hm_insert k v) kvs []"

definition in_memory_new ::
  "(address \<times> evm_account) list \<Rightarrow> (u256 \<times> b256) list \<Rightarrow> in_memory_storage" where
  "in_memory_new accs hs = \<lparr>accounts = hm_collect accs, block_hashes = hm_collect hs\<rparr>"

definition im_basic :: "in_memory_storage \<Rightarrow> address \<Rightarrow> storage_error + account_basic option" where
  "im_basic s a = Inr (map_option basic (hm_get (accounts s) a))"

definition im_is_contract :: "in_memory_storage \<Rightarrow> address \<Rightarrow> storage_error + bool" where
  "im_is_contract s a =
     Inr (case hm_get (accounts s) a of None \<Rightarrow> False | Some acc \<Rightarrow> code (basic acc) \<noteq> None)"

fun find_code :: "b256 \<Rightarrow> evm_account list \<Rightarrow> evm_code option" where
  "find_code h [] = None"
| "find_code h (acc # accs) =
     (if code_hash (basic acc) = Some h then code (basic acc) else find_code h accs)"

definition im_code_by_hash :: "in_memory_storage \<Rightarrow> b256 \<Rightarrow> storage_error + evm_code option" where
  "im_code_by_hash s h = Inr (find_code h (map snd (accounts s)))"

definition im_has_storage :: "in_memory_storage \<Rightarrow> address \<Rightarrow> storage_error + bool" where
  "im_has_storage s a =
     Inr (case hm_get (accounts s) a of None \<Rightarrow> False | Some acc \<Rightarrow> storage acc \<noteq> [])"

definition im_storage :: "in_memory_storage \<Rightarrow> address \<Rightarrow> u256 \<Rightarrow> storage_error + u256" where
  "im_storage s a i =
     Inr (case hm_get (accounts s) a of
            None \<Rightarrow> 0
          | Some acc \<Rightarrow> (case hm_get (storage acc) i of None \<Rightarrow> 0 | Some v \<Rightarrow> v))"

definition im_block_hash :: "revm \<Rightarrow> in_memory_storage \<Rightarrow> u256 \<Rightarrow> storage_error + b256" where
  "im_block_hash rv s n =
     Inr (case hm_get (block_hashes s) n of
            Some h \<Rightarrow> h
          | None \<Rightarrow> keccak256 rv (u256_to_string rv n))"

definition in_memory_ops :: "revm \<Rightarrow> in_memory_storage \<Rightarrow> storage_ops" where
  "in_memory_ops rv s =
     \<lparr>st_basic = im_basic s, st_is_contract = im_is_contract s,
      st_code_by_hash = im_code_by_hash s, st_has_storage = im_has_storage s,
      st_storage = im_storage s, st_block_hash = im_block_hash rv s\<rparr>"

section \<open>The contract of a storage\<close>

text \<open>
  What the users of a storage rely on beyond the types of its methods: a reimplemented
  \<open>is_contract\<close> answers as the default of the trait does.
\<close>

locale storage_provider =
  fixes st :: storage_ops
  assumes is_contract_default: "st_is_contract st a = default_is_contract (st_basic st) a"
begin

lemma is_contract_iff:
  "st_is_contract st a = Inr True \<longleftrightarrow> (\<exists>acc. st_basic st a = Inr (Some acc) \<and> code acc \<noteq> None)"
  by (auto simp: is_contract_default default_is_contract_def split: sum.splits option.splits)

lemma is_contract_fails: "st_is_contract st a = Inl e \<longleftrightarrow> st_basic st a = Inl e"
  by (auto simp: is_contract_default default_is_contract_def split: sum.splits)

end

interpretation in_memory: storage_provider "in_memory_ops rv s" for rv s
  by unfold_locales
    (auto simp: in_memory_ops_def im_is_contract_def im_basic_def default_is_contract_def split: option.splits)

text \<open>What a map collected from pairs holds.\<close>

lemma hm_collect_get: "hm_get (hm_collect kvs) k = map_of (rev kvs) k"
proof -
  have "hm_get (fold (\<lambda>(k, v). hm_insert k v) kvs m) k =
      (case map_of (rev kvs) k of None \<Rightarrow> hm_get m k | Some v \<Rightarrow> Some v)" for m
    by (induction kvs arbitrary: m) (auto simp: hm_get_insert map_add_def split: option.splits)
  from this[of "[]"] show ?thesis by (auto simp: hm_collect_def split: option.splits)
qed

end
