(* ===== verification/Lib_Types.thy ===== *)
theory Lib_Types
  imports BTree_Map Accounts
begin

text \<open>
  The types of \<open>src/src/lib.rs\<close>: memory locations and values, entries of the multi-version
  memory, the status of a transaction, versions, read origins, read sets, read errors and
  tasks, and the two hashers of the hash maps.
\<close>

section \<open>Hashers\<close>

text \<open>
  \<open>AddressHasher(u64)\<close>: \<open>write\<close> keeps the last eight bytes, read as a big-endian number. The
  slice \<open>bytes[bytes.len() - 8..]\<close> panics on fewer than eight bytes.
\<close>

fun u64_from_be_bytes :: "u8 list \<Rightarrow> u64 \<Rightarrow> u64" where
  "u64_from_be_bytes [] acc = acc"
| "u64_from_be_bytes (b # bs) acc = u64_from_be_bytes bs (acc * 256 + ucast b)"

definition address_hasher_write :: "u64 \<Rightarrow> bytes \<Rightarrow> u64 panics" where
  "address_hasher_write h bs =
     (if length bs < 8 then Inl Index_out_of_bounds
      else Inr (u64_from_be_bytes (drop (length bs - 8) bs) 0))"

definition address_hasher_finish :: "u64 \<Rightarrow> u64" where
  "address_hasher_finish h = h"

text \<open>\<open>IdentityHasher(u64)\<close>: hashing a \<open>u64\<close> or a \<open>usize\<close> stores it; other writes panic.\<close>

datatype hasher_input = Write_u64 u64 | Write_usize nat | Write_bytes bytes

fun identity_hasher_write :: "u64 \<Rightarrow> hasher_input \<Rightarrow> u64 panics" where
  "identity_hasher_write h (Write_u64 i) = Inr i"
| "identity_hasher_write h (Write_usize i) = Inr (of_nat i)"
| "identity_hasher_write h (Write_bytes _) = Inl (Panicked ''unreachable'')"

definition identity_hasher_finish :: "u64 \<Rightarrow> u64" where
  "identity_hasher_finish h = h"

section \<open>Memory\<close>

datatype memory_location = LocBasic address | LocStorage address u256

type_synonym memory_location_hash = u64

datatype memory_value =
    ValBasic account_info
  | LazyBalanceAddition u256
  | ValStorage u256

type_synonym tx_idx = nat
type_synonym tx_incarnation = nat

datatype memory_entry = Data tx_incarnation memory_value | Estimate

section \<open>Transactions\<close>

datatype incarnation_status = ReadyToExecute | Executing | Executed | Validated | Aborting

record tx_status =
  incarnation :: tx_incarnation
  status :: incarnation_status

type_synonym transactions_status = "tx_status list"
type_synonym transactions_dependents = "tx_idx list list"
type_synonym transactions_dependencies_num = "(tx_idx, nat) hashmap"

record tx_version =
  ver_idx :: tx_idx
  ver_incarnation :: tx_incarnation

datatype read_origin = OriginMvMemory tx_version | OriginStorage

type_synonym read_locations = "(memory_location_hash, read_origin list) hashmap"

record read_set =
  locations :: read_locations
  read_accounts :: "(memory_location_hash, account_info) hashmap"

definition read_set_default :: read_set where
  "read_set_default = \<lparr>locations = [], read_accounts = []\<rparr>"

datatype read_error =
    StorageError string
  | NotFound
  | BlockingIndex tx_idx
  | InconsistentRead
  | InvalidMemoryLocationType

type_synonym write_set = "(memory_location_hash \<times> memory_value) list"

datatype task = Execution tx_version | Validation tx_version

end
