(* ===== verification/Mv_Memory.thy ===== *)
theory Mv_Memory
  imports Lib_Types
begin

text \<open>
  The multi-version memory of \<open>src/src/mv_memory.rs\<close>. The \<open>DashMap\<close> is a map from location
  hashes to ordered maps of entries; \<open>last_locations\<close> is the vector of the read and write
  sets recorded last by each transaction.

  The abstract view \<open>mv_get m l i\<close> is the entry of transaction \<open>i\<close> at location \<open>l\<close>. The
  lemmas state what each operation does to this view, when a recorded read set validates,
  and how the operations change the outcome of a validation.
\<close>

section \<open>State and operations\<close>

record last_locations =
  last_read :: read_locations
  last_write :: "memory_location_hash list"

record mv_memory =
  mv_data :: "memory_location_hash \<rightharpoonup> memory_entry btree"
  mv_last :: "last_locations list"

definition last_locations_default :: last_locations where
  "last_locations_default = \<lparr>last_read = [], last_write = []\<rparr>"

definition mv_new :: "nat \<Rightarrow> (memory_location_hash \<times> tx_idx list) list \<Rightarrow> mv_memory" where
  "mv_new n est =
     \<lparr>mv_data = fold (\<lambda>(l, idxs) d. d(l \<mapsto> btree_collect (map (\<lambda>i. (i, Estimate)) idxs))) est
        Map.empty,
      mv_last = map (\<lambda>_. last_locations_default) [0..<n]\<rparr>"

text \<open>One write of the write set: insert into the tree of the location, or start a tree.\<close>

definition mv_write ::
  "tx_version \<Rightarrow> memory_location_hash \<times> memory_value
   \<Rightarrow> (memory_location_hash \<rightharpoonup> memory_entry btree) \<Rightarrow> (memory_location_hash \<rightharpoonup> memory_entry btree)" where
  "mv_write v = (\<lambda>(l, val) d.
     let entry = Data (ver_incarnation v) val in
     case d l of
       Some t \<Rightarrow> d(l \<mapsto> btree_insert (ver_idx v) entry t)
     | None \<Rightarrow> d(l \<mapsto> [(ver_idx v, entry)]))"

text \<open>Removing the entry of a location the new incarnation did not write.\<close>

definition mv_unwrite ::
  "tx_idx \<Rightarrow> memory_location_hash list \<Rightarrow> memory_location_hash
   \<Rightarrow> (memory_location_hash \<rightharpoonup> memory_entry btree) \<Rightarrow> (memory_location_hash \<rightharpoonup> memory_entry btree)" where
  "mv_unwrite i new_locations l d =
     (if l \<in> set new_locations then d
      else case d l of Some t \<Rightarrow> d(l \<mapsto> btree_remove i t) | None \<Rightarrow> d)"

definition mv_record ::
  "tx_version \<Rightarrow> read_locations \<Rightarrow> write_set \<Rightarrow> mv_memory \<Rightarrow> (bool \<times> mv_memory) panics" where
  "mv_record v reads ws m =
     (let new_locations = map fst ws;
          d1 = fold (mv_write v) ws (mv_data m)
      in case vec_get (mv_last m) (ver_idx v) of
           Inl p \<Rightarrow> Inl p
         | Inr ll \<Rightarrow>
             (let d2 = fold (mv_unwrite (ver_idx v) new_locations) (last_write ll) d1;
                  ll' = \<lparr>last_read = reads, last_write = new_locations\<rparr>
              in Inr (list_ex (\<lambda>l. l \<notin> set (last_write ll)) new_locations,
                      \<lparr>mv_data = d2, mv_last = (mv_last m)[ver_idx v := ll']\<rparr>)))"

text \<open>Walk the entries below the reader from the back, one per recorded origin.\<close>

fun validate_origins :: "(tx_idx \<times> memory_entry) list \<Rightarrow> read_origin list \<Rightarrow> bool" where
  "validate_origins iter [] = True"
| "validate_origins iter (OriginMvMemory v # origins) =
     (case iter of
        (closest, Data i _) # rest \<Rightarrow>
          if closest \<noteq> ver_idx v \<or> ver_incarnation v \<noteq> i then False
          else validate_origins rest origins
      | _ \<Rightarrow> False)"
| "validate_origins iter (OriginStorage # origins) =
     (case iter of
        _ # _ \<Rightarrow> False
      | [] \<Rightarrow> validate_origins [] origins)"

definition read_location :: "memory_location_hash \<Rightarrow> mv_memory \<Rightarrow> memory_entry btree option" where
  "read_location l m = mv_data m l"

definition validate_location ::
  "tx_idx \<Rightarrow> mv_memory \<Rightarrow> memory_location_hash \<times> read_origin list \<Rightarrow> bool" where
  "validate_location i m = (\<lambda>(l, prior_origins).
     case read_location l m of
       Some written \<Rightarrow> validate_origins (btree_range_back i written) prior_origins
     | None \<Rightarrow> \<not> (length prior_origins \<noteq> 1 \<or> last prior_origins \<noteq> OriginStorage))"

definition validate_read_locations :: "tx_idx \<Rightarrow> mv_memory \<Rightarrow> bool panics" where
  "validate_read_locations i m =
     (case vec_get (mv_last m) i of
        Inl p \<Rightarrow> Inl p
      | Inr ll \<Rightarrow> Inr (list_all (validate_location i m) (last_read ll)))"

definition mv_estimate ::
  "tx_idx \<Rightarrow> memory_location_hash \<Rightarrow> (memory_location_hash \<rightharpoonup> memory_entry btree)
   \<Rightarrow> (memory_location_hash \<rightharpoonup> memory_entry btree)" where
  "mv_estimate i l d = (case d l of Some t \<Rightarrow> d(l \<mapsto> btree_insert i Estimate t) | None \<Rightarrow> d)"

definition convert_writes_to_estimates :: "tx_idx \<Rightarrow> mv_memory \<Rightarrow> mv_memory panics" where
  "convert_writes_to_estimates i m =
     (case vec_get (mv_last m) i of
        Inl p \<Rightarrow> Inl p
      | Inr ll \<Rightarrow> Inr (m\<lparr>mv_data := fold (mv_estimate i) (last_write ll) (mv_data m)\<rparr>))"

definition consume_location ::
  "memory_location_hash \<Rightarrow> mv_memory \<Rightarrow> memory_entry btree option \<times> mv_memory" where
  "consume_location l m = (mv_data m l, m\<lparr>mv_data := (mv_data m)(l := None)\<rparr>)"

section \<open>The abstract view\<close>

definition mv_get :: "mv_memory \<Rightarrow> memory_location_hash \<Rightarrow> tx_idx \<Rightarrow> memory_entry option" where
  "mv_get m l i = (case mv_data m l of None \<Rightarrow> None | Some t \<Rightarrow> btree_get t i)"

definition trees_ok :: "(memory_location_hash \<rightharpoonup> memory_entry btree) \<Rightarrow> bool" where
  "trees_ok d \<longleftrightarrow> (\<forall>l t. d l = Some t \<longrightarrow> btree_inv t)"

definition data_get ::
  "(memory_location_hash \<rightharpoonup> memory_entry btree) \<Rightarrow> memory_location_hash \<Rightarrow> tx_idx \<Rightarrow> memory_entry option" where
  "data_get d l i = (case d l of None \<Rightarrow> None | Some t \<Rightarrow> btree_get t i)"

lemma mv_get_data: "mv_get m l i = data_get (mv_data m) l i"
  by (simp add: mv_get_def data_get_def)

lemma mv_write_view:
  assumes "trees_ok d"
  shows "trees_ok (mv_write v (l, val) d)"
    and "data_get (mv_write v (l, val) d) l' i =
      (if l' = l \<and> i = ver_idx v then Some (Data (ver_incarnation v) val) else data_get d l' i)"
  using assms by (cases "d l"; auto simp: mv_write_def trees_ok_def data_get_def bt.get_insert
      bt.inv_insert Let_def)+

lemma mv_unwrite_view:
  assumes "trees_ok d"
  shows "trees_ok (mv_unwrite i new l d)"
    and "data_get (mv_unwrite i new l d) l' j =
      (if l' = l \<and> j = i \<and> l \<notin> set new then None else data_get d l' j)"
  using assms by (cases "d l"; auto simp: mv_unwrite_def trees_ok_def data_get_def bt.get_remove
      bt.inv_remove)+

lemma mv_estimate_view:
  assumes "trees_ok d"
  shows "trees_ok (mv_estimate i l d)"
    and "data_get (mv_estimate i l d) l' j =
      (if l' = l \<and> j = i \<and> d l \<noteq> None then Some Estimate else data_get d l' j)"
    and "dom (mv_estimate i l d) = dom d"
  using assms by (cases "d l"; auto simp: mv_estimate_def trees_ok_def data_get_def bt.get_insert
      bt.inv_insert)+

text \<open>The last value of a location in a write set is the one that stays.\<close>

lemma fold_mv_write_view:
  assumes "trees_ok d"
  shows "trees_ok (fold (mv_write v) ws d)"
    and "data_get (fold (mv_write v) ws d) l i =
      (case map_of (rev ws) l of
         Some val \<Rightarrow> if i = ver_idx v then Some (Data (ver_incarnation v) val) else data_get d l i
       | None \<Rightarrow> data_get d l i)"
  using assms
  by (induction ws arbitrary: d)
    (auto simp: mv_write_view map_add_def split: option.splits)

lemma fold_mv_unwrite_view:
  assumes "trees_ok d"
  shows "trees_ok (fold (mv_unwrite i new) ls d)"
    and "data_get (fold (mv_unwrite i new) ls d) l j =
      (if l \<in> set ls \<and> j = i \<and> l \<notin> set new then None else data_get d l j)"
  using assms by (induction ls arbitrary: d) (auto simp: mv_unwrite_view)

lemma fold_mv_estimate_view:
  assumes "trees_ok d"
  shows "trees_ok (fold (mv_estimate i) ls d)"
    and "data_get (fold (mv_estimate i) ls d) l j =
      (if l \<in> set ls \<and> j = i \<and> d l \<noteq> None then Some Estimate else data_get d l j)"
    and "dom (fold (mv_estimate i) ls d) = dom d"
  using assms
proof (induction ls arbitrary: d)
  case (Cons a ls)
  { case 1 then show ?case using Cons by (simp add: mv_estimate_view) }
  { case 2
    have "mv_estimate i a d l \<noteq> None \<longleftrightarrow> d l \<noteq> None"
      using mv_estimate_view(3)[OF 2, of i a] by (metis domIff)
    then show ?case using Cons 2 by (auto simp: mv_estimate_view) }
  { case 3 then show ?case using Cons by (simp add: mv_estimate_view) }
qed auto

section \<open>Invariant and behaviour of the operations\<close>

text \<open>
  The trees are ordered, every location of a recorded write set has an entry, and every value
  belongs to a location of the last recorded write set of its transaction.
\<close>

definition mv_inv :: "mv_memory \<Rightarrow> bool" where
  "mv_inv m \<longleftrightarrow> trees_ok (mv_data m) \<and>
     (\<forall>i < length (mv_last m). \<forall>l \<in> set (last_write (mv_last m ! i)). mv_get m l i \<noteq> None) \<and>
     (\<forall>l i n v. mv_get m l i = Some (Data n v) \<longrightarrow>
        i < length (mv_last m) \<and> l \<in> set (last_write (mv_last m ! i)))"

lemma mv_invD:
  assumes "mv_inv m"
  shows "trees_ok (mv_data m)"
    and "i < length (mv_last m) \<Longrightarrow> l \<in> set (last_write (mv_last m ! i)) \<Longrightarrow> mv_get m l i \<noteq> None"
    and "mv_get m l i = Some (Data n v) \<Longrightarrow> i < length (mv_last m)"
    and "mv_get m l i = Some (Data n v) \<Longrightarrow> l \<in> set (last_write (mv_last m ! i))"
  using assms unfolding mv_inv_def by blast+

lemma mv_get_tree: "mv_get m l i \<noteq> None \<Longrightarrow> mv_data m l \<noteq> None"
  by (auto simp: mv_get_def split: option.splits)

lemma mv_new_view:
  "trees_ok (mv_data (mv_new n est))"
  "mv_get (mv_new n est) l i =
     (case map_of (rev est) l of
        Some idxs \<Rightarrow> if i \<in> set idxs then Some Estimate else None
      | None \<Rightarrow> None)"
proof -
  let ?ins = "\<lambda>(l, idxs) d. d(l \<mapsto> btree_collect (map (\<lambda>i. (i, Estimate)) idxs))"
  have *: "fold ?ins est d l =
      (case map_of (rev est) l of
         Some idxs \<Rightarrow> Some (btree_collect (map (\<lambda>i. (i, Estimate)) idxs)) | None \<Rightarrow> d l)" for d l
    by (induction est arbitrary: d) (auto simp: map_add_def split: option.splits)
  have "map_of (rev (map (\<lambda>i. (i, Estimate)) idxs)) i = (if i \<in> set idxs then Some Estimate else None)"
    for idxs :: "nat list" and i
    by (induction idxs) (auto simp: map_add_def split: option.splits)
  then show "mv_get (mv_new n est) l i =
     (case map_of (rev est) l of
        Some idxs \<Rightarrow> if i \<in> set idxs then Some Estimate else None
      | None \<Rightarrow> None)"
    by (simp add: mv_get_def mv_new_def * btree_get_collect split: option.splits)
  show "trees_ok (mv_data (mv_new n est))"
    by (auto simp: trees_ok_def mv_new_def * split: option.splits)
qed

lemma mv_inv_new: "mv_inv (mv_new n est)"
  using mv_new_view[of n est]
  by (auto simp: mv_inv_def mv_new_def[of n est] last_locations_default_def split: option.splits if_splits)

definition recorded_entry ::
  "tx_version \<Rightarrow> write_set \<Rightarrow> mv_memory \<Rightarrow> memory_location_hash \<Rightarrow> memory_entry option" where
  "recorded_entry v ws m l =
     (case map_of (rev ws) l of
        Some val \<Rightarrow> Some (Data (ver_incarnation v) val)
      | None \<Rightarrow> if l \<in> set (last_write (mv_last m ! ver_idx v)) then None else mv_get m l (ver_idx v))"

lemma map_of_rev_dom: "map_of (rev ws) l \<noteq> None \<longleftrightarrow> l \<in> fst ` set ws"
  by (metis map_of_eq_None_iff set_rev)

lemma mv_record_ok:
  assumes inv: "mv_inv m" and i: "ver_idx v < length (mv_last m)"
  shows "\<exists>m'. mv_record v reads ws m =
      Inr (\<exists>l \<in> fst ` set ws. l \<notin> set (last_write (mv_last m ! ver_idx v)), m') \<and> mv_inv m' \<and>
    mv_last m' = (mv_last m)[ver_idx v := \<lparr>last_read = reads, last_write = map fst ws\<rparr>] \<and>
    (\<forall>l j. mv_get m' l j = (if j = ver_idx v then recorded_entry v ws m l else mv_get m l j))"
proof -
  let ?old = "last_write (mv_last m ! ver_idx v)"
  let ?d1 = "fold (mv_write v) ws (mv_data m)"
  define m' where "m' = \<lparr>mv_data = fold (mv_unwrite (ver_idx v) (map fst ws)) ?old ?d1,
      mv_last = (mv_last m)[ver_idx v := \<lparr>last_read = reads, last_write = map fst ws\<rparr>]\<rparr>"
  have run: "mv_record v reads ws m = Inr (\<exists>l \<in> fst ` set ws. l \<notin> set ?old, m')"
    using i by (auto simp: mv_record_def m'_def Let_def list_ex_iff)
  note t0 = mv_invD(1)[OF inv] and t1 = fold_mv_write_view[OF mv_invD(1)[OF inv], of v ws]
  note t2 = fold_mv_unwrite_view[OF t1(1), of "ver_idx v" "map fst ws" ?old]
  have view: "mv_get m' l j = (if j = ver_idx v then recorded_entry v ws m l else mv_get m l j)" for l j
  proof -
    have "mv_data m' = fold (mv_unwrite (ver_idx v) (map fst ws)) ?old ?d1" by (simp add: m'_def)
    then show ?thesis using map_of_rev_dom[of ws l]
      by (auto simp: mv_get_data t2(2) t1(2) recorded_entry_def split: option.splits)
  qed
  have lst: "mv_last m' = (mv_last m)[ver_idx v := \<lparr>last_read = reads, last_write = map fst ws\<rparr>]"
    by (simp add: m'_def)
  have "mv_inv m'"
    unfolding mv_inv_def
  proof (intro conjI allI impI ballI)
    show "trees_ok (mv_data m')" using t2(1) by (simp add: m'_def)
    fix j l assume j: "j < length (mv_last m')" and l: "l \<in> set (last_write (mv_last m' ! j))"
    show "mv_get m' l j \<noteq> None"
    proof (cases "j = ver_idx v")
      case True
      then have "map_of (rev ws) l \<noteq> None" using l i map_of_rev_dom[of ws l] by (simp add: lst)
      then show ?thesis using True by (auto simp: view recorded_entry_def)
    next
      case False
      then show ?thesis using j l mv_invD(2)[OF inv] by (simp add: view lst)
    qed
  next
    fix l j n val assume e: "mv_get m' l j = Some (Data n val)"
    have "j < length (mv_last m) \<and> l \<in> set (last_write (mv_last m' ! j))"
    proof (cases "j = ver_idx v")
      case True
      then show ?thesis using e i mv_invD(4)[OF inv] map_of_rev_dom[of ws l]
        by (auto simp: view recorded_entry_def lst split: option.splits if_splits)
    next
      case False
      then show ?thesis using e mv_invD(3,4)[OF inv] by (auto simp: view lst)
    qed
    then show "j < length (mv_last m')" "l \<in> set (last_write (mv_last m' ! j))"
      by (auto simp: lst)
  qed
  then show ?thesis using run view lst by blast
qed

lemma convert_writes_to_estimates_ok:
  assumes inv: "mv_inv m" and i: "i < length (mv_last m)"
  shows "\<exists>m'. convert_writes_to_estimates i m = Inr m' \<and> mv_inv m' \<and> mv_last m' = mv_last m \<and>
    (\<forall>l j. mv_get m' l j =
      (if j = i \<and> l \<in> set (last_write (mv_last m ! i)) then Some Estimate else mv_get m l j))"
proof -
  let ?ws = "last_write (mv_last m ! i)"
  define m' where "m' = m\<lparr>mv_data := fold (mv_estimate i) ?ws (mv_data m)\<rparr>"
  note t = fold_mv_estimate_view[OF mv_invD(1)[OF inv], of i ?ws]
  have tree: "l \<in> set ?ws \<Longrightarrow> mv_data m l \<noteq> None" for l
    using mv_invD(2)[OF inv i] mv_get_tree by blast
  have view: "mv_get m' l j = (if j = i \<and> l \<in> set ?ws then Some Estimate else mv_get m l j)" for l j
  proof -
    have "mv_data m' = fold (mv_estimate i) ?ws (mv_data m)" by (simp add: m'_def)
    then show ?thesis using tree by (auto simp: mv_get_data t(2))
  qed
  have "mv_inv m'"
    unfolding mv_inv_def view
    using t(1) mv_invD[OF inv] by (auto simp: m'_def split: if_splits)
  then show ?thesis using i view
    by (intro exI[of _ m']) (auto simp: convert_writes_to_estimates_def m'_def)
qed

section \<open>Validation\<close>

text \<open>The entries a reader of index \<open>k\<close> walks through, from the closest down.\<close>

definition walk :: "mv_memory \<Rightarrow> memory_location_hash \<Rightarrow> tx_idx \<Rightarrow> (tx_idx \<times> memory_entry) list" where
  "walk m l k = (case mv_data m l of None \<Rightarrow> [] | Some t \<Rightarrow> btree_range_back k t)"

lemma walk_set: "mv_inv m \<Longrightarrow> (i, e) \<in> set (walk m l k) \<longleftrightarrow> i < k \<and> mv_get m l i = Some e"
  using mv_invD(1)[of m] by (auto simp: walk_def mv_get_def trees_ok_def bt.range_back_set
      split: option.splits)

lemma walk_desc: "mv_inv m \<Longrightarrow> sorted_wrt (>) (map fst (walk m l k))"
  using mv_invD(1)[of m] by (auto simp: walk_def trees_ok_def bt.range_back_desc split: option.splits)

lemma walk_cong:
  assumes "mv_inv m" "mv_inv m'" "\<And>i. i < k \<Longrightarrow> mv_get m' l i = mv_get m l i"
  shows "walk m' l k = walk m l k"
  using assms by (intro strict_desc_unique walk_desc) (auto simp: walk_set)

text \<open>
  The read origins an execution records: versions read from the memory, then possibly the
  storage, never empty and with the storage only at the end.
\<close>

fun origins_ok :: "read_origin list \<Rightarrow> bool" where
  "origins_ok [] = False"
| "origins_ok [_] = True"
| "origins_ok (OriginMvMemory _ # r # rs) = origins_ok (r # rs)"
| "origins_ok (OriginStorage # r # rs) = False"

lemma validate_location_walk:
  assumes "origins_ok os"
  shows "validate_location k m (l, os) \<longleftrightarrow> validate_origins (walk m l k) os"
proof (cases "mv_data m l")
  case None
  then show ?thesis using assms
    by (cases os rule: origins_ok.cases; cases "hd os")
      (auto simp: validate_location_def read_location_def walk_def)
next
  case (Some t)
  then show ?thesis by (simp add: validate_location_def read_location_def walk_def)
qed

text \<open>
  A read set that validates keeps validating as long as no value it could see changes: new
  entries may replace only estimates, and no entry appears where there was none.
\<close>

lemma validate_origins_stable:
  assumes "sorted_wrt (>) (map fst xs)" and "sorted_wrt (>) (map fst ys)"
    and "\<And>i n v. (i, Data n v) \<in> set xs \<Longrightarrow> (i, Data n v) \<in> set ys"
    and "\<And>i e. (i, e) \<in> set ys \<Longrightarrow> \<exists>e'. (i, e') \<in> set xs"
    and "validate_origins xs os"
  shows "validate_origins ys os"
  using assms
proof (induction xs os arbitrary: ys rule: validate_origins.induct)
  case (1 iter)
  then show ?case by simp
next
  case (2 xs v os)
  then obtain val rest where xs: "xs = (ver_idx v, Data (ver_incarnation v) val) # rest"
    and ok: "validate_origins rest os"
    by (auto split: list.splits memory_entry.splits if_splits)
  let ?h = "(ver_idx v, Data (ver_incarnation v) val)"
  have "?h \<in> set ys" using "2.prems"(3) xs by simp
  then obtain y ys' where ys: "ys = y # ys'" by (cases ys) auto
  have "fst y \<le> ver_idx v" using "2.prems"(1,4) xs ys by (cases y) fastforce
  moreover have "y = ?h \<or> ver_idx v < fst y" using \<open>?h \<in> set ys\<close> "2.prems"(2) ys by auto
  ultimately have y: "y = ?h" by auto
  have "validate_origins ys' os"
  proof (rule "2.IH"[OF xs refl])
    show "\<exists>e'. (i, e') \<in> set rest" if "(i, e) \<in> set ys'" for i e
      using that "2.prems"(2) "2.prems"(4)[of i e] ys xs y by auto
    show "(i, Data n w) \<in> set ys'" if "(i, Data n w) \<in> set rest" for i n w
      using that "2.prems"(1) "2.prems"(3)[of i n w] ys xs y by auto
  qed (use "2.prems"(1,2) xs ys ok in auto)
  then show ?case using ys y by simp
next
  case (3 xs os)
  then have xs: "xs = []" "validate_origins [] os" by (auto split: list.splits)
  then have "ys = []" using "3.prems"(4) by (cases ys) auto
  then show ?case using xs by simp
qed

lemma validate_walk_stable:
  assumes "mv_inv m" "mv_inv m'"
    and "\<And>i. i < k \<Longrightarrow> mv_get m l i \<noteq> Some Estimate \<Longrightarrow> mv_get m' l i = mv_get m l i"
    and "validate_origins (walk m l k) os"
  shows "validate_origins (walk m' l k) os"
proof (rule validate_origins_stable[OF _ _ _ _ assms(4)])
  show "\<exists>e'. (i, e') \<in> set (walk m l k)" if "(i, e) \<in> set (walk m' l k)" for i e
    using that assms(1,2) assms(3)[of i] by (cases "mv_get m l i") (auto simp: walk_set)
qed (use assms in \<open>auto simp: walk_desc walk_set\<close>)

end
