(* ===== verification/Primitives.thy ===== *)
theory Primitives
  imports Lib_Types
begin

text \<open>
  The conversions of \<open>src/src/primitives.rs\<close> from an Alloy block header and transaction to
  the environments of \<open>revm\<close>. The structs appear with the fields the code reads or writes.
  \<open>BlobExcessGasAndPrice::new\<close> is a parameter. A \<open>B256\<close> is the word of its big-endian
  bytes, so \<open>U256::from_be_bytes\<close> keeps it.
\<close>

section \<open>Types\<close>

record header =
  hd_number :: "u64 option"
  hd_timestamp :: u64
  hd_miner :: address
  hd_gas_limit :: u128
  hd_gas_used :: u128
  hd_base_fee_per_gas :: "u128 option"
  hd_difficulty :: u256
  hd_total_difficulty :: "u256 option"
  hd_mix_hash :: "b256 option"
  hd_excess_blob_gas :: "u128 option"

record blob_excess_gas_and_price =
  excess_blob_gas :: u64
  blob_gasprice :: u128

record block_env =
  blk_number :: u256
  coinbase :: address
  blk_timestamp :: u256
  blk_gas_limit :: u256
  basefee :: u256
  difficulty :: u256
  prevrandao :: "b256 option"
  blob_excess :: "blob_excess_gas_and_price option"

record transaction =
  tr_from :: address
  tr_to :: "address option"
  tr_gas :: u128
  tr_transaction_type :: "u8 option"
  tr_gas_price :: "u128 option"
  tr_max_fee_per_gas :: "u128 option"
  tr_max_priority_fee_per_gas :: "u128 option"
  tr_value :: u256
  tr_input :: bytes
  tr_nonce :: u64
  tr_chain_id :: "u64 option"
  tr_access_list :: "(address \<times> b256 list) list option"
  tr_blob_versioned_hashes :: "b256 list option"
  tr_max_fee_per_blob_gas :: "u128 option"

datatype transact_to = Call address | Create

record tx_env =
  caller :: address
  gas_limit :: u64
  gas_price :: u256
  gas_priority_fee :: "u256 option"
  transact_to :: transact_to
  tx_value :: u256
  tx_data :: bytes
  tx_nonce :: "u64 option"
  tx_chain_id :: "u64 option"
  access_list :: "(address \<times> u256 list) list"
  blob_hashes :: "b256 list"
  max_fee_per_blob_gas :: "u256 option"

datatype transaction_parsing_error =
    OverflowedGasLimit
  | MissingGasPrice
  | MissingMaxFeePerGas
  | InvalidType u8

section \<open>Conversions\<close>

text \<open>
  The chain of tests reads \<open>total_difficulty\<close> and then \<open>number\<close> with \<open>?\<close>, so a missing field
  yields \<open>None\<close> only when the tests before it have failed.
\<close>

definition get_block_spec :: "header \<Rightarrow> spec_id option" where
  "get_block_spec h =
     (if hd_timestamp h \<ge> 1710338135 then Some CANCUN
      else if hd_timestamp h \<ge> 1681338455 then Some SHANGHAI
      else case hd_total_difficulty h of
        None \<Rightarrow> None
      | Some td \<Rightarrow>
          if saturating_sub td (hd_difficulty h) \<ge> 58750000000000000000000 then Some MERGE
          else case hd_number h of
            None \<Rightarrow> None
          | Some n \<Rightarrow>
              if n \<ge> 12965000 then Some LONDON
              else if n \<ge> 12244000 then Some BERLIN
              else if n \<ge> 9069000 then Some ISTANBUL
              else if n \<ge> 7280000 then Some PETERSBURG
              else if n \<ge> 4370000 then Some BYZANTIUM
              else if n \<ge> 2675000 then Some SPURIOUS_DRAGON
              else if n \<ge> 2463000 then Some TANGERINE
              else if n \<ge> 1150000 then Some HOMESTEAD
              else Some FRONTIER)"

definition get_block_env ::
  "(u64 \<Rightarrow> blob_excess_gas_and_price) \<Rightarrow> header \<Rightarrow> block_env option" where
  "get_block_env blob_new h =
     (case hd_number h of
        None \<Rightarrow> None
      | Some n \<Rightarrow>
          Some \<lparr>blk_number = ucast n, coinbase = hd_miner h, blk_timestamp = ucast (hd_timestamp h),
                blk_gas_limit = ucast (hd_gas_limit h),
                basefee = ucast (case hd_base_fee_per_gas h of Some f \<Rightarrow> f | None \<Rightarrow> 0),
                difficulty = hd_difficulty h, prevrandao = hd_mix_hash h,
                blob_excess = map_option (\<lambda>g. blob_new (ucast g)) (hd_excess_blob_gas h)\<rparr>)"

definition tx_gas_price ::
  "transaction \<Rightarrow> (transaction_parsing_error + u256) panics" where
  "tx_gas_price tx =
     (case tr_transaction_type tx of
        None \<Rightarrow> Inl Unwrap_failed
      | Some ty \<Rightarrow>
          Inr (if ty = 0 \<or> ty = 1 then
                 (case tr_gas_price tx of
                    Some p \<Rightarrow> Inr (ucast p) | None \<Rightarrow> Inl MissingGasPrice)
               else if ty = 2 \<or> ty = 3 then
                 (case tr_max_fee_per_gas tx of
                    Some p \<Rightarrow> Inr (ucast p) | None \<Rightarrow> Inl MissingMaxFeePerGas)
               else Inl (InvalidType ty)))"

definition get_tx_env :: "transaction \<Rightarrow> (transaction_parsing_error + tx_env) panics" where
  "get_tx_env tx =
     (if unat (tr_gas tx) \<ge> 2 ^ 64 then Inr (Inl OverflowedGasLimit)
      else case tx_gas_price tx of
        Inl p \<Rightarrow> Inl p
      | Inr (Inl e) \<Rightarrow> Inr (Inl e)
      | Inr (Inr price) \<Rightarrow>
          Inr (Inr
            \<lparr>caller = tr_from tx, gas_limit = ucast (tr_gas tx), gas_price = price,
             gas_priority_fee = map_option ucast (tr_max_priority_fee_per_gas tx),
             transact_to = (case tr_to tx of Some a \<Rightarrow> Call a | None \<Rightarrow> Create),
             tx_value = tr_value tx, tx_data = tr_input tx, tx_nonce = Some (tr_nonce tx),
             tx_chain_id = tr_chain_id tx,
             access_list = (case tr_access_list tx of Some al \<Rightarrow> al | None \<Rightarrow> []),
             blob_hashes = (case tr_blob_versioned_hashes tx of Some hs \<Rightarrow> hs | None \<Rightarrow> []),
             max_fee_per_blob_gas = map_option ucast (tr_max_fee_per_blob_gas tx)\<rparr>))"

text \<open>Collecting the transactions of a block stops at the first one that fails.\<close>

fun get_tx_envs :: "transaction list \<Rightarrow> (transaction_parsing_error + tx_env list) panics" where
  "get_tx_envs [] = Inr (Inr [])"
| "get_tx_envs (tx # txs) =
     (case get_tx_env tx of
        Inl p \<Rightarrow> Inl p
      | Inr (Inl e) \<Rightarrow> Inr (Inl e)
      | Inr (Inr env) \<Rightarrow>
          (case get_tx_envs txs of
             Inl p \<Rightarrow> Inl p
           | Inr (Inl e) \<Rightarrow> Inr (Inl e)
           | Inr (Inr envs) \<Rightarrow> Inr (Inr (env # envs))))"

end
