(* ===== verification/Vm.thy ===== *)
theory Vm
  imports Mv_Memory Primitives
begin

text \<open>
  The virtual machine layer of \<open>src/src/vm.rs\<close>: the database that intercepts the reads of a
  transaction, the reads themselves with their lazy evaluation, the construction of the
  write set, the rewards, and the result of an execution.

  The EVM is the \<open>revm\<close> crate, which is not part of the repository. What it does with a
  database is a tree of type \<open>evm\<close>: each inner node is one call of the \<open>Database\<close> trait with
  the continuation for its result, each leaf the value \<open>transact\<close> returns. The tree of a
  transaction is a parameter. \<open>run_evm\<close> runs a tree against a database; \<open>evm_step\<close> makes one
  call, so that calls of different transactions can be interleaved.
\<close>

section \<open>Executions of the EVM\<close>

datatype ('e, 'r) evm =
    Evm_Done 'r
  | Evm_Basic address bool "'e + account_info option \<Rightarrow> ('e, 'r) evm"
  | Evm_Code_By_Hash b256 "'e + bytecode \<Rightarrow> ('e, 'r) evm"
  | Evm_Has_Storage address "'e + bool \<Rightarrow> ('e, 'r) evm"
  | Evm_Storage address u256 "'e + u256 \<Rightarrow> ('e, 'r) evm"
  | Evm_Block_Hash u256 "'e + b256 \<Rightarrow> ('e, 'r) evm"

record ('s, 'e) database =
  db_basic :: "address \<Rightarrow> bool \<Rightarrow> 's \<Rightarrow> ('e + account_info option) \<times> 's"
  db_code_by_hash :: "b256 \<Rightarrow> 's \<Rightarrow> ('e + bytecode) \<times> 's"
  db_has_storage :: "address \<Rightarrow> 's \<Rightarrow> ('e + bool) \<times> 's"
  db_storage :: "address \<Rightarrow> u256 \<Rightarrow> 's \<Rightarrow> ('e + u256) \<times> 's"
  db_block_hash :: "u256 \<Rightarrow> 's \<Rightarrow> ('e + b256) \<times> 's"

primrec run_evm :: "('s, 'e) database \<Rightarrow> ('e, 'r) evm \<Rightarrow> 's \<Rightarrow> 'r \<times> 's" where
  "run_evm d (Evm_Done r) s = (r, s)"
| "run_evm d (Evm_Basic a pre k) s = (let (x, s') = db_basic d a pre s in run_evm d (k x) s')"
| "run_evm d (Evm_Code_By_Hash h k) s = (let (x, s') = db_code_by_hash d h s in run_evm d (k x) s')"
| "run_evm d (Evm_Has_Storage a k) s = (let (x, s') = db_has_storage d a s in run_evm d (k x) s')"
| "run_evm d (Evm_Storage a i k) s = (let (x, s') = db_storage d a i s in run_evm d (k x) s')"
| "run_evm d (Evm_Block_Hash n k) s = (let (x, s') = db_block_hash d n s in run_evm d (k x) s')"

fun evm_step :: "('s, 'e) database \<Rightarrow> ('e, 'r) evm \<Rightarrow> 's \<Rightarrow> ('e, 'r) evm \<times> 's" where
  "evm_step d (Evm_Done r) s = (Evm_Done r, s)"
| "evm_step d (Evm_Basic a pre k) s = (let (x, s') = db_basic d a pre s in (k x, s'))"
| "evm_step d (Evm_Code_By_Hash h k) s = (let (x, s') = db_code_by_hash d h s in (k x, s'))"
| "evm_step d (Evm_Has_Storage a k) s = (let (x, s') = db_has_storage d a s in (k x, s'))"
| "evm_step d (Evm_Storage a i k) s = (let (x, s') = db_storage d a i s in (k x, s'))"
| "evm_step d (Evm_Block_Hash n k) s = (let (x, s') = db_block_hash d n s in (k x, s'))"

section \<open>Results\<close>

record log =
  log_address :: address
  log_topics :: "b256 list"
  log_data :: bytes

record result_and_state =
  is_success :: bool
  gas_used :: u64
  into_logs :: "log list"
  rs_state :: "(address, account) hashmap"

datatype invalid_transaction = LackOfFundForMaxFee u256 u256 | OtherInvalidTransaction string

datatype 'e evm_error =
    EVM_Transaction invalid_transaction
  | EVM_Database 'e
  | EVM_Other string

type_synonym execution_error = "read_error evm_error"
type_synonym vm_run = "(read_error, execution_error + result_and_state) evm"

record receipt =
  receipt_status :: bool
  cumulative_gas_used :: u128
  logs :: "log list"

type_synonym evm_state_transitions = "(address, evm_account option) hashmap"

record pevm_tx_execution_result =
  tx_receipt :: receipt
  tx_state :: evm_state_transitions

text \<open>The conversion of the accounts in \<open>from_revm\<close>; it panics where \<open>EvmAccount::from\<close> does.\<close>

fun from_revm_state ::
  "revm \<Rightarrow> spec_id \<Rightarrow> (address \<times> account) list \<Rightarrow> evm_state_transitions panics" where
  "from_revm_state rv spec [] = Inr []"
| "from_revm_state rv spec ((a, acc) # accs) =
     (if \<not> is_touched acc then from_revm_state rv spec accs
      else if is_selfdestructed acc \<or> (account_is_empty acc \<and> is_enabled_in rv spec SPURIOUS_DRAGON)
      then map_sum id (\<lambda>st. (a, None) # st) (from_revm_state rv spec accs)
      else case evm_account_of_account rv acc of
        Inl p \<Rightarrow> Inl p
      | Inr ea \<Rightarrow> map_sum id (\<lambda>st. (a, Some ea) # st) (from_revm_state rv spec accs))"

definition from_revm ::
  "revm \<Rightarrow> spec_id \<Rightarrow> result_and_state \<Rightarrow> pevm_tx_execution_result panics" where
  "from_revm rv spec rs =
     map_sum id
       (\<lambda>st. \<lparr>tx_receipt = \<lparr>receipt_status = is_success rs, cumulative_gas_used = ucast (gas_used rs),
                            logs = into_logs rs\<rparr>,
              tx_state = st\<rparr>)
       (from_revm_state rv spec (rs_state rs))"

datatype vm_execution_result =
    VmRetry
  | VmReadError tx_idx
  | VmExecutionError execution_error
  | VmOk pevm_tx_execution_result read_locations write_set "tx_idx option"

section \<open>The virtual machine and its database\<close>

datatype reward_policy = Ethereum

record vm =
  hash_one :: "memory_location \<Rightarrow> memory_location_hash"
  vm_storage :: storage_ops
  vm_chain :: u64
  vm_spec_id :: spec_id
  vm_block_env :: block_env
  beneficiary_location_hash :: memory_location_hash
  vm_reward_policy :: reward_policy
  txs :: "tx_env list"

definition vm_new ::
  "(memory_location \<Rightarrow> memory_location_hash) \<Rightarrow> storage_ops \<Rightarrow> u64 \<Rightarrow> spec_id \<Rightarrow> block_env
   \<Rightarrow> tx_env list \<Rightarrow> vm" where
  "vm_new hash st chain spec blk ts =
     \<lparr>hash_one = hash, vm_storage = st, vm_chain = chain, vm_spec_id = spec, vm_block_env = blk,
      beneficiary_location_hash = hash (LocBasic (coinbase blk)),
      vm_reward_policy = Ethereum, txs = ts\<rparr>"

definition vm_get_address_hash :: "vm \<Rightarrow> address \<Rightarrow> memory_location_hash" where
  "vm_get_address_hash vm a =
     (if a = coinbase (vm_block_env vm) then beneficiary_location_hash vm
      else hash_one vm (LocBasic a))"

record vm_db =
  db_tx_idx :: tx_idx
  db_from :: address
  db_from_hash :: memory_location_hash
  db_to :: "address option"
  db_to_hash :: "memory_location_hash option"
  is_maybe_lazy :: bool
  db_read_set :: read_set
  only_read_from_and_to :: bool

definition vm_db_new ::
  "tx_idx \<Rightarrow> address \<Rightarrow> memory_location_hash \<Rightarrow> address option \<Rightarrow> memory_location_hash option \<Rightarrow> bool
   \<Rightarrow> vm_db" where
  "vm_db_new i from from_hash to to_hash lazy =
     \<lparr>db_tx_idx = i, db_from = from, db_from_hash = from_hash, db_to = to, db_to_hash = to_hash,
      is_maybe_lazy = lazy, db_read_set = read_set_default, only_read_from_and_to = True\<rparr>"

text \<open>\<open>to_hash\<close> is present whenever \<open>to\<close> is, so the \<open>unwrap\<close> of the code always succeeds.\<close>

definition db_get_address_hash :: "vm \<Rightarrow> vm_db \<Rightarrow> address \<Rightarrow> memory_location_hash" where
  "db_get_address_hash vm db a =
     (if a = db_from db then db_from_hash db
      else if Some a = db_to db then the (db_to_hash db)
      else vm_get_address_hash vm a)"

section \<open>Reading an account\<close>

text \<open>
  The loop of \<open>basic\<close> over the entries below the reader: \<open>prev\<close> are the origins of an earlier
  read of the location, \<open>new\<close> the origins found so far, \<open>add\<close> the sum of the lazy additions.
  The result holds the account, if the walk ended in one, the origins and the sum.
\<close>

fun eval_lazy ::
  "bool \<Rightarrow> tx_idx \<Rightarrow> read_origin list \<Rightarrow> (tx_idx \<times> memory_entry) list \<Rightarrow> tx_idx \<Rightarrow> read_origin list
   \<Rightarrow> u256 \<Rightarrow> read_error + (account_info option \<times> read_origin list \<times> u256)" where
  "eval_lazy consecutive i prev [] current new add =
     (if consecutive \<and> current > 0 then Inl (BlockingIndex (i - 1)) else Inr (None, new, add))"
| "eval_lazy consecutive i prev ((blocking, Estimate) # rest) current new add =
     (if consecutive then Inl (BlockingIndex (i - 1)) else Inl (BlockingIndex blocking))"
| "eval_lazy consecutive i prev ((closest, Data n val) # rest) current new add =
     (if consecutive \<and> closest \<noteq> current - 1 then Inl (BlockingIndex (i - 1))
      else if prev \<noteq> [] \<and> length prev = length new then Inl InconsistentRead
      else
        (let origin = OriginMvMemory \<lparr>ver_idx = closest, ver_incarnation = n\<rparr> in
         if prev \<noteq> [] \<and> prev ! length new \<noteq> origin then Inl InconsistentRead
         else
           (case val of
              ValBasic acc \<Rightarrow>
                Inr (Some (acc\<lparr>info_balance := info_balance acc + add\<rparr>), new @ [origin], add)
            | LazyBalanceAddition addition \<Rightarrow>
                eval_lazy consecutive i prev rest closest (new @ [origin]) (add + addition)
            | ValStorage _ \<Rightarrow> Inl InvalidMemoryLocationType)))"

text \<open>The part of \<open>basic\<close> that reads the multi-version memory.\<close>

definition read_mv_basic ::
  "vm \<Rightarrow> mv_memory \<Rightarrow> tx_idx \<Rightarrow> memory_location_hash \<Rightarrow> read_origin list
   \<Rightarrow> read_error + (account_info option \<times> read_origin list \<times> u256)" where
  "read_mv_basic vm m i l prev =
     (if i > 0 then
        (let consecutive = (l = beneficiary_location_hash vm) in
         case read_location l m of
           Some written \<Rightarrow> eval_lazy consecutive i prev (btree_range_back i written) i [] 0
         | None \<Rightarrow> if consecutive then Inl (BlockingIndex (i - 1)) else Inr (None, [], 0))
      else Inr (None, [], 0))"

text \<open>The fallback to the storage, with the sum of the lazy additions on top.\<close>

definition read_storage_basic ::
  "revm \<Rightarrow> vm \<Rightarrow> address \<Rightarrow> u256 \<Rightarrow> read_error + account_info option" where
  "read_storage_basic rv vm a add =
     (case st_basic (vm_storage vm) a of
        Inl err \<Rightarrow> Inl (StorageError err)
      | Inr (Some acc) \<Rightarrow>
          Inr (Some ((info_of_basic rv acc)
                 \<lparr>info_balance := info_balance (info_of_basic rv acc) + add\<rparr>))
      | Inr None \<Rightarrow> Inr (if add > 0 then Some (info_from_balance rv add) else None))"

definition read_basic ::
  "revm \<Rightarrow> vm \<Rightarrow> mv_memory \<Rightarrow> tx_idx \<Rightarrow> address \<Rightarrow> memory_location_hash \<Rightarrow> read_origin list
   \<Rightarrow> read_error + (account_info option \<times> read_origin list)" where
  "read_basic rv vm m i a l prev =
     (case read_mv_basic vm m i l prev of
        Inl e \<Rightarrow> Inl e
      | Inr (Some acc, new, _) \<Rightarrow> Inr (Some acc, new)
      | Inr (None, new, add) \<Rightarrow>
          (if prev \<noteq> [] \<and> (length prev \<noteq> length new + 1 \<or> last prev \<noteq> OriginStorage)
           then Inl InconsistentRead
           else
             (case read_storage_basic rv vm a add of
                Inl e \<Rightarrow> Inl e
              | Inr r \<Rightarrow> Inr (r, new @ [OriginStorage]))))"

definition vm_basic ::
  "revm \<Rightarrow> vm \<Rightarrow> mv_memory \<Rightarrow> address \<Rightarrow> bool \<Rightarrow> vm_db
   \<Rightarrow> (read_error + account_info option) \<times> vm_db" where
  "vm_basic rv vm m a is_preload db =
     (if is_preload then (Inr None, db)
      else if is_maybe_lazy db \<and> Some a = db_to db then
        (Inr (Some ((info_default rv)\<lparr>info_nonce := 1\<rparr>)), db)
      else
        (let db1 = (if a \<noteq> db_from db \<and> Some a \<noteq> db_to db
                    then db\<lparr>only_read_from_and_to := False\<rparr> else db);
             l = db_get_address_hash vm db a;
             locs = locations (db_read_set db);
             prev = (case hm_get locs l of Some os \<Rightarrow> os | None \<Rightarrow> [])
         in case read_basic rv vm m (db_tx_idx db) a l prev of
              Inl e \<Rightarrow>
                (Inl e, db1\<lparr>db_read_set := (db_read_set db)\<lparr>locations := hm_insert l prev locs\<rparr>\<rparr>)
            | Inr (r, origins) \<Rightarrow>
                (let rs1 = (db_read_set db)
                       \<lparr>locations := hm_insert l (if prev = [] then origins else prev) locs\<rparr>;
                     rs2 = (case r of
                              None \<Rightarrow> rs1
                            | Some acc \<Rightarrow> rs1\<lparr>read_accounts :=
                                hm_insert l (acc\<lparr>info_code := None\<rparr>) (read_accounts rs1)\<rparr>)
                 in (Inr r, db1\<lparr>db_read_set := rs2\<rparr>))))"

section \<open>Reading a storage slot and the rest of the database\<close>

definition read_slot ::
  "vm \<Rightarrow> mv_memory \<Rightarrow> tx_idx \<Rightarrow> address \<Rightarrow> u256 \<Rightarrow> memory_location_hash \<Rightarrow> read_origin option
   \<Rightarrow> read_error + (u256 \<times> read_origin)" where
  "read_slot vm m i a idx l prev =
     (let fallback =
        (if prev \<noteq> None \<and> prev \<noteq> Some OriginStorage then Inl InconsistentRead
         else (case st_storage (vm_storage vm) a idx of
                 Inl err \<Rightarrow> Inl (StorageError err)
               | Inr v \<Rightarrow> Inr (v, OriginStorage)))
      in if i > 0 then
           (case read_location l m of
              None \<Rightarrow> fallback
            | Some written \<Rightarrow>
                (case btree_range_back i written of
                   [] \<Rightarrow> fallback
                 | (closest, Data n (ValStorage v)) # _ \<Rightarrow>
                     (let origin = OriginMvMemory \<lparr>ver_idx = closest, ver_incarnation = n\<rparr> in
                      if prev \<noteq> None \<and> prev \<noteq> Some origin then Inl InconsistentRead
                      else Inr (v, origin))
                 | (closest, Estimate) # _ \<Rightarrow> Inl (BlockingIndex closest)
                 | _ \<Rightarrow> Inl InvalidMemoryLocationType))
         else fallback)"

text \<open>
  The storage is the recorded origin before it is asked, so the origin stays when it fails.
\<close>

fun slot_error_origins :: "read_error \<Rightarrow> read_origin list \<Rightarrow> read_origin list" where
  "slot_error_origins (StorageError _) [] = [OriginStorage]"
| "slot_error_origins _ origins = origins"

definition last_opt :: "'a list \<Rightarrow> 'a option" where
  "last_opt xs = (if xs = [] then None else Some (last xs))"

definition vm_storage_read ::
  "vm \<Rightarrow> mv_memory \<Rightarrow> address \<Rightarrow> u256 \<Rightarrow> vm_db \<Rightarrow> (read_error + u256) \<times> vm_db" where
  "vm_storage_read vm m a idx db =
     (let db1 = db\<lparr>only_read_from_and_to := False\<rparr>;
          l = hash_one vm (LocStorage a idx);
          locs = locations (db_read_set db);
          origins = (case hm_get locs l of Some os \<Rightarrow> os | None \<Rightarrow> [])
      in case read_slot vm m (db_tx_idx db) a idx l (last_opt origins) of
           Inl e \<Rightarrow>
             (Inl e, db1\<lparr>db_read_set := (db_read_set db)
                \<lparr>locations := hm_insert l (slot_error_origins e origins) locs\<rparr>\<rparr>)
         | Inr (v, origin) \<Rightarrow>
             (Inr v, db1\<lparr>db_read_set := (db_read_set db)
                \<lparr>locations := hm_insert l (if origins = [] then [origin] else origins) locs\<rparr>\<rparr>))"

definition vm_code_by_hash :: "revm \<Rightarrow> vm \<Rightarrow> b256 \<Rightarrow> vm_db \<Rightarrow> (read_error + bytecode) \<times> vm_db" where
  "vm_code_by_hash rv vm h db =
     (map_sum StorageError
        (\<lambda>c. case c of Some ec \<Rightarrow> bytecode_of_evm_code rv ec | None \<Rightarrow> bytecode_default rv)
        (st_code_by_hash (vm_storage vm) h), db)"

definition vm_has_storage :: "vm \<Rightarrow> address \<Rightarrow> vm_db \<Rightarrow> (read_error + bool) \<times> vm_db" where
  "vm_has_storage vm a db = (map_sum StorageError id (st_has_storage (vm_storage vm) a), db)"

definition vm_block_hash :: "vm \<Rightarrow> u256 \<Rightarrow> vm_db \<Rightarrow> (read_error + b256) \<times> vm_db" where
  "vm_block_hash vm n db = (map_sum StorageError id (st_block_hash (vm_storage vm) n), db)"

definition vm_database :: "revm \<Rightarrow> vm \<Rightarrow> mv_memory \<Rightarrow> (vm_db, read_error) database" where
  "vm_database rv vm m =
     \<lparr>db_basic = vm_basic rv vm m, db_code_by_hash = vm_code_by_hash rv vm,
      db_has_storage = vm_has_storage vm, db_storage = vm_storage_read vm m,
      db_block_hash = vm_block_hash vm\<rparr>"

section \<open>The write set\<close>

text \<open>
  \<open>execute_tx\<close> builds an EVM from the database, the chain, the specification, the block and the
  transaction and calls \<open>transact\<close> on it. The parameter \<open>transact\<close> stands for the
  constructors and \<open>transact\<close> of the \<open>revm\<close> crate.
\<close>

type_synonym 'e transact =
  "u64 \<Rightarrow> spec_id \<Rightarrow> block_env \<Rightarrow> tx_env \<Rightarrow> bool \<Rightarrow> ('e, 'e evm_error + result_and_state) evm"

definition execute_tx ::
  "'e transact \<Rightarrow> ('s, 'e) database \<Rightarrow> u64 \<Rightarrow> spec_id \<Rightarrow> block_env \<Rightarrow> tx_env \<Rightarrow> bool \<Rightarrow> 's
   \<Rightarrow> ('e evm_error + result_and_state) \<times> 's" where
  "execute_tx transact d chain spec blk tx with_reward s =
     run_evm d (transact chain spec blk tx with_reward) s"

text \<open>The writes of one account of the resulting state.\<close>

definition account_writes ::
  "revm \<Rightarrow> vm \<Rightarrow> (memory_location_hash, account_info) hashmap \<Rightarrow> bool \<Rightarrow> address option \<Rightarrow> u256
   \<Rightarrow> address \<times> account \<Rightarrow> write_set" where
  "account_writes rv vm reads lazy to val = (\<lambda>(a, acc).
     if is_selfdestructed acc then [(vm_get_address_hash vm a, ValBasic (info_default rv))]
     else
       (if is_touched acc then
          (let l = vm_get_address_hash vm a in
           if (case hm_get reads l of Some i \<Rightarrow> info_eq rv i (info acc) | None \<Rightarrow> False) then []
           else if lazy \<and> Some a = to \<and> is_empty_code_hash rv (info acc)
           then [(l, LazyBalanceAddition val)]
           else [(l, ValBasic (info acc))])
        else []) @
       map (\<lambda>(k, v). (hash_one vm (LocStorage a k), ValStorage (present_value v)))
         (filter (\<lambda>(k, v). is_changed v) (slots acc)))"

definition state_writes ::
  "revm \<Rightarrow> vm \<Rightarrow> (memory_location_hash, account_info) hashmap \<Rightarrow> bool \<Rightarrow> address option \<Rightarrow> u256
   \<Rightarrow> (address, account) hashmap \<Rightarrow> write_set" where
  "state_writes rv vm reads lazy to val st = concat (map (account_writes rv vm reads lazy to val) st)"

text \<open>Add an amount to the first write at a location, or append a lazy addition.\<close>

fun add_reward :: "memory_location_hash \<Rightarrow> u256 \<Rightarrow> write_set \<Rightarrow> write_set panics" where
  "add_reward l amount [] = Inr [(l, LazyBalanceAddition amount)]"
| "add_reward l amount ((k, v) # ws) =
     (if k = l then
        (case v of
           ValBasic i \<Rightarrow> Inr ((k, ValBasic (i\<lparr>info_balance := info_balance i + amount\<rparr>)) # ws)
         | LazyBalanceAddition b \<Rightarrow> Inr ((k, LazyBalanceAddition (b + amount)) # ws)
         | ValStorage _ \<Rightarrow> Inl (Panicked ''unreachable''))
      else map_sum id (Cons (k, v)) (add_reward l amount ws))"

definition reward_gas_price :: "revm \<Rightarrow> vm \<Rightarrow> tx_env \<Rightarrow> u256" where
  "reward_gas_price rv vm tx =
     (let price = (case gas_priority_fee tx of
                     Some fee \<Rightarrow> min (gas_price tx) (fee + basefee (vm_block_env vm))
                   | None \<Rightarrow> gas_price tx)
      in if is_enabled_in rv (vm_spec_id vm) LONDON
         then saturating_sub price (basefee (vm_block_env vm)) else price)"

fun apply_rewards :: "revm \<Rightarrow> vm \<Rightarrow> tx_env \<Rightarrow> u256 \<Rightarrow> write_set \<Rightarrow> write_set panics" where
  "apply_rewards rv vm tx gas ws =
     (case vm_reward_policy vm of
        Ethereum \<Rightarrow>
          add_reward (beneficiary_location_hash vm) (reward_gas_price rv vm tx * gas) ws)"

section \<open>Executing a transaction\<close>

definition tx_to :: "tx_env \<Rightarrow> address option" where
  "tx_to tx = (case transact_to tx of Call a \<Rightarrow> Some a | Create \<Rightarrow> None)"

text \<open>
  The lazy condition of \<open>Vm::execute\<close>: the transaction calls another account, not a contract in
  the storage. An error of \<open>is_contract\<close> fails the \<open>unwrap\<close>.
\<close>

definition maybe_lazy :: "storage_ops \<Rightarrow> tx_env \<Rightarrow> bool panics" where
  "maybe_lazy st tx =
     (case transact_to tx of
        Create \<Rightarrow> Inr False
      | Call a \<Rightarrow>
          if a = caller tx then Inr False
          else (case st_is_contract st a of Inl _ \<Rightarrow> Inl Unwrap_failed | Inr b \<Rightarrow> Inr (\<not> b)))"

definition vm_start :: "vm \<Rightarrow> tx_idx \<Rightarrow> vm_db panics" where
  "vm_start vm i =
     (case vec_get (txs vm) i of
        Inl p \<Rightarrow> Inl p
      | Inr tx \<Rightarrow>
          (case maybe_lazy (vm_storage vm) tx of
             Inl p \<Rightarrow> Inl p
           | Inr lazy \<Rightarrow>
               Inr (vm_db_new i (caller tx) (vm_get_address_hash vm (caller tx)) (tx_to tx)
                      (map_option (vm_get_address_hash vm) (tx_to tx)) lazy)))"

definition next_validation_idx :: "vm \<Rightarrow> tx_idx \<Rightarrow> vm_db \<Rightarrow> write_set \<Rightarrow> tx_idx option" where
  "next_validation_idx vm i db ws =
     (if i = 0 then None
      else if \<not> only_read_from_and_to db then Some i
      else if db_to db = None \<or>
        list_ex (\<lambda>(l, _). l \<noteq> db_from_hash db \<and> Some l \<noteq> db_to_hash db \<and>
                          l \<noteq> beneficiary_location_hash vm) ws
      then Some (i + 1)
      else None)"

text \<open>What \<open>Vm::execute\<close> makes of the result of the EVM.\<close>

fun vm_finish ::
  "revm \<Rightarrow> vm \<Rightarrow> tx_env \<Rightarrow> vm_db \<Rightarrow> execution_error + result_and_state \<Rightarrow> vm_execution_result panics" where
  "vm_finish rv vm tx db (Inr rs) =
     (case apply_rewards rv vm tx (ucast (gas_used rs))
             (state_writes rv vm (read_accounts (db_read_set db)) (is_maybe_lazy db) (db_to db)
                (tx_value tx) (rs_state rs)) of
        Inl p \<Rightarrow> Inl p
      | Inr ws \<Rightarrow>
          (case from_revm rv (vm_spec_id vm) rs of
             Inl p \<Rightarrow> Inl p
           | Inr res \<Rightarrow>
               Inr (VmOk res (locations (db_read_set db)) ws
                      (next_validation_idx vm (db_tx_idx db) db ws))))"
| "vm_finish rv vm tx db (Inl (EVM_Database InconsistentRead)) = Inr VmRetry"
| "vm_finish rv vm tx db (Inl (EVM_Database (BlockingIndex b))) = Inr (VmReadError b)"
| "vm_finish rv vm tx db (Inl err) =
     (case err of
        EVM_Transaction (LackOfFundForMaxFee _ _) \<Rightarrow>
          if db_tx_idx db > 0 then Inr (VmReadError (db_tx_idx db - 1))
          else Inr (VmExecutionError err)
      | _ \<Rightarrow> Inr (VmExecutionError err))"

definition vm_execute ::
  "revm \<Rightarrow> read_error transact \<Rightarrow> vm \<Rightarrow> mv_memory \<Rightarrow> tx_idx \<Rightarrow> vm_execution_result panics" where
  "vm_execute rv transact vm m i =
     (case vm_start vm i of
        Inl p \<Rightarrow> Inl p
      | Inr db \<Rightarrow>
          (let tx = txs vm ! i;
               (r, db') = execute_tx transact (vm_database rv vm m) (vm_chain vm) (vm_spec_id vm)
                            (vm_block_env vm) tx False db
           in vm_finish rv vm tx db' r))"

end
