(* ===== verification/Vm_Replay.thy ===== *)
theory Vm_Replay
  imports Vm
begin

text \<open>
  Executions of the virtual machine as functions of what they read.

  A read of an account or of a storage slot depends on the multi-version memory only through
  the entries below the reader (\<open>walk\<close>), and its result is determined by the origins it
  records, once every version has a fixed value at each location. An execution whose reads
  were made on changing memories can therefore be replayed on any memory in which its
  recorded read set validates, with the same result: this is what makes validation of
  origins sound.

  \<open>G v l\<close> is the value version \<open>v\<close> wrote to location \<open>l\<close>.
\<close>

lemma version_eta [simp]: "\<lparr>ver_idx = ver_idx v, ver_incarnation = ver_incarnation v\<rparr> = v"
  by simp

section \<open>Reads as functions of the walk\<close>

lemma walk_0 [simp]: "walk m l 0 = []"
  by (simp add: walk_def btree_range_back_def split: option.splits)

lemma read_mv_basic_walk:
  "read_mv_basic vm m i l prev =
     eval_lazy (l = beneficiary_location_hash vm) i prev (walk m l i) i [] 0"
  by (auto simp: read_mv_basic_def walk_def read_location_def btree_range_back_def Let_def
      split: option.splits)

definition slot_fallback ::
  "vm \<Rightarrow> address \<Rightarrow> u256 \<Rightarrow> read_origin option \<Rightarrow> read_error + (u256 \<times> read_origin)" where
  "slot_fallback vm a idx prev =
     (if prev \<noteq> None \<and> prev \<noteq> Some OriginStorage then Inl InconsistentRead
      else (case st_storage (vm_storage vm) a idx of
              Inl err \<Rightarrow> Inl (StorageError err)
            | Inr v \<Rightarrow> Inr (v, OriginStorage)))"

lemma read_slot_walk:
  "read_slot vm m i a idx l prev =
     (case walk m l i of
        [] \<Rightarrow> slot_fallback vm a idx prev
      | (closest, Data n (ValStorage v)) # _ \<Rightarrow>
          (let origin = OriginMvMemory \<lparr>ver_idx = closest, ver_incarnation = n\<rparr> in
           if prev \<noteq> None \<and> prev \<noteq> Some origin then Inl InconsistentRead else Inr (v, origin))
      | (closest, Estimate) # _ \<Rightarrow> Inl (BlockingIndex closest)
      | _ \<Rightarrow> Inl InvalidMemoryLocationType)"
proof (cases "i = 0")
  case True
  then show ?thesis by (simp add: read_slot_def slot_fallback_def)
next
  case False
  then show ?thesis
    unfolding read_slot_def slot_fallback_def Let_def walk_def read_location_def
    by (cases "mv_data m l") (simp_all only: if_True option.case neq0_conv list.case)
qed

text \<open>Only the entries below the reader matter.\<close>

lemma read_basic_cong:
  "walk m' l i = walk m l i \<Longrightarrow> read_basic rv vm m' i a l prev = read_basic rv vm m i a l prev"
  by (simp add: read_basic_def read_mv_basic_walk)

lemma read_slot_cong:
  "walk m' l i = walk m l i \<Longrightarrow> read_slot vm m' i a idx l prev = read_slot vm m i a idx l prev"
  by (simp add: read_slot_walk)

section \<open>The value of a list of origins\<close>

type_synonym version_values = "tx_version \<Rightarrow> memory_location_hash \<Rightarrow> memory_value option"

definition walk_values :: "(tx_version \<Rightarrow> memory_value option) \<Rightarrow> (tx_idx \<times> memory_entry) list \<Rightarrow> bool" where
  "walk_values g xs \<longleftrightarrow>
     (\<forall>i n v. (i, Data n v) \<in> set xs \<longrightarrow> g \<lparr>ver_idx = i, ver_incarnation = n\<rparr> = Some v)"

definition mv_values :: "version_values \<Rightarrow> mv_memory \<Rightarrow> bool" where
  "mv_values G m \<longleftrightarrow>
     (\<forall>l i n v. mv_get m l i = Some (Data n v) \<longrightarrow> G \<lparr>ver_idx = i, ver_incarnation = n\<rparr> l = Some v)"

lemma mv_values_walk: "mv_inv m \<Longrightarrow> mv_values G m \<Longrightarrow> walk_values (\<lambda>v. G v l) (walk m l i)"
  by (simp add: mv_values_def walk_values_def walk_set)

lemma walk_values_Cons [simp]:
  "walk_values g ((i, Data n v) # xs) \<longleftrightarrow>
     g \<lparr>ver_idx = i, ver_incarnation = n\<rparr> = Some v \<and> walk_values g xs"
  "walk_values g ((i, Estimate) # xs) \<longleftrightarrow> walk_values g xs"
  by (auto simp: walk_values_def)

text \<open>
  The account and the sum of the lazy additions that a list of origins stands for, or
  \<open>None\<close> if no successful read records it. \<open>c\<close> says whether the indexes must be consecutive.
\<close>

fun eval_origins ::
  "bool \<Rightarrow> (tx_version \<Rightarrow> memory_value option) \<Rightarrow> tx_idx \<Rightarrow> read_origin list \<Rightarrow> u256
   \<Rightarrow> (account_info option \<times> u256) option" where
  "eval_origins c g cur [] add = None"
| "eval_origins c g cur (OriginStorage # os) add =
     (if os = [] \<and> \<not> (c \<and> cur > 0) then Some (None, add) else None)"
| "eval_origins c g cur (OriginMvMemory v # os) add =
     (if c \<and> ver_idx v \<noteq> cur - 1 then None
      else case g v of
        Some (ValBasic acc) \<Rightarrow>
          if os = [] then Some (Some (acc\<lparr>info_balance := info_balance acc + add\<rparr>), add) else None
      | Some (LazyBalanceAddition b) \<Rightarrow> eval_origins c g (ver_idx v) os (add + b)
      | _ \<Rightarrow> None)"

abbreviation (input) storage_end :: "'a option \<Rightarrow> read_origin list" where
  "storage_end r \<equiv> (if r = None then [OriginStorage] else [])"

text \<open>What a successful walk found is the value of the origins it collected.\<close>

lemma eval_lazy_origins:
  assumes "eval_lazy c i prev xs cur new add = Inr (r, new', add')" and "walk_values g xs"
    and "prev = [] \<or> take (length new) prev = new"
  shows "\<exists>os. new' = new @ os \<and> eval_origins c g cur (os @ storage_end r) add = Some (r, add') \<and>
    (prev = [] \<or> take (length new') prev = new')"
  using assms
proof (induction c i prev xs cur new add rule: eval_lazy.induct)
  case (1 consecutive i prev current new add)
  then show ?case by (auto split: if_splits)
next
  case (3 consecutive i prev closest n val rest current new add)
  let ?o = "OriginMvMemory \<lparr>ver_idx = closest, ver_incarnation = n\<rparr>"
  have "\<not> (consecutive \<and> closest \<noteq> current - 1)" "\<not> (prev \<noteq> [] \<and> length prev = length new)"
    "\<not> (prev \<noteq> [] \<and> prev ! length new \<noteq> ?o)"
    using "3.prems"(1) by (auto simp: Let_def split: if_splits)
  moreover from this have pre: "prev = [] \<or> take (length (new @ [?o])) prev = new @ [?o]"
  proof -
    have "prev \<noteq> [] \<longrightarrow> length new < length prev"
      using \<open>\<not> (prev \<noteq> [] \<and> length prev = length new)\<close> "3.prems"(3)
      by (metis le_neq_implies_less length_take min.cobounded1)
    then show ?thesis
      using \<open>\<not> (prev \<noteq> [] \<and> prev ! length new \<noteq> ?o)\<close> "3.prems"(3)
      by (auto simp: take_Suc_conv_app_nth)
  qed
  moreover have g: "g \<lparr>ver_idx = closest, ver_incarnation = n\<rparr> = Some val" "walk_values g rest"
    using "3.prems"(2) by simp_all
  ultimately show ?case
  proof (cases val)
    case (LazyBalanceAddition b)
    have "eval_lazy consecutive i prev rest closest (new @ [?o]) (add + b) = Inr (r, new', add')"
      using "3.prems"(1) LazyBalanceAddition by (auto simp: Let_def split: if_splits)
    from "3.IH"[OF _ _ refl _ LazyBalanceAddition this g(2) pre] obtain os where
      "new' = (new @ [?o]) @ os" "eval_origins consecutive g closest (os @ storage_end r) (add + b)
        = Some (r, add')" "prev = [] \<or> take (length new') prev = new'"
      using \<open>\<not> (consecutive \<and> closest \<noteq> current - 1)\<close> \<open>\<not> (prev \<noteq> [] \<and> length prev = length new)\<close>
        \<open>\<not> (prev \<noteq> [] \<and> prev ! length new \<noteq> ?o)\<close> by blast
    then show ?thesis using g LazyBalanceAddition \<open>\<not> (consecutive \<and> closest \<noteq> current - 1)\<close>
      by (intro exI[of _ "?o # os"]) auto
  next
    case (ValBasic acc)
    then have "new' = new @ [?o]" "r = Some (acc\<lparr>info_balance := info_balance acc + add\<rparr>)" "add' = add"
      using "3.prems"(1) by (auto simp: Let_def split: if_splits)
    then show ?thesis using g ValBasic pre \<open>\<not> (consecutive \<and> closest \<noteq> current - 1)\<close>
      by (intro exI[of _ "[?o]"]) auto
  next
    case (ValStorage x)
    then show ?thesis using "3.prems"(1) by (auto simp: Let_def split: if_splits)
  qed
qed (auto split: if_splits)

text \<open>A walk in which the origins validate finds the value of the origins.\<close>

lemma eval_lazy_replay:
  assumes "eval_origins c g cur os add = Some (r, add')" and "validate_origins xs os"
    and "walk_values g xs" and "prev = [] \<or> prev = new @ os"
  shows "\<exists>ps. os = ps @ storage_end r \<and> eval_lazy c i prev xs cur new add = Inr (r, new @ ps, add')"
  using assms
proof (induction os arbitrary: xs cur new add)
  case Nil
  then show ?case by simp
next
  case (Cons o1 os)
  show ?case
  proof (cases o1)
    case OriginStorage
    then have "xs = []" "os = []" "r = None" "add' = add" "\<not> (c \<and> cur > 0)"
      using Cons.prems by (auto split: if_splits list.splits)
    then show ?thesis using OriginStorage by auto
  next
    case (OriginMvMemory v)
    then obtain val rest where xs: "xs = (ver_idx v, Data (ver_incarnation v) val) # rest"
      and ok: "validate_origins rest os"
      using Cons.prems(2) by (auto split: list.splits memory_entry.splits if_splits)
    have gv: "g v = Some val" and gr: "walk_values g rest" using Cons.prems(3) xs by simp_all
    have c: "\<not> (c \<and> ver_idx v \<noteq> cur - 1)"
      using Cons.prems(1) OriginMvMemory by (auto split: if_splits)
    have p: "\<not> (prev \<noteq> [] \<and> length prev = length new)" "prev \<noteq> [] \<longrightarrow> prev ! length new = o1"
      using Cons.prems(4) by auto
    show ?thesis
    proof (cases val)
      case (ValBasic acc)
      then show ?thesis using Cons.prems(1) OriginMvMemory gv c p xs
        by (auto simp: Let_def split: if_splits)
    next
      case (LazyBalanceAddition b)
      then have "eval_origins c g (ver_idx v) os (add + b) = Some (r, add')"
        using Cons.prems(1) OriginMvMemory gv c by (auto split: if_splits)
      from Cons.IH[OF this ok gr, of "new @ [o1]"] Cons.prems(4) obtain ps where
        "os = ps @ storage_end r"
        "eval_lazy c i prev rest (ver_idx v) (new @ [o1]) (add + b) = Inr (r, (new @ [o1]) @ ps, add')"
        by auto
      then show ?thesis using OriginMvMemory LazyBalanceAddition c p xs
        by (intro exI[of _ "o1 # ps"]) (auto simp: Let_def)
    next
      case (ValStorage x)
      then show ?thesis using Cons.prems(1) OriginMvMemory gv by (auto split: if_splits)
    qed
  qed
qed

text \<open>No list of origins with a value is a proper prefix of another one.\<close>

lemma eval_origins_prefix:
  "eval_origins c g cur os add = Some x \<Longrightarrow> eval_origins c g cur (os @ zs) add = Some y \<Longrightarrow> zs = []"
  by (induction c g cur os add rule: eval_origins.induct)
    (auto split: if_splits option.splits memory_value.splits)

section \<open>Reads of accounts and slots\<close>

text \<open>The result of a read of an account, as a function of its origins.\<close>

definition basic_value ::
  "revm \<Rightarrow> vm \<Rightarrow> tx_idx \<Rightarrow> address \<Rightarrow> memory_location_hash \<Rightarrow> (tx_version \<Rightarrow> memory_value option)
   \<Rightarrow> read_origin list \<Rightarrow> account_info option option" where
  "basic_value rv vm i a l g os =
     (case eval_origins (l = beneficiary_location_hash vm) g i os 0 of
        None \<Rightarrow> None
      | Some (Some acc, _) \<Rightarrow> Some (Some acc)
      | Some (None, add) \<Rightarrow>
          (case read_storage_basic rv vm a add of Inl _ \<Rightarrow> None | Inr r \<Rightarrow> Some r))"

abbreviation basic_origins ::
  "vm \<Rightarrow> tx_idx \<Rightarrow> memory_location_hash \<Rightarrow> (tx_version \<Rightarrow> memory_value option) \<Rightarrow> read_origin list \<Rightarrow> bool" where
  "basic_origins vm i l g os \<equiv> eval_origins (l = beneficiary_location_hash vm) g i os 0 \<noteq> None"

lemma read_basic_value:
  assumes run: "read_basic rv vm m i a l prev = Inr (r, new)" and g: "walk_values g (walk m l i)"
    and prev: "prev = [] \<or> basic_origins vm i l g prev"
  shows "basic_value rv vm i a l g (if prev = [] then new else prev) = Some r"
proof -
  let ?c = "l = beneficiary_location_hash vm"
  obtain x ps add where e: "eval_lazy ?c i prev (walk m l i) i [] 0 = Inr (x, ps, add)"
    using run by (auto simp: read_basic_def read_mv_basic_walk split: sum.splits)
  from eval_lazy_origins[OF this g] have v: "eval_origins ?c g i (ps @ storage_end x) 0 = Some (x, add)"
    and pre: "prev = [] \<or> take (length ps) prev = ps" by auto
  show ?thesis
  proof (cases x)
    case None
    then have "prev = [] \<or> prev = ps @ [OriginStorage]" and new: "new = ps @ [OriginStorage]"
      and st: "read_storage_basic rv vm a add = Inr r"
      using run e pre unfolding read_basic_def read_mv_basic_walk
      by (auto split: sum.splits if_splits)
        (metis append_butlast_last_id butlast_conv_take diff_Suc_1 list.size(3) nat.distinct(1))+
    then show ?thesis using v st None by (auto simp: basic_value_def)
  next
    case (Some acc)
    then have new: "new = ps" "r = Some acc"
      using run e by (auto simp: read_basic_def read_mv_basic_walk)
    have "prev = [] \<or> prev = ps"
    proof (rule disjCI)
      assume "prev \<noteq> ps"
      show "prev = []"
      proof (rule ccontr)
        assume "prev \<noteq> []"
        then obtain y zs where "prev = ps @ zs" "eval_origins ?c g i prev 0 = Some y"
          using pre prev by (metis append_take_drop_id not_Some_eq)
        then show False using eval_origins_prefix[of ?c g i ps 0 _ zs] v Some \<open>prev \<noteq> ps\<close> by auto
      qed
    qed
    then show ?thesis using v Some new by (auto simp: basic_value_def)
  qed
qed

lemma read_basic_replay:
  assumes "basic_value rv vm i a l g os = Some r" and "validate_origins (walk m l i) os"
    and "walk_values g (walk m l i)" and prev: "prev = [] \<or> prev = os"
  shows "read_basic rv vm m i a l prev = Inr (r, os)"
proof -
  let ?c = "l = beneficiary_location_hash vm"
  obtain x add where x: "eval_origins ?c g i os 0 = Some (x, add)"
    using assms(1) by (auto simp: basic_value_def split: option.splits)
  from eval_lazy_replay[OF this assms(2,3), of prev "[]" i] prev obtain ps where
    ps: "os = ps @ storage_end x" "eval_lazy ?c i prev (walk m l i) i [] 0 = Inr (x, ps, add)"
    by auto
  then show ?thesis using assms(1) x prev
    by (cases x) (auto simp: read_basic_def read_mv_basic_walk basic_value_def split: sum.splits)
qed

lemma basic_value_origins: "basic_value rv vm i a l g os = Some r \<Longrightarrow> basic_origins vm i l g os"
  by (auto simp: basic_value_def split: option.splits)

lemma basic_origins_ok: "eval_origins c g i os add = Some x \<Longrightarrow> origins_ok os"
proof (induction c g i os add rule: eval_origins.induct)
  case (3 c g cur v os add)
  then show ?case by (cases os) (auto split: if_splits option.splits memory_value.splits)
qed (auto split: if_splits)

text \<open>The result of a read of a slot, as a function of its origins.\<close>

fun slot_value ::
  "vm \<Rightarrow> address \<Rightarrow> u256 \<Rightarrow> (tx_version \<Rightarrow> memory_value option) \<Rightarrow> read_origin list \<Rightarrow> u256 option" where
  "slot_value vm a idx g [OriginStorage] =
     (case st_storage (vm_storage vm) a idx of Inl _ \<Rightarrow> None | Inr v \<Rightarrow> Some v)"
| "slot_value vm a idx g [OriginMvMemory v] =
     (case g v of Some (ValStorage x) \<Rightarrow> Some x | _ \<Rightarrow> None)"
| "slot_value vm a idx g _ = None"

definition slot_origins :: "(tx_version \<Rightarrow> memory_value option) \<Rightarrow> read_origin list \<Rightarrow> bool" where
  "slot_origins g os \<longleftrightarrow>
     os = [OriginStorage] \<or> (\<exists>v x. os = [OriginMvMemory v] \<and> g v = Some (ValStorage x))"

lemma slot_origins_ok: "slot_origins g os \<Longrightarrow> origins_ok os"
  by (auto simp: slot_origins_def)

lemma slot_value_origins: "slot_value vm a idx g os = Some x \<Longrightarrow> slot_origins g os"
  by (cases "(vm, a, idx, g, os)" rule: slot_value.cases)
    (auto simp: slot_origins_def split: option.splits memory_value.splits)

lemma read_slot_value:
  assumes run: "read_slot vm m i a idx l (last_opt prev) = Inr (x, origin)"
    and g: "walk_values g (walk m l i)" and prev: "prev = [] \<or> slot_origins g prev"
  shows "slot_value vm a idx g (if prev = [] then [origin] else prev) = Some x"
proof -
  have last: "prev = [] \<or> (\<exists>p. prev = [p] \<and> last_opt prev = Some p)"
    using prev by (auto simp: slot_origins_def last_opt_def)
  have "(origin = OriginStorage \<and> st_storage (vm_storage vm) a idx = Inr x) \<or>
     (\<exists>v. origin = OriginMvMemory v \<and> g v = Some (ValStorage x))"
    and "prev = [] \<or> last_opt prev = Some origin"
    using run g last unfolding read_slot_walk
    by (auto simp: slot_fallback_def Let_def last_opt_def split: list.splits prod.splits
        memory_entry.splits memory_value.splits sum.splits if_splits)
  then show ?thesis using last by auto
qed

lemma read_slot_replay:
  assumes "slot_value vm a idx g os = Some x" and "validate_origins (walk m l i) os"
    and g: "walk_values g (walk m l i)" and prev: "prev = [] \<or> prev = os"
  shows "\<exists>origin. os = [origin] \<and> read_slot vm m i a idx l (last_opt prev) = Inr (x, origin)"
proof (cases "(vm, a, idx, g, os)" rule: slot_value.cases)
  case (1 vm a idx g)
  then show ?thesis using assms
    by (auto simp: read_slot_walk slot_fallback_def last_opt_def split: list.splits sum.splits)
next
  case (2 vm a idx g v)
  then show ?thesis using assms
    by (auto simp: read_slot_walk last_opt_def Let_def split: list.splits option.splits
        memory_value.splits memory_entry.splits if_splits)
qed (use assms in auto)

section \<open>Calls of the database\<close>

text \<open>
  The hasher keeps account locations apart from slot locations. Two accounts or two slots may
  share a hash: their reads then share origins, which does not affect the argument.
\<close>

definition kinds_apart :: "(memory_location \<Rightarrow> memory_location_hash) \<Rightarrow> bool" where
  "kinds_apart hash \<longleftrightarrow> (\<forall>a b k. hash (LocBasic a) \<noteq> hash (LocStorage b k))"

definition vm_wf :: "vm \<Rightarrow> bool" where
  "vm_wf vm \<longleftrightarrow>
     beneficiary_location_hash vm = hash_one vm (LocBasic (coinbase (vm_block_env vm))) \<and>
     kinds_apart (hash_one vm)"

lemma vm_wf_new: "kinds_apart hash \<Longrightarrow> vm_wf (vm_new hash st chain spec blk ts)"
  by (simp add: vm_wf_def vm_new_def)

lemma vm_address_hash: "vm_wf vm \<Longrightarrow> vm_get_address_hash vm a = hash_one vm (LocBasic a)"
  by (simp add: vm_get_address_hash_def vm_wf_def)

lemma vm_address_hash_fun: "vm_wf vm \<Longrightarrow> vm_get_address_hash vm = (\<lambda>a. hash_one vm (LocBasic a))"
  by (rule ext) (rule vm_address_hash)

definition location_ok ::
  "vm \<Rightarrow> tx_idx \<Rightarrow> version_values \<Rightarrow> memory_location_hash \<times> read_origin list \<Rightarrow> bool" where
  "location_ok vm i G = (\<lambda>(l, os). origins_ok os \<and>
     ((\<exists>a. l = hash_one vm (LocBasic a)) \<longrightarrow> basic_origins vm i l (\<lambda>v. G v l) os) \<and>
     ((\<exists>a k. l = hash_one vm (LocStorage a k)) \<longrightarrow> slot_origins (\<lambda>v. G v l) os))"

definition db_ok :: "vm \<Rightarrow> tx_idx \<Rightarrow> version_values \<Rightarrow> vm_db \<Rightarrow> bool" where
  "db_ok vm i G db \<longleftrightarrow>
     db_tx_idx db = i \<and> db_from_hash db = hash_one vm (LocBasic (db_from db)) \<and>
     db_to_hash db = map_option (\<lambda>a. hash_one vm (LocBasic a)) (db_to db) \<and>
     distinct (map fst (locations (db_read_set db))) \<and>
     (\<forall>p \<in> set (locations (db_read_set db)). location_ok vm i G p)"

definition reads_valid :: "mv_memory \<Rightarrow> tx_idx \<Rightarrow> read_locations \<Rightarrow> bool" where
  "reads_valid m i locs \<longleftrightarrow> list_all (validate_location i m) locs"

text \<open>Versions keep their values while new versions appear.\<close>

definition values_extend :: "version_values \<Rightarrow> version_values \<Rightarrow> bool" where
  "values_extend G G' \<longleftrightarrow> (\<forall>v l x. G v l = Some x \<longrightarrow> G' v l = Some x)"

lemma values_extend_refl [simp]: "values_extend G G"
  by (simp add: values_extend_def)

lemma values_extend_trans: "values_extend G H \<Longrightarrow> values_extend H K \<Longrightarrow> values_extend G K"
  by (simp add: values_extend_def)

lemma eval_origins_extend:
  "eval_origins c g i os add = Some x \<Longrightarrow> (\<And>v y. g v = Some y \<Longrightarrow> g' v = Some y) \<Longrightarrow>
   eval_origins c g' i os add = Some x"
  by (induction c g i os add rule: eval_origins.induct)
    (auto split: if_splits option.splits memory_value.splits)

lemma location_ok_extend:
  assumes ext: "values_extend G G'" and p: "location_ok vm i G p"
  shows "location_ok vm i G' p"
proof -
  obtain l os where [simp]: "p = (l, os)" by (cases p)
  have g: "G v l = Some y \<Longrightarrow> G' v l = Some y" for v y using ext by (auto simp: values_extend_def)
  have "basic_origins vm i l (\<lambda>v. G v l) os \<Longrightarrow> basic_origins vm i l (\<lambda>v. G' v l) os"
    using eval_origins_extend[of _ "\<lambda>v. G v l" i os 0 _ "\<lambda>v. G' v l"] g by blast
  moreover have "slot_origins (\<lambda>v. G v l) os \<Longrightarrow> slot_origins (\<lambda>v. G' v l) os"
    using g by (auto simp: slot_origins_def)
  ultimately show ?thesis using p by (auto simp: location_ok_def)
qed

lemma db_ok_extend: "values_extend G G' \<Longrightarrow> db_ok vm i G db \<Longrightarrow> db_ok vm i G' db"
  using location_ok_extend by (auto simp: db_ok_def)

lemma reads_valid_walk:
  assumes "reads_valid m i locs" "(l, os) \<in> set locs" "location_ok vm i G (l, os)"
  shows "validate_origins (walk m l i) os"
  using assms validate_location_walk[of os i m l]
  by (auto simp: reads_valid_def list_all_iff location_ok_def)

lemma db_address_hash:
  "vm_wf vm \<Longrightarrow> db_ok vm i G db \<Longrightarrow> db_get_address_hash vm db a = hash_one vm (LocBasic a)"
  by (cases "db_to db") (auto simp: db_get_address_hash_def db_ok_def vm_address_hash)

text \<open>
  A successful call extends the read set and is repeated, with the same result and the same
  new read set, on any memory in which the new read set validates.
\<close>

definition repeatable ::
  "vm \<Rightarrow> tx_idx \<Rightarrow> version_values \<Rightarrow> vm_db \<Rightarrow> vm_db \<Rightarrow> (mv_memory \<Rightarrow> bool) \<Rightarrow> bool" where
  "repeatable vm i G db db' again \<longleftrightarrow>
     db_ok vm i G db' \<and>
     set (locations (db_read_set db)) \<subseteq> set (locations (db_read_set db')) \<and>
     (\<forall>m' G'. values_extend G G' \<longrightarrow> mv_inv m' \<longrightarrow> mv_values G' m' \<longrightarrow>
        reads_valid m' i (locations (db_read_set db')) \<longrightarrow> again m')"

lemma hm_insert_locations:
  assumes "distinct (map fst locs)" and "hm_get locs l = None \<or> hm_get locs l = Some os"
  shows "set (hm_insert l os locs) = insert (l, os) (set locs)"
    and "distinct (map fst (hm_insert l os locs))"
  using assms by (auto simp: set_hm_insert distinct_hm_insert dest: eq_key_imp_eq_value)

text \<open>The origins stored for a location, and adding those of a read.\<close>

definition stored_origins :: "vm_db \<Rightarrow> memory_location_hash \<Rightarrow> read_origin list" where
  "stored_origins db l =
     (case hm_get (locations (db_read_set db)) l of Some os \<Rightarrow> os | None \<Rightarrow> [])"

lemma stored_origins_ok:
  assumes "db_ok vm i G db"
  shows "stored_origins db l = [] \<longleftrightarrow> hm_get (locations (db_read_set db)) l = None"
    and "stored_origins db l \<noteq> [] \<Longrightarrow> location_ok vm i G (l, stored_origins db l)"
proof -
  have *: "location_ok vm i G (l, os)" if "hm_get (locations (db_read_set db)) l = Some os" for os
    using assms map_of_SomeD[OF that] by (auto simp: db_ok_def)
  then show "stored_origins db l = [] \<longleftrightarrow> hm_get (locations (db_read_set db)) l = None"
    by (auto simp: stored_origins_def location_ok_def split: option.splits)
  show "stored_origins db l \<noteq> [] \<Longrightarrow> location_ok vm i G (l, stored_origins db l)"
    using * by (auto simp: stored_origins_def split: option.splits)
qed

lemma repeatableI:
  assumes ok: "db_ok vm i G db"
    and os: "os = (if stored_origins db l = [] then new else stored_origins db l)"
    and new: "location_ok vm i G (l, os)"
    and locs: "locations (db_read_set db') = hm_insert l os (locations (db_read_set db))"
    and fields: "db_tx_idx db' = db_tx_idx db" "db_from db' = db_from db" "db_to db' = db_to db"
      "db_from_hash db' = db_from_hash db" "db_to_hash db' = db_to_hash db"
    and again: "\<And>m' G'. values_extend G G' \<Longrightarrow> mv_inv m' \<Longrightarrow> mv_values G' m' \<Longrightarrow>
      validate_origins (walk m' l i) os \<Longrightarrow> again m'"
  shows "repeatable vm i G db db' again"
proof -
  have "distinct (map fst (locations (db_read_set db)))" using ok by (simp add: db_ok_def)
  moreover have "hm_get (locations (db_read_set db)) l = None \<or>
      hm_get (locations (db_read_set db)) l = Some os"
    using stored_origins_ok(1)[OF ok, of l] os by (auto simp: stored_origins_def split: option.splits)
  ultimately have set: "set (locations (db_read_set db')) = insert (l, os) (set (locations (db_read_set db)))"
    and dist: "distinct (map fst (locations (db_read_set db')))"
    unfolding locs by (rule hm_insert_locations)+
  have "db_ok vm i G db'" using ok new by (auto simp: db_ok_def fields set dist)
  then show ?thesis unfolding repeatable_def set
    using again reads_valid_walk[OF _ _ new] by (auto simp: set)
qed

lemma vm_basic_repeatable:
  assumes wf: "vm_wf vm" and ok: "db_ok vm i G db" and m: "mv_inv m" "mv_values G m"
    and run: "vm_basic rv vm m a pre db = (Inr r, db')"
  shows "repeatable vm i G db db' (\<lambda>m'. vm_basic rv vm m' a pre db = (Inr r, db'))"
proof (cases "pre \<or> (is_maybe_lazy db \<and> Some a = db_to db)")
  case True
  then show ?thesis using run ok by (auto simp: vm_basic_def repeatable_def split: if_splits)
next
  case False
  let ?l = "hash_one vm (LocBasic a)"
  let ?prev = "stored_origins db ?l"
  have idx: "db_tx_idx db = i" and l: "db_get_address_hash vm db a = ?l"
    using ok db_address_hash[OF wf ok] by (simp_all add: db_ok_def)
  have no: "pre = False" "(is_maybe_lazy db \<and> Some a = db_to db) = False" using False by auto
  have call: "vm_basic rv vm m' a pre db =
     (let db1 = (if a \<noteq> db_from db \<and> Some a \<noteq> db_to db then db\<lparr>only_read_from_and_to := False\<rparr> else db);
          locs = locations (db_read_set db)
      in case read_basic rv vm m' i a ?l ?prev of
           Inl e \<Rightarrow> (Inl e, db1\<lparr>db_read_set := (db_read_set db)\<lparr>locations := hm_insert ?l ?prev locs\<rparr>\<rparr>)
         | Inr (r, origins) \<Rightarrow>
             (let rs1 = (db_read_set db)\<lparr>locations := hm_insert ?l (if ?prev = [] then origins else ?prev) locs\<rparr>;
                  rs2 = (case r of None \<Rightarrow> rs1 | Some acc \<Rightarrow> rs1\<lparr>read_accounts :=
                           hm_insert ?l (acc\<lparr>info_code := None\<rparr>) (read_accounts rs1)\<rparr>)
              in (Inr r, db1\<lparr>db_read_set := rs2\<rparr>)))" for m'
    unfolding vm_basic_def no if_False l idx stored_origins_def Let_def by (rule refl)
  obtain new where rd: "read_basic rv vm m i a ?l ?prev = Inr (r, new)"
    using run unfolding call by (auto simp: Let_def split: sum.splits)
  define os where "os = (if ?prev = [] then new else ?prev)"
  have prev: "?prev = [] \<or> basic_origins vm i ?l (\<lambda>v. G v ?l) ?prev"
    using stored_origins_ok(2)[OF ok, of ?l] by (auto simp: location_ok_def)
  have val: "basic_value rv vm i a ?l (\<lambda>v. G v ?l) os = Some r"
    using read_basic_value[OF rd mv_values_walk[OF m] prev] by (simp add: os_def)
  have lok: "location_ok vm i G (?l, os)"
  proof -
    have "?l \<noteq> hash_one vm (LocStorage b k)" for b k
      using wf by (auto simp: vm_wf_def kinds_apart_def)
    then show ?thesis using basic_value_origins[OF val] basic_origins_ok
      by (auto simp: location_ok_def)
  qed
  show ?thesis
  proof (rule repeatableI[OF ok os_def lok])
    show "locations (db_read_set db') = hm_insert ?l os (locations (db_read_set db))"
      "db_tx_idx db' = db_tx_idx db" "db_from db' = db_from db" "db_to db' = db_to db"
      "db_from_hash db' = db_from_hash db" "db_to_hash db' = db_to_hash db"
      using run rd unfolding call by (auto simp: Let_def os_def split: option.splits)
    fix m' G'
    assume ext: "values_extend G G'" and m': "mv_inv m'" "mv_values G' m'"
      and v: "validate_origins (walk m' ?l i) os"
    have "basic_value rv vm i a ?l (\<lambda>v. G' v ?l) os = Some r"
      using val eval_origins_extend[of _ "\<lambda>v. G v ?l" i os 0 _ "\<lambda>v. G' v ?l"] ext
      by (auto simp: basic_value_def values_extend_def split: option.splits)
    then have "read_basic rv vm m' i a ?l ?prev = Inr (r, os)"
      by (rule read_basic_replay[OF _ v mv_values_walk[OF m']]) (auto simp: os_def)
    then show "vm_basic rv vm m' a pre db = (Inr r, db')"
      using run rd unfolding call by (auto simp: os_def Let_def split: if_splits)
  qed
qed

lemma vm_storage_repeatable:
  assumes wf: "vm_wf vm" and ok: "db_ok vm i G db" and m: "mv_inv m" "mv_values G m"
    and run: "vm_storage_read vm m a k db = (Inr x, db')"
  shows "repeatable vm i G db db' (\<lambda>m'. vm_storage_read vm m' a k db = (Inr x, db'))"
proof -
  let ?l = "hash_one vm (LocStorage a k)"
  let ?prev = "stored_origins db ?l"
  have idx: "db_tx_idx db = i" using ok by (simp add: db_ok_def)
  have call: "vm_storage_read vm m' a k db =
     (let db1 = db\<lparr>only_read_from_and_to := False\<rparr>; locs = locations (db_read_set db)
      in case read_slot vm m' i a k ?l (last_opt ?prev) of
           Inl e \<Rightarrow> (Inl e, db1\<lparr>db_read_set := (db_read_set db)
                \<lparr>locations := hm_insert ?l (slot_error_origins e ?prev) locs\<rparr>\<rparr>)
         | Inr (v, origin) \<Rightarrow> (Inr v, db1\<lparr>db_read_set := (db_read_set db)
                \<lparr>locations := hm_insert ?l (if ?prev = [] then [origin] else ?prev) locs\<rparr>\<rparr>))" for m'
    unfolding vm_storage_read_def idx stored_origins_def Let_def by simp
  obtain origin where rd: "read_slot vm m i a k ?l (last_opt ?prev) = Inr (x, origin)"
    using run unfolding call by (auto simp: Let_def split: sum.splits)
  define os where "os = (if ?prev = [] then [origin] else ?prev)"
  have prev: "?prev = [] \<or> slot_origins (\<lambda>v. G v ?l) ?prev"
    using stored_origins_ok(2)[OF ok, of ?l] by (auto simp: location_ok_def)
  have val: "slot_value vm a k (\<lambda>v. G v ?l) os = Some x"
    using read_slot_value[OF rd mv_values_walk[OF m] prev] by (simp add: os_def)
  have lok: "location_ok vm i G (?l, os)"
  proof -
    have "?l \<noteq> hash_one vm (LocBasic b)" for b
      using wf by (metis vm_wf_def kinds_apart_def)
    then show ?thesis using slot_value_origins[OF val] slot_origins_ok
      by (auto simp: location_ok_def)
  qed
  show ?thesis
  proof (rule repeatableI[OF ok os_def lok])
    show "locations (db_read_set db') = hm_insert ?l os (locations (db_read_set db))"
      "db_tx_idx db' = db_tx_idx db" "db_from db' = db_from db" "db_to db' = db_to db"
      "db_from_hash db' = db_from_hash db" "db_to_hash db' = db_to_hash db"
      using run rd unfolding call by (auto simp: Let_def os_def)
    fix m' G'
    assume ext: "values_extend G G'" and m': "mv_inv m'" "mv_values G' m'"
      and v: "validate_origins (walk m' ?l i) os"
    have "slot_value vm a k (\<lambda>v. G' v ?l) os = Some x"
      using val slot_value_origins[OF val] ext
      by (auto simp: slot_origins_def values_extend_def split: option.splits memory_value.splits)
    then have "\<exists>o1. os = [o1] \<and> read_slot vm m' i a k ?l (last_opt ?prev) = Inr (x, o1)"
      by (rule read_slot_replay[OF _ v mv_values_walk[OF m']]) (auto simp: os_def)
    then show "vm_storage_read vm m' a k db = (Inr x, db')"
      using run rd unfolding call by (auto simp: os_def Let_def split: if_splits)
  qed
qed

section \<open>Replaying an execution\<close>

text \<open>
  What the code relies on from \<open>revm\<close>: a failed call of the database ends the execution with
  that error, and no other execution ends with an error of the database.
\<close>

primrec propagates :: "('e, 'e evm_error + 'r) evm \<Rightarrow> bool" where
  "propagates (Evm_Done r) \<longleftrightarrow> (\<forall>e. r \<noteq> Inl (EVM_Database e))"
| "propagates (Evm_Basic a pre k) \<longleftrightarrow>
     (\<forall>e. k (Inl e) = Evm_Done (Inl (EVM_Database e))) \<and> (\<forall>x. propagates (k (Inr x)))"
| "propagates (Evm_Code_By_Hash h k) \<longleftrightarrow>
     (\<forall>e. k (Inl e) = Evm_Done (Inl (EVM_Database e))) \<and> (\<forall>x. propagates (k (Inr x)))"
| "propagates (Evm_Has_Storage a k) \<longleftrightarrow>
     (\<forall>e. k (Inl e) = Evm_Done (Inl (EVM_Database e))) \<and> (\<forall>x. propagates (k (Inr x)))"
| "propagates (Evm_Storage a i k) \<longleftrightarrow>
     (\<forall>e. k (Inl e) = Evm_Done (Inl (EVM_Database e))) \<and> (\<forall>x. propagates (k (Inr x)))"
| "propagates (Evm_Block_Hash n k) \<longleftrightarrow>
     (\<forall>e. k (Inl e) = Evm_Done (Inl (EVM_Database e))) \<and> (\<forall>x. propagates (k (Inr x)))"

lemma run_evm_step: "run_evm d t s = (case evm_step d t s of (t', s') \<Rightarrow> run_evm d t' s')"
  by (cases t) (auto split: prod.splits)

text \<open>A blocked read names a transaction below the reader.\<close>

definition blocks_below :: "tx_idx \<Rightarrow> read_error \<Rightarrow> bool" where
  "blocks_below i e \<longleftrightarrow> (\<forall>b. e = BlockingIndex b \<longrightarrow> b < i)"

lemma eval_lazy_blocks:
  "eval_lazy c i prev xs cur new add = Inl e \<Longrightarrow> \<forall>p \<in> set xs. fst p < i \<Longrightarrow> cur \<le> i \<Longrightarrow> blocks_below i e"
proof (induction c i prev xs cur new add rule: eval_lazy.induct)
  case (3 c i prev closest n val rest cur new add)
  then show ?case
    by (cases val) (auto simp: blocks_below_def Let_def split: if_splits)
qed (auto simp: blocks_below_def split: if_splits)

lemma walk_below: "p \<in> set (walk m l i) \<Longrightarrow> fst p < i"
  by (auto simp: walk_def btree_range_back_def split: option.splits)

lemma read_basic_blocks: "read_basic rv vm m i a l prev = Inl e \<Longrightarrow> blocks_below i e"
  using eval_lazy_blocks[of "l = beneficiary_location_hash vm" i prev "walk m l i" i "[]" 0 e]
    walk_below[of _ m l i]
  by (auto simp: read_basic_def read_mv_basic_walk read_storage_basic_def blocks_below_def
      split: sum.splits option.splits if_splits)

lemma read_slot_blocks: "read_slot vm m i a k l prev = Inl e \<Longrightarrow> blocks_below i e"
  using walk_below[of "hd (walk m l i)" m l i] unfolding read_slot_walk
  by (auto simp: slot_fallback_def blocks_below_def Let_def
      split: list.splits prod.splits memory_entry.splits memory_value.splits sum.splits if_splits)

lemma vm_basic_blocks:
  "vm_basic rv vm m a pre db = (Inl e, db') \<Longrightarrow> blocks_below (db_tx_idx db) e"
  using read_basic_blocks by (fastforce simp: vm_basic_def Let_def split: sum.splits if_splits)

lemma vm_storage_blocks:
  "vm_storage_read vm m a k db = (Inl e, db') \<Longrightarrow> blocks_below (db_tx_idx db) e"
  using read_slot_blocks by (fastforce simp: vm_storage_read_def Let_def split: sum.splits)

lemma storage_calls_block:
  "vm_code_by_hash rv vm h db = (Inl e, db') \<Longrightarrow> blocks_below i e"
  "vm_has_storage vm a db = (Inl e, db') \<Longrightarrow> blocks_below i e"
  "vm_block_hash vm n db = (Inl e, db') \<Longrightarrow> blocks_below i e"
  by (auto simp: vm_code_by_hash_def vm_has_storage_def vm_block_hash_def blocks_below_def
      map_sum_def split: sum.splits)

lemma repeatable_unread: "db_ok vm i G db \<Longrightarrow> (\<And>m'. again m') \<Longrightarrow> repeatable vm i G db db again"
  by (simp add: repeatable_def)

lemma repeatable_again:
  "repeatable vm i G db db' again \<Longrightarrow> (\<And>m'. again m' \<Longrightarrow> again' m') \<Longrightarrow> repeatable vm i G db db' again'"
  by (auto simp: repeatable_def)

text \<open>One call of an execution: it fails and ends the execution, or it is repeatable.\<close>

lemma evm_step_repeatable:
  assumes wf: "vm_wf vm" and ok: "db_ok vm i G db" and m: "mv_inv m" "mv_values G m"
    and pr: "propagates t" and step: "evm_step (vm_database rv vm m) t db = (t', db')"
  shows "(\<exists>e. t' = Evm_Done (Inl (EVM_Database e)) \<and> blocks_below i e) \<or>
    propagates t' \<and>
    repeatable vm i G db db' (\<lambda>m'. evm_step (vm_database rv vm m') t db = (t', db'))"
proof -
  have idx: "db_tx_idx db = i" using ok by (simp add: db_ok_def)
  show ?thesis
  proof (cases t)
    case (Evm_Done r)
    then show ?thesis using step pr ok by (auto simp: repeatable_unread)
  next
    case (Evm_Basic a pre k)
    obtain x db1 where x: "vm_basic rv vm m a pre db = (x, db1)" by fastforce
    then have st: "t' = k x" "db' = db1" using step Evm_Basic by (auto simp: vm_database_def)
    show ?thesis
    proof (cases x)
      case (Inl e)
      then show ?thesis using vm_basic_blocks x pr idx st Evm_Basic by auto
    next
      case (Inr b)
      have "repeatable vm i G db db' (\<lambda>m'. evm_step (vm_database rv vm m') t db = (t', db'))"
        unfolding st using vm_basic_repeatable[OF wf ok m x[unfolded Inr]]
        by (rule repeatable_again) (simp add: vm_database_def Evm_Basic Inr)
      then show ?thesis using pr by (simp add: Evm_Basic st Inr)
    qed
  next
    case (Evm_Code_By_Hash h k)
    obtain x where x: "vm_code_by_hash rv vm h db = (x, db)" by (auto simp: vm_code_by_hash_def)
    then have "t' = k x" "db' = db" using step Evm_Code_By_Hash by (auto simp: vm_database_def)
    then show ?thesis using x pr ok storage_calls_block(1) Evm_Code_By_Hash
      by (cases x) (auto simp: vm_database_def repeatable_unread)
  next
    case (Evm_Has_Storage a k)
    obtain x where x: "vm_has_storage vm a db = (x, db)" by (auto simp: vm_has_storage_def)
    then have "t' = k x" "db' = db" using step Evm_Has_Storage by (auto simp: vm_database_def)
    then show ?thesis using x pr ok storage_calls_block(2) Evm_Has_Storage
      by (cases x) (auto simp: vm_database_def repeatable_unread)
  next
    case (Evm_Storage a j k)
    obtain x db1 where x: "vm_storage_read vm m a j db = (x, db1)" by fastforce
    then have st: "t' = k x" "db' = db1" using step Evm_Storage by (auto simp: vm_database_def)
    show ?thesis
    proof (cases x)
      case (Inl e)
      then show ?thesis using vm_storage_blocks x pr idx st Evm_Storage by auto
    next
      case (Inr b)
      have "repeatable vm i G db db' (\<lambda>m'. evm_step (vm_database rv vm m') t db = (t', db'))"
        unfolding st using vm_storage_repeatable[OF wf ok m x[unfolded Inr]]
        by (rule repeatable_again) (simp add: vm_database_def Evm_Storage Inr)
      then show ?thesis using pr by (simp add: Evm_Storage st Inr)
    qed
  next
    case (Evm_Block_Hash n k)
    obtain x where x: "vm_block_hash vm n db = (x, db)" by (auto simp: vm_block_hash_def)
    then have "t' = k x" "db' = db" using step Evm_Block_Hash by (auto simp: vm_database_def)
    then show ?thesis using x pr ok storage_calls_block(3) Evm_Block_Hash
      by (cases x) (auto simp: vm_database_def repeatable_unread)
  qed
qed

text \<open>
  An execution that started as \<open>t0\<close> with the database \<open>db0\<close> has reached \<open>t\<close> and \<open>db\<close>: running it
  from the start, without interruption, on a memory in which the present read set validates
  gives what running the rest gives.
\<close>

definition replays ::
  "revm \<Rightarrow> vm \<Rightarrow> tx_idx \<Rightarrow> version_values \<Rightarrow> (read_error, 'r) evm \<Rightarrow> vm_db \<Rightarrow> (read_error, 'r) evm \<Rightarrow> vm_db
   \<Rightarrow> bool" where
  "replays rv vm i G t0 db0 t db \<longleftrightarrow>
     (\<forall>m' G'. values_extend G G' \<longrightarrow> mv_inv m' \<longrightarrow> mv_values G' m' \<longrightarrow>
        reads_valid m' i (locations (db_read_set db)) \<longrightarrow>
        run_evm (vm_database rv vm m') t0 db0 = run_evm (vm_database rv vm m') t db)"

lemma replays_refl [simp]: "replays rv vm i G t db t db"
  by (simp add: replays_def)

lemma replays_done:
  "replays rv vm i G t0 db0 (Evm_Done r) db \<Longrightarrow> values_extend G G' \<Longrightarrow> mv_inv m' \<Longrightarrow> mv_values G' m' \<Longrightarrow>
   reads_valid m' i (locations (db_read_set db)) \<Longrightarrow> run_evm (vm_database rv vm m') t0 db0 = (r, db)"
  by (simp add: replays_def)

lemma replays_extend: "values_extend G G' \<Longrightarrow> replays rv vm i G t0 db0 t db \<Longrightarrow> replays rv vm i G' t0 db0 t db"
  unfolding replays_def using values_extend_trans by blast

lemma reads_valid_mono: "reads_valid m i locs' \<Longrightarrow> set locs \<subseteq> set locs' \<Longrightarrow> reads_valid m i locs"
  by (auto simp: reads_valid_def list_all_iff)

lemma replays_step:
  assumes "replays rv vm i G t0 db0 t db"
    and "repeatable vm i G db db' (\<lambda>m'. evm_step (vm_database rv vm m') t db = (t', db'))"
  shows "replays rv vm i G t0 db0 t' db'"
  unfolding replays_def
proof (intro allI impI)
  fix m' G'
  assume a: "values_extend G G'" "mv_inv m'" "mv_values G' m'"
    "reads_valid m' i (locations (db_read_set db'))"
  then have "reads_valid m' i (locations (db_read_set db))"
    using assms(2) reads_valid_mono by (auto simp: repeatable_def)
  with a assms(1) have "run_evm (vm_database rv vm m') t0 db0 = run_evm (vm_database rv vm m') t db"
    unfolding replays_def by blast
  also have "\<dots> = run_evm (vm_database rv vm m') t' db'"
    using a assms(2) by (simp add: repeatable_def run_evm_step[of _ t])
  finally show "run_evm (vm_database rv vm m') t0 db0 = run_evm (vm_database rv vm m') t' db'" .
qed

text \<open>A run without interruption is repeatable as a whole.\<close>

abbreviation db_reads :: "vm_db \<Rightarrow> (memory_location_hash \<times> read_origin list) set" where
  "db_reads db \<equiv> set (locations (db_read_set db))"

definition run_outcome ::
  "revm \<Rightarrow> vm \<Rightarrow> tx_idx \<Rightarrow> version_values \<Rightarrow> (read_error, read_error evm_error + 'r) evm \<Rightarrow> vm_db
   \<Rightarrow> read_error evm_error + 'r \<Rightarrow> vm_db \<Rightarrow> bool" where
  "run_outcome rv vm i G t db r db' \<longleftrightarrow>
     (\<exists>e. r = Inl (EVM_Database e) \<and> blocks_below i e) \<or>
     (\<forall>e. r \<noteq> Inl (EVM_Database e)) \<and> db_ok vm i G db' \<and> db_reads db \<subseteq> db_reads db' \<and>
     replays rv vm i G t db (Evm_Done r) db'"

lemma run_outcome_step:
  assumes rep: "repeatable vm i G db db1 (\<lambda>m'. evm_step (vm_database rv vm m') t db = (t', db1))"
    and out: "run_outcome rv vm i G t' db1 r db'"
  shows "run_outcome rv vm i G t db r db'"
proof (cases "\<exists>e. r = Inl (EVM_Database e) \<and> blocks_below i e")
  case False
  with out have o: "\<forall>e. r \<noteq> Inl (EVM_Database e)" "db_ok vm i G db'" "db_reads db1 \<subseteq> db_reads db'"
    "replays rv vm i G t' db1 (Evm_Done r) db'" by (auto simp: run_outcome_def)
  have "replays rv vm i G t db t' db1" by (rule replays_step[OF replays_refl rep])
  with o(3,4) have "replays rv vm i G t db (Evm_Done r) db'"
    unfolding replays_def using reads_valid_mono by (metis (no_types, lifting))
  then show ?thesis using o rep by (auto simp: run_outcome_def repeatable_def)
qed (simp add: run_outcome_def)

lemma evm_step_branch:
  "\<exists>x db1. evm_step d (Evm_Basic a pre k) db = (k x, db1)"
  "\<exists>x db1. evm_step d (Evm_Code_By_Hash h k2) db = (k2 x, db1)"
  "\<exists>x db1. evm_step d (Evm_Has_Storage a k3) db = (k3 x, db1)"
  "\<exists>x db1. evm_step d (Evm_Storage a j k4) db = (k4 x, db1)"
  "\<exists>x db1. evm_step d (Evm_Block_Hash n k5) db = (k5 x, db1)"
  by (auto simp: split_beta)

lemma run_evm_outcome:
  assumes wf: "vm_wf vm" and m: "mv_inv m" "mv_values G m"
  shows "db_ok vm i G db \<Longrightarrow> propagates t \<Longrightarrow> run_evm (vm_database rv vm m) t db = (r, db') \<Longrightarrow>
    run_outcome rv vm i G t db r db'"
proof (induction t arbitrary: db)
  have call: "run_outcome rv vm i G t db r db'"
    if "db_ok vm i G db" "propagates t" "run_evm (vm_database rv vm m) t db = (r, db')"
      and br: "\<exists>x db1. evm_step (vm_database rv vm m) t db = (k x, db1)"
      and IH: "\<And>x db. db_ok vm i G db \<Longrightarrow> propagates (k x) \<Longrightarrow>
        run_evm (vm_database rv vm m) (k x) db = (r, db') \<Longrightarrow> run_outcome rv vm i G (k x) db r db'"
    for t db and k :: "'c \<Rightarrow> (read_error, read_error evm_error + 'a) evm"
  proof -
    obtain x db1 where st: "evm_step (vm_database rv vm m) t db = (k x, db1)" using br by blast
    then have run: "run_evm (vm_database rv vm m) (k x) db1 = (r, db')"
      using that(3) by (simp add: run_evm_step[of _ t])
    show ?thesis
      using evm_step_repeatable[OF wf that(1) m that(2) st]
    proof (elim disjE conjE exE)
      fix e assume "k x = Evm_Done (Inl (EVM_Database e))" "blocks_below i e"
      then show ?thesis using run by (auto simp: run_outcome_def)
    next
      assume pr: "propagates (k x)"
        and rep: "repeatable vm i G db db1 (\<lambda>m'. evm_step (vm_database rv vm m') t db = (k x, db1))"
      then have "run_outcome rv vm i G (k x) db1 r db'"
        using IH run by (simp add: repeatable_def)
      then show ?thesis by (rule run_outcome_step[OF rep])
    qed
  qed
  { case (Evm_Done x) then show ?case by (auto simp: run_outcome_def) }
  { case (Evm_Basic a pre k)
    show ?case by (rule call[OF Evm_Basic.prems evm_step_branch(1)]) (use Evm_Basic.IH in blast) }
  { case (Evm_Code_By_Hash h k)
    show ?case by (rule call[OF Evm_Code_By_Hash.prems evm_step_branch(2)])
        (use Evm_Code_By_Hash.IH in blast) }
  { case (Evm_Has_Storage a k)
    show ?case by (rule call[OF Evm_Has_Storage.prems evm_step_branch(3)])
        (use Evm_Has_Storage.IH in blast) }
  { case (Evm_Storage a j k)
    show ?case by (rule call[OF Evm_Storage.prems evm_step_branch(4)]) (use Evm_Storage.IH in blast) }
  { case (Evm_Block_Hash n k)
    show ?case by (rule call[OF Evm_Block_Hash.prems evm_step_branch(5)])
        (use Evm_Block_Hash.IH in blast) }
qed

section \<open>Executing a transaction\<close>

abbreviation tx_run :: "read_error transact \<Rightarrow> vm \<Rightarrow> tx_idx \<Rightarrow> vm_run" where
  "tx_run transact vm i \<equiv>
     transact (vm_chain vm) (vm_spec_id vm) (vm_block_env vm) (txs vm ! i) False"

lemma vm_start_ok:
  assumes "vm_wf vm" and "vm_start vm i = Inr db"
  shows "i < length (txs vm)" and "db_ok vm i G db" and "db_reads db = {}"
  using assms by (auto simp: vm_start_def vec_get_eq_Inr_iff vm_db_new_def read_set_default_def
      db_ok_def vm_address_hash_fun split: sum.splits)

lemma vm_finish_Ok:
  assumes "vm_finish rv vm tx db r = Inr (VmOk res reads ws nxt)"
  obtains rs where "r = Inr rs" and "reads = locations (db_read_set db)"
    and "apply_rewards rv vm tx (ucast (gas_used rs))
           (state_writes rv vm (read_accounts (db_read_set db)) (is_maybe_lazy db) (db_to db)
              (tx_value tx) (rs_state rs)) = Inr ws"
    and "from_revm rv (vm_spec_id vm) rs = Inr res"
    and "nxt = next_validation_idx vm (db_tx_idx db) db ws"
  using assms
  by (cases "(rv, vm, tx, db, r)" rule: vm_finish.cases)
    (auto split: sum.splits evm_error.splits invalid_transaction.splits if_splits)

lemma vm_finish_ReadError:
  assumes "vm_finish rv vm tx db r = Inr (VmReadError b)"
  shows "r = Inl (EVM_Database (BlockingIndex b)) \<or>
    0 < db_tx_idx db \<and> b = db_tx_idx db - 1 \<and> (\<exists>f c. r = Inl (EVM_Transaction (LackOfFundForMaxFee f c)))"
  using assms
  by (cases "(rv, vm, tx, db, r)" rule: vm_finish.cases)
    (auto split: sum.splits evm_error.splits invalid_transaction.splits if_splits)

lemma next_validation_bounds:
  "next_validation_idx vm i db ws = Some j \<Longrightarrow> 0 < i \<and> i \<le> j \<and> j \<le> i + 1"
  by (auto simp: next_validation_idx_def split: if_splits)

lemma add_reward_writes: "add_reward l amount ws = Inr ws' \<Longrightarrow> l \<in> fst ` set ws'"
  by (induction l amount ws arbitrary: ws' rule: add_reward.induct)
    (fastforce split: memory_value.splits if_splits sum.splits simp: map_sum_def)+

text \<open>
  The memory agrees with the value of every version, on both memories: the value of a
  version, read from either.
\<close>

definition same_versions :: "mv_memory \<Rightarrow> mv_memory \<Rightarrow> bool" where
  "same_versions m m' \<longleftrightarrow>
     (\<forall>l i n v v'. mv_get m l i = Some (Data n v) \<longrightarrow> mv_get m' l i = Some (Data n v') \<longrightarrow> v = v')"

definition joint_values :: "mv_memory \<Rightarrow> mv_memory \<Rightarrow> version_values" where
  "joint_values m m' = (\<lambda>v l.
     case mv_get m l (ver_idx v) of
       Some (Data n x) \<Rightarrow>
         if n = ver_incarnation v then Some x
         else (case mv_get m' l (ver_idx v) of
                 Some (Data n' y) \<Rightarrow> if n' = ver_incarnation v then Some y else None | _ \<Rightarrow> None)
     | _ \<Rightarrow> (case mv_get m' l (ver_idx v) of
                 Some (Data n' y) \<Rightarrow> if n' = ver_incarnation v then Some y else None | _ \<Rightarrow> None))"

lemma joint_values:
  "mv_values (joint_values m m') m"
  "same_versions m m' \<Longrightarrow> mv_values (joint_values m m') m'"
  by (auto simp: mv_values_def joint_values_def same_versions_def split: option.splits memory_entry.splits)

text \<open>Running a transaction again on a memory in which its reads validate changes nothing.\<close>

lemma vm_execute_again:
  assumes wf: "vm_wf vm" and pr: "propagates (tx_run transact vm i)"
    and m: "mv_inv m" "mv_values G m" and m': "mv_inv m'" "mv_values G m'"
    and run: "vm_execute rv transact vm m i = Inr (VmOk res reads ws nxt)"
    and valid: "reads_valid m' i reads"
  shows "vm_execute rv transact vm m' i = Inr (VmOk res reads ws nxt)"
proof -
  obtain db where st: "vm_start vm i = Inr db" using run by (auto simp: vm_execute_def split: sum.splits)
  obtain r db' where r: "run_evm (vm_database rv vm m) (tx_run transact vm i) db = (r, db')" by fastforce
  have fin: "vm_finish rv vm (txs vm ! i) db' r = Inr (VmOk res reads ws nxt)"
    using run st r by (simp add: vm_execute_def execute_tx_def)
  then have reads: "reads = locations (db_read_set db')" and "\<exists>rs. r = Inr rs"
    by (auto elim: vm_finish_Ok)
  then have "replays rv vm i G (tx_run transact vm i) db (Evm_Done r) db'"
    using run_evm_outcome[OF wf m vm_start_ok(2)[OF wf st] pr r] by (auto simp: run_outcome_def)
  then have "run_evm (vm_database rv vm m') (tx_run transact vm i) db = (r, db')"
    using m' valid by (intro replays_done[OF _ values_extend_refl]) (simp_all add: reads)
  then show ?thesis using fin st by (simp add: vm_execute_def execute_tx_def)
qed

end
