(* ===== verification/Scheduler.thy ===== *)
theory Scheduler
  imports Lib_Types
begin

text \<open>
  The collaborative scheduler of \<open>src/src/scheduler.rs\<close>. The record holds the fields of the
  struct without their atomics, mutexes and padding; each method of the struct is one
  definition, executed as one step of the interleaved system.

  A method that can reach \<open>unreachable!\<close> or index a vector returns a value of \<open>panics\<close>.
  \<open>next_task\<close> is a spin loop: \<open>next_task_iter\<close> is one round of it and \<open>next_task\<close> iterates
  the round until it yields, with \<open>None\<close> standing for a loop that never ends.
\<close>

section \<open>State\<close>

record scheduler =
  execution_idx :: nat
  validation_idx :: nat
  transactions_status :: transactions_status
  block_size :: nat
  min_validation_idx :: nat
  num_validated :: nat
  transactions_dependents :: transactions_dependents
  transactions_dependencies_num :: transactions_dependencies_num

definition scheduler_new ::
  "nat \<Rightarrow> transactions_status \<Rightarrow> transactions_dependents \<Rightarrow> transactions_dependencies_num
   \<Rightarrow> scheduler" where
  "scheduler_new n st deps nums =
     \<lparr>execution_idx = 0, validation_idx = n, transactions_status = st, block_size = n,
      min_validation_idx = n, num_validated = 0, transactions_dependents = deps,
      transactions_dependencies_num = nums\<rparr>"

definition set_status :: "tx_idx \<Rightarrow> incarnation_status \<Rightarrow> scheduler \<Rightarrow> scheduler" where
  "set_status i st s =
     s\<lparr>transactions_status := (transactions_status s)[i := (transactions_status s ! i)\<lparr>status := st\<rparr>]\<rparr>"

abbreviation is_done :: "incarnation_status \<Rightarrow> bool" where
  "is_done st \<equiv> st = Executed \<or> st = Validated"

section \<open>Picking a task\<close>

function try_execute :: "tx_idx \<Rightarrow> scheduler \<Rightarrow> (tx_version option \<times> scheduler) panics" where
  "try_execute tx s =
     (if tx < block_size s then
        (case vec_get (transactions_status s) tx of
           Inl p \<Rightarrow> Inl p
         | Inr t \<Rightarrow>
             if status t = ReadyToExecute then
               Inr (Some \<lparr>ver_idx = tx, ver_incarnation = incarnation t\<rparr>, set_status tx Executing s)
             else try_execute (execution_idx s) (s\<lparr>execution_idx := execution_idx s + 1\<rparr>))
      else Inr (None, s))"
  by pat_completeness auto
termination
  by (relation "measure (\<lambda>(tx, s). (block_size s - execution_idx s)
        + (if tx < block_size s then 1 else 0))") auto

declare try_execute.simps [simp del]

definition sched_try_validate :: "scheduler \<Rightarrow> (tx_version option \<times> scheduler) panics" where
  "sched_try_validate s =
     (let tx = validation_idx s; s' = s\<lparr>validation_idx := validation_idx s + 1\<rparr> in
      if tx < block_size s then
        (case vec_get (transactions_status s) tx of
           Inl p \<Rightarrow> Inl p
         | Inr t \<Rightarrow>
             if is_done (status t)
             then Inr (Some \<lparr>ver_idx = tx, ver_incarnation = incarnation t\<rparr>, s')
             else Inr (None, s'))
      else Inr (None, s'))"

datatype round_result = Break | Continue | Return task

definition next_task_iter :: "scheduler \<Rightarrow> (round_result \<times> scheduler) panics" where
  "next_task_iter s =
     (if execution_idx s \<ge> block_size s \<and> validation_idx s \<ge> block_size s then
        (if num_validated s \<ge> block_size s - min_validation_idx s then Inr (Break, s)
         else Inr (Continue, s))
      else if validation_idx s < execution_idx s then
        (case sched_try_validate s of
           Inl p \<Rightarrow> Inl p
         | Inr (Some v, s') \<Rightarrow> Inr (Return (Validation v), s')
         | Inr (None, s') \<Rightarrow> Inr (Continue, s'))
      else
        (case try_execute (execution_idx s) (s\<lparr>execution_idx := execution_idx s + 1\<rparr>) of
           Inl p \<Rightarrow> Inl p
         | Inr (Some v, s') \<Rightarrow> Inr (Return (Execution v), s')
         | Inr (None, s') \<Rightarrow> Inr (Continue, s')))"

partial_function (option) next_task :: "scheduler \<Rightarrow> (task option \<times> scheduler) panics option" where
  "next_task s =
     (case next_task_iter s of
        Inl p \<Rightarrow> Some (Inl p)
      | Inr (Break, s') \<Rightarrow> Some (Inr (None, s'))
      | Inr (Return t, s') \<Rightarrow> Some (Inr (Some t, s'))
      | Inr (Continue, s') \<Rightarrow> next_task s')"

section \<open>Dependencies\<close>

definition add_dependency :: "tx_idx \<Rightarrow> tx_idx \<Rightarrow> scheduler \<Rightarrow> (bool \<times> scheduler) panics" where
  "add_dependency tx blocking s =
     (case vec_get (transactions_status s) blocking of
        Inl p \<Rightarrow> Inl p
      | Inr bt \<Rightarrow>
          if is_done (status bt) then Inr (False, s)
          else
            (case vec_get (transactions_status s) tx of
               Inl p \<Rightarrow> Inl p
             | Inr t \<Rightarrow>
                 if status t = Executing then
                   (let s1 = set_status tx Aborting s in
                    case vec_get (transactions_dependents s1) blocking of
                      Inl p \<Rightarrow> Inl p
                    | Inr ds \<Rightarrow>
                        (let s2 = s1\<lparr>transactions_dependents :=
                                (transactions_dependents s1)[blocking := ds @ [tx]]\<rparr>
                         in Inr (True,
                              case hm_get (transactions_dependencies_num s2) tx of
                                None \<Rightarrow> s2
                              | Some n \<Rightarrow> s2\<lparr>transactions_dependencies_num :=
                                  hm_insert tx (n + 1) (transactions_dependencies_num s2)\<rparr>)))
                 else Inl (Panicked ''Trying to abort & add dependency in non-executing state!'')))"

definition set_ready_status :: "tx_idx \<Rightarrow> scheduler \<Rightarrow> scheduler panics" where
  "set_ready_status tx s =
     (case vec_get (transactions_status s) tx of
        Inl p \<Rightarrow> Inl p
      | Inr t \<Rightarrow>
          if status t = Aborting then
            Inr (s\<lparr>transactions_status := (transactions_status s)
                 [tx := \<lparr>incarnation = incarnation t + 1, status = ReadyToExecute\<rparr>]\<rparr>)
          else Inl (Panicked ''Trying to resume in non-aborting state!''))"

section \<open>Finishing an execution\<close>

text \<open>
  One round of the loop over the dependents: decrement the dependency counter and skip while
  other dependencies are pending, else resume; the result says whether it was resumed.
\<close>

definition resume_dependent :: "tx_idx \<Rightarrow> scheduler \<Rightarrow> (bool \<times> scheduler) panics" where
  "resume_dependent tx s =
     (case hm_get (transactions_dependencies_num s) tx of
        None \<Rightarrow> map_sum id (Pair True) (set_ready_status tx s)
      | Some n \<Rightarrow>
          (let s1 = s\<lparr>transactions_dependencies_num :=
               hm_insert tx (wrapping_dec n) (transactions_dependencies_num s)\<rparr>
           in if n > 1 then Inr (False, s1) else map_sum id (Pair True) (set_ready_status tx s1)))"

text \<open>The loop, with the least resumed index so far.\<close>

fun resume_dependents ::
  "tx_idx list \<Rightarrow> tx_idx option \<Rightarrow> scheduler \<Rightarrow> (tx_idx option \<times> scheduler) panics" where
  "resume_dependents [] m s = Inr (m, s)"
| "resume_dependents (tx # txs) m s =
     (case resume_dependent tx s of
        Inl p \<Rightarrow> Inl p
      | Inr (resumed, s1) \<Rightarrow>
          resume_dependents txs
            (if resumed then Some (case m of None \<Rightarrow> tx | Some m' \<Rightarrow> min tx m') else m) s1)"

text \<open>Where to validate from next, at the end of \<open>finish_execution\<close>.\<close>

definition schedule_validation ::
  "tx_version \<Rightarrow> bool \<Rightarrow> tx_idx option \<Rightarrow> scheduler \<Rightarrow> task option \<times> scheduler" where
  "schedule_validation v wrote_new nxt s =
     (let s1 = (case nxt of
                  Some i \<Rightarrow> s\<lparr>min_validation_idx := min (min_validation_idx s) i\<rparr>
                | None \<Rightarrow> s);
          m = min_validation_idx s1
      in if m < block_size s1 then
           (if ver_idx v < m then
              (None, if wrote_new then s1\<lparr>validation_idx := min (validation_idx s1) m\<rparr> else s1)
            else if ver_idx v < validation_idx s1 then
              (Some (Validation v),
               if wrote_new then s1\<lparr>validation_idx := min (validation_idx s1) (ver_idx v + 1)\<rparr>
               else s1)
            else (None, s1))
         else (None, s1))"

definition finish_execution ::
  "tx_version \<Rightarrow> bool \<Rightarrow> tx_idx option \<Rightarrow> scheduler \<Rightarrow> (task option \<times> scheduler) panics" where
  "finish_execution v wrote_new nxt s =
     (case vec_get (transactions_status s) (ver_idx v) of
        Inl p \<Rightarrow> Inl p
      | Inr t \<Rightarrow>
          if status t = Executing then
            (let s1 = set_status (ver_idx v) Executed s in
             case vec_get (transactions_dependents s1) (ver_idx v) of
               Inl p \<Rightarrow> Inl p
             | Inr ds \<Rightarrow>
                 (case resume_dependents ds None s1 of
                    Inl p \<Rightarrow> Inl p
                  | Inr (m, s2) \<Rightarrow>
                      (let s3 = s2\<lparr>transactions_dependents :=
                              (transactions_dependents s2)[ver_idx v := []]\<rparr>;
                           s4 = (case m of
                                   None \<Rightarrow> s3
                                 | Some i \<Rightarrow> s3\<lparr>execution_idx := min (execution_idx s3) i\<rparr>)
                       in Inr (schedule_validation v wrote_new nxt s4))))
          else Inl (Panicked ''Trying to finish execution in a non-executing state''))"

section \<open>Validation\<close>

definition try_validation_abort :: "tx_version \<Rightarrow> scheduler \<Rightarrow> (bool \<times> scheduler) panics" where
  "try_validation_abort v s =
     (case vec_get (transactions_status s) (ver_idx v) of
        Inl p \<Rightarrow> Inl p
      | Inr t \<Rightarrow>
          (let s1 = (if status t = Validated
                     then s\<lparr>num_validated := wrapping_dec (num_validated s)\<rparr> else s);
               aborting = is_done (status t)
           in Inr (aborting, if aborting then set_status (ver_idx v) Aborting s1 else s1)))"

definition finish_validation ::
  "tx_version \<Rightarrow> bool \<Rightarrow> scheduler \<Rightarrow> (task option \<times> scheduler) panics" where
  "finish_validation v aborted s =
     (if aborted then
        (case set_ready_status (ver_idx v) s of
           Inl p \<Rightarrow> Inl p
         | Inr s1 \<Rightarrow>
             (let s2 = s1\<lparr>validation_idx := min (validation_idx s1) (ver_idx v + 1)\<rparr> in
              if execution_idx s2 > ver_idx v then
                (case try_execute (ver_idx v) s2 of
                   Inl p \<Rightarrow> Inl p
                 | Inr (r, s3) \<Rightarrow> Inr (map_option Execution r, s3))
              else Inr (None, s2)))
      else
        (case vec_get (transactions_status s) (ver_idx v) of
           Inl p \<Rightarrow> Inl p
         | Inr t \<Rightarrow>
             if status t = Executed then
               Inr (None, (set_status (ver_idx v) Validated s)
                            \<lparr>num_validated := num_validated s + 1\<rparr>)
             else Inr (None, s)))"

end
