(* ===== verification/Scheduler_Inv.thy ===== *)
theory Scheduler_Inv
  imports Scheduler
begin

text \<open>
  The invariant of the scheduler and its preservation by every method.

  \<open>sched_inv A s\<close> relates the status vector, the dependents lists, the dependency counters and
  the two task counters. \<open>A\<close> is the set of transactions a validation has aborted and not yet
  rescheduled (between \<open>try_validation_abort\<close> and \<open>finish_validation\<close>). Every other aborting
  transaction waits in the dependents list of an unfinished lower transaction.
\<close>

section \<open>The invariant\<close>

abbreviation stat :: "scheduler \<Rightarrow> tx_idx \<Rightarrow> incarnation_status" where
  "stat s t \<equiv> status (transactions_status s ! t)"

abbreviation inc :: "scheduler \<Rightarrow> tx_idx \<Rightarrow> tx_incarnation" where
  "inc s t \<equiv> incarnation (transactions_status s ! t)"

text \<open>The number of places where \<open>t\<close> waits to be resumed.\<close>

definition pending :: "scheduler \<Rightarrow> tx_idx \<Rightarrow> nat" where
  "pending s t = count_list (concat (transactions_dependents s)) t"

definition validated_count :: "scheduler \<Rightarrow> nat" where
  "validated_count s = length (filter (\<lambda>t. status t = Validated) (transactions_status s))"

definition sizes_ok :: "scheduler \<Rightarrow> bool" where
  "sizes_ok s \<longleftrightarrow>
     length (transactions_status s) = block_size s \<and>
     length (transactions_dependents s) = block_size s \<and>
     min_validation_idx s \<le> block_size s \<and> min_validation_idx s \<le> validation_idx s"

text \<open>
  The counters agree with the number of pending places \<open>cnt t\<close>; a waiting transaction is
  aborting.
\<close>

definition deps_ok :: "(tx_idx \<Rightarrow> nat) \<Rightarrow> scheduler \<Rightarrow> bool" where
  "deps_ok cnt s \<longleftrightarrow>
     (\<forall>t. 0 < cnt t \<longrightarrow> t < length (transactions_status s) \<and> stat s t = Aborting) \<and>
     (\<forall>t k. hm_get (transactions_dependencies_num s) t = Some k \<longrightarrow> k = cnt t) \<and>
     (\<forall>t. hm_get (transactions_dependencies_num s) t = None \<longrightarrow> cnt t \<le> 1)"

definition blockers_ok :: "scheduler \<Rightarrow> bool" where
  "blockers_ok s \<longleftrightarrow>
     (\<forall>j < block_size s. \<forall>t \<in> set (transactions_dependents s ! j).
        j < t \<and> \<not> is_done (stat s j))"

text \<open>Everything but the claim on the execution counter.\<close>

definition sched_base :: "tx_idx set \<Rightarrow> scheduler \<Rightarrow> bool" where
  "sched_base A s \<longleftrightarrow>
     sizes_ok s \<and> deps_ok (pending s) s \<and> blockers_ok s \<and>
     num_validated s = validated_count s \<and>
     (\<forall>t < block_size s. stat s t = Validated \<longrightarrow> min_validation_idx s \<le> t) \<and>
     (\<forall>t \<in> A. t < block_size s \<and> stat s t = Aborting) \<and>
     (\<forall>t < block_size s. stat s t = Aborting \<longrightarrow> (t \<in> A \<longleftrightarrow> pending s t = 0))"

text \<open>No ready transaction lies below the execution counter, except those in \<open>H\<close>.\<close>

definition ready_ok :: "tx_idx set \<Rightarrow> scheduler \<Rightarrow> bool" where
  "ready_ok H s \<longleftrightarrow>
     (\<forall>t < block_size s. stat s t = ReadyToExecute \<longrightarrow> execution_idx s \<le> t \<or> t \<in> H)"

definition sched_inv :: "tx_idx set \<Rightarrow> scheduler \<Rightarrow> bool" where
  "sched_inv A s \<longleftrightarrow> sched_base A s \<and> ready_ok {} s"

lemma sched_baseI:
  assumes "sizes_ok s" "deps_ok (pending s) s" "blockers_ok s" "num_validated s = validated_count s"
    and "\<And>t. t < block_size s \<Longrightarrow> stat s t = Validated \<Longrightarrow> min_validation_idx s \<le> t"
    and "\<And>t. t \<in> A \<Longrightarrow> t < block_size s \<and> stat s t = Aborting"
    and "\<And>t. t < block_size s \<Longrightarrow> stat s t = Aborting \<Longrightarrow> t \<in> A \<longleftrightarrow> pending s t = 0"
  shows "sched_base A s"
  using assms unfolding sched_base_def by auto

lemma sched_baseD:
  assumes "sched_base A s"
  shows "sizes_ok s" "deps_ok (pending s) s" "blockers_ok s" "num_validated s = validated_count s"
    and "\<And>t. t < block_size s \<Longrightarrow> stat s t = Validated \<Longrightarrow> min_validation_idx s \<le> t"
    and "\<And>t. t \<in> A \<Longrightarrow> t < block_size s \<and> stat s t = Aborting"
    and "\<And>t. t < block_size s \<Longrightarrow> stat s t = Aborting \<Longrightarrow> t \<in> A \<longleftrightarrow> pending s t = 0"
  using assms unfolding sched_base_def by auto

lemma base_lengths:
  "sched_base A s \<Longrightarrow> length (transactions_status s) = block_size s"
  "sched_base A s \<Longrightarrow> length (transactions_dependents s) = block_size s"
  by (auto simp: sched_base_def sizes_ok_def)

lemma inv_base: "sched_inv A s \<Longrightarrow> sched_base A s"
  by (simp add: sched_inv_def)

lemma pending_zero_iff:
  "pending s t = 0 \<longleftrightarrow> (\<forall>ds \<in> set (transactions_dependents s). t \<notin> set ds)"
  by (auto simp: pending_def count_list_0_iff)

lemma pending_member: "j < length (transactions_dependents s) \<Longrightarrow>
  t \<in> set (transactions_dependents s ! j) \<Longrightarrow> 0 < pending s t"
  using pending_zero_iff[of s t] nth_mem by (metis neq0_conv)

section \<open>Counting in the dependents lists\<close>

lemma count_list_concat_update:
  "i < length xss \<Longrightarrow>
   count_list (concat (xss[i := ys])) t + count_list (xss ! i) t
     = count_list (concat xss) t + count_list ys t"
proof (induction xss arbitrary: i)
  case Nil
  then show ?case by simp
next
  case (Cons zs zss)
  show ?case
  proof (cases i)
    case 0
    then show ?thesis by simp
  next
    case (Suc j)
    with Cons.prems have "j < length zss" by simp
    from Cons.IH[OF this] Suc show ?thesis by simp
  qed
qed

lemma pending_cong:
  "transactions_dependents s' = transactions_dependents s \<Longrightarrow> pending s' = pending s"
  by (simp add: pending_def fun_eq_iff)

lemma pending_push:
  "j < length (transactions_dependents s) \<Longrightarrow>
   transactions_dependents s' =
     (transactions_dependents s)[j := transactions_dependents s ! j @ [t]] \<Longrightarrow>
   pending s' u = pending s u + (if u = t then 1 else 0)"
  using count_list_concat_update[of j "transactions_dependents s"
      "transactions_dependents s ! j @ [t]" u]
  by (simp add: pending_def)

lemma pending_clear:
  "j < length (transactions_dependents s) \<Longrightarrow>
   transactions_dependents s' = (transactions_dependents s)[j := []] \<Longrightarrow>
   pending s u = pending s' u + count_list (transactions_dependents s ! j) u"
  using count_list_concat_update[of j "transactions_dependents s" "[]" u]
  by (simp add: pending_def)

section \<open>Single status changes\<close>

lemma set_status_simps [simp]:
  "execution_idx (set_status i st s) = execution_idx s"
  "validation_idx (set_status i st s) = validation_idx s"
  "block_size (set_status i st s) = block_size s"
  "min_validation_idx (set_status i st s) = min_validation_idx s"
  "num_validated (set_status i st s) = num_validated s"
  "transactions_dependents (set_status i st s) = transactions_dependents s"
  "transactions_dependencies_num (set_status i st s) = transactions_dependencies_num s"
  "length (transactions_status (set_status i st s)) = length (transactions_status s)"
  by (simp_all add: set_status_def)

lemma stat_set_status:
  "i < length (transactions_status s) \<Longrightarrow>
   stat (set_status i st s) t = (if t = i then st else stat s t)"
  by (auto simp: set_status_def nth_list_update)

lemma inc_set_status [simp]:
  "inc (set_status i st s) t = inc s t"
  by (cases "i < length (transactions_status s)")
    (auto simp: set_status_def nth_list_update list_update_beyond)

lemma validated_count_cong:
  assumes "length (transactions_status s') = length (transactions_status s)"
    and "\<And>t. t < length (transactions_status s) \<Longrightarrow> stat s' t = Validated \<longleftrightarrow> stat s t = Validated"
  shows "validated_count s' = validated_count s"
proof -
  have "{i. i < length (transactions_status s') \<and> stat s' i = Validated} =
        {i. i < length (transactions_status s) \<and> stat s i = Validated}"
    using assms by auto
  then show ?thesis by (simp add: validated_count_def length_filter_nth)
qed

lemma validated_count_set_status:
  "i < length (transactions_status s) \<Longrightarrow>
   validated_count (set_status i st s) + (if stat s i = Validated then 1 else 0)
     = validated_count s + (if st = Validated then 1 else 0)"
  using length_filter_update[of i "transactions_status s" "\<lambda>t. status t = Validated"
      "(transactions_status s ! i)\<lparr>status := st\<rparr>"]
  by (simp add: validated_count_def set_status_def)

lemma pending_set_status [simp]: "pending (set_status i st s) = pending s"
  by (rule pending_cong) simp

lemma validated_count_pos:
  "i < length (transactions_status s) \<Longrightarrow> stat s i = Validated \<Longrightarrow> 0 < validated_count s"
  by (auto simp: validated_count_def length_filter_nth card_gt_0_iff)

section \<open>Resuming the dependents\<close>

lemma set_ready_status_ok:
  assumes "t < length (transactions_status s)" and "stat s t = Aborting"
  shows "set_ready_status t s = Inr (s\<lparr>transactions_status := (transactions_status s)
           [t := \<lparr>incarnation = inc s t + 1, status = ReadyToExecute\<rparr>]\<rparr>)"
  using assms by (simp add: set_ready_status_def)

text \<open>Only the status vector and the dependency counters change.\<close>

definition same_frame :: "scheduler \<Rightarrow> scheduler \<Rightarrow> bool" where
  "same_frame s s' \<longleftrightarrow>
     execution_idx s' = execution_idx s \<and> validation_idx s' = validation_idx s \<and>
     block_size s' = block_size s \<and> min_validation_idx s' = min_validation_idx s \<and>
     num_validated s' = num_validated s \<and>
     transactions_dependents s' = transactions_dependents s \<and>
     length (transactions_status s') = length (transactions_status s)"

lemma deps_okD:
  assumes "deps_ok cnt s"
  shows "0 < cnt t \<Longrightarrow> t < length (transactions_status s)"
    and "0 < cnt t \<Longrightarrow> stat s t = Aborting"
    and "hm_get (transactions_dependencies_num s) t = Some k \<Longrightarrow> k = cnt t"
    and "hm_get (transactions_dependencies_num s) t = None \<Longrightarrow> cnt t \<le> 1"
  using assms by (auto simp: deps_ok_def)

lemma deps_ok_step:
  assumes deps: "deps_ok cnt s" and pos: "0 < cnt t"
    and len: "length (transactions_status s') = length (transactions_status s)"
    and stat: "\<And>u. u \<noteq> t \<or> cnt t \<noteq> 1 \<Longrightarrow> stat s' u = stat s u"
    and num: "hm_get (transactions_dependencies_num s') =
      (\<lambda>u. if u = t then map_option (\<lambda>k. k - 1) (hm_get (transactions_dependencies_num s) u)
           else hm_get (transactions_dependencies_num s) u)"
  shows "deps_ok (cnt(t := cnt t - 1)) s'"
  unfolding deps_ok_def
proof (intro conjI allI impI)
  fix u assume "0 < (cnt(t := cnt t - 1)) u"
  then have "0 < cnt u" "u \<noteq> t \<or> cnt t \<noteq> 1" by (auto split: if_splits)
  then show "u < length (transactions_status s')" "stat s' u = Aborting"
    using deps_okD[OF deps] len stat by auto
next
  fix u k assume "hm_get (transactions_dependencies_num s') u = Some k"
  then show "k = (cnt(t := cnt t - 1)) u"
    using deps_okD(3)[OF deps] by (auto simp: num split: if_splits)
next
  fix u assume "hm_get (transactions_dependencies_num s') u = None"
  then have "hm_get (transactions_dependencies_num s) u = None" by (auto simp: num split: if_splits)
  from deps_okD(4)[OF deps this] show "(cnt(t := cnt t - 1)) u \<le> 1" by auto
qed

lemma resume_dependent_ok:
  assumes deps: "deps_ok cnt s" and pos: "0 < cnt t"
  shows "\<exists>s'. resume_dependent t s = Inr (cnt t = 1, s') \<and>
    deps_ok (cnt(t := cnt t - 1)) s' \<and> same_frame s s' \<and>
    transactions_status s' = (if cnt t = 1 then (transactions_status s)
       [t := \<lparr>incarnation = inc s t + 1, status = ReadyToExecute\<rparr>] else transactions_status s)"
proof -
  let ?num = "transactions_dependencies_num s"
  define num' where "num' = (case hm_get ?num t of None \<Rightarrow> ?num | Some n \<Rightarrow> hm_insert t (n - 1) ?num)"
  define s' where "s' = s\<lparr>transactions_status := (if cnt t = 1 then (transactions_status s)
       [t := \<lparr>incarnation = inc s t + 1, status = ReadyToExecute\<rparr>] else transactions_status s),
     transactions_dependencies_num := num'\<rparr>"
  have t: "t < length (transactions_status s)" "stat s t = Aborting"
    using deps_okD[OF deps] pos by auto
  have "resume_dependent t s = Inr (cnt t = 1, s')"
  proof (cases "hm_get ?num t")
    case None
    have "cnt t = 1" using deps_okD(4)[OF deps None] pos by simp
    then show ?thesis using None t
      by (simp add: resume_dependent_def set_ready_status_ok s'_def num'_def)
  next
    case (Some n)
    then have n: "n = cnt t" using deps_okD(3)[OF deps] by simp
    show ?thesis
    proof (cases "n = 1")
      case True
      then show ?thesis using Some n t
        by (simp add: resume_dependent_def set_ready_status_ok s'_def num'_def Let_def)
    next
      case False
      then show ?thesis using Some n pos
        by (simp add: resume_dependent_def s'_def num'_def Let_def)
    qed
  qed
  moreover have "deps_ok (cnt(t := cnt t - 1)) s'"
    by (rule deps_ok_step[OF deps pos])
      (auto simp: s'_def num'_def hm_get_insert fun_eq_iff nth_list_update split: option.splits)
  moreover have "same_frame s s'" by (simp add: same_frame_def s'_def)
  ultimately show ?thesis by (intro exI[of _ s']) (simp add: s'_def)
qed

lemma resume_dependents_ok:
  assumes "deps_ok (\<lambda>t. ext t + count_list ds t) s"
  shows "\<exists>m' s'. resume_dependents ds m s = Inr (m', s') \<and> deps_ok ext s' \<and> same_frame s s' \<and>
    (\<forall>t. transactions_status s' ! t =
       (if t \<in> set ds \<and> ext t = 0 then \<lparr>incarnation = inc s t + 1, status = ReadyToExecute\<rparr>
        else transactions_status s ! t)) \<and>
    (\<forall>i. m = Some i \<longrightarrow> (\<exists>j \<le> i. m' = Some j)) \<and>
    (\<forall>t \<in> set ds. ext t = 0 \<longrightarrow> (\<exists>j \<le> t. m' = Some j))"
  using assms
proof (induction ds arbitrary: m s)
  case Nil
  then show ?case by (auto simp: same_frame_def)
next
  case (Cons x xs)
  let ?cnt = "\<lambda>t. ext t + count_list (x # xs) t"
  let ?m = "if ?cnt x = 1 then Some (case m of None \<Rightarrow> x | Some m' \<Rightarrow> min x m') else m"
  obtain s1 where s1: "resume_dependent x s = Inr (?cnt x = 1, s1)"
    "deps_ok (?cnt(x := ?cnt x - 1)) s1" "same_frame s s1"
    "transactions_status s1 = (if ?cnt x = 1 then (transactions_status s)
       [x := \<lparr>incarnation = inc s x + 1, status = ReadyToExecute\<rparr>] else transactions_status s)"
    using resume_dependent_ok[OF Cons.prems, of x] by auto
  have x: "x < length (transactions_status s)" using Cons.prems by (auto simp: deps_ok_def)
  have "?cnt(x := ?cnt x - 1) = (\<lambda>t. ext t + count_list xs t)" by (auto simp: fun_eq_iff)
  with s1(2) have "deps_ok (\<lambda>t. ext t + count_list xs t) s1" by simp
  from Cons.IH[OF this, of ?m] obtain m' s' where r:
    "resume_dependents xs ?m s1 = Inr (m', s')" "deps_ok ext s'" "same_frame s1 s'"
    "\<forall>t. transactions_status s' ! t =
       (if t \<in> set xs \<and> ext t = 0 then \<lparr>incarnation = inc s1 t + 1, status = ReadyToExecute\<rparr>
        else transactions_status s1 ! t)"
    "\<forall>i. ?m = Some i \<longrightarrow> (\<exists>j \<le> i. m' = Some j)"
    "\<forall>t \<in> set xs. ext t = 0 \<longrightarrow> (\<exists>j \<le> t. m' = Some j)" by blast
  have once: "?cnt x = 1 \<longleftrightarrow> ext x = 0 \<and> x \<notin> set xs" by (auto simp: count_list_0_iff)
  have status: "transactions_status s' ! t =
      (if t \<in> set (x # xs) \<and> ext t = 0 then \<lparr>incarnation = inc s t + 1, status = ReadyToExecute\<rparr>
       else transactions_status s ! t)" for t
    using r(4) s1(4) once x by (auto simp: nth_list_update)
  have "\<exists>j \<le> x. m' = Some j" if "ext x = 0"
  proof (cases "x \<in> set xs")
    case True
    then show ?thesis using r(6) that by blast
  next
    case False
    then have "\<exists>j \<le> (case m of None \<Rightarrow> x | Some m' \<Rightarrow> min x m'). m' = Some j"
      using r(5) once that by simp
    then show ?thesis by (auto split: option.splits)
  qed
  moreover have "\<exists>j \<le> i. m' = Some j" if "m = Some i" for i
  proof (cases "?cnt x = 1")
    case True
    then show ?thesis using r(5) that by auto
  next
    case False
    with r(5) have "\<forall>i. m = Some i \<longrightarrow> (\<exists>j \<le> i. m' = Some j)" by (simp only: if_False)
    then show ?thesis using that by blast
  qed
  ultimately show ?case
    using s1(1,3) r(1,2,3,6) status by (auto simp: same_frame_def simp del: count_list.simps)
qed

section \<open>Picking a task keeps the invariant\<close>

text \<open>The counters do not take part in the bookkeeping of statuses and dependents.\<close>

lemma counter_update_simps [simp]:
  "pending (s\<lparr>execution_idx := e\<rparr>) = pending s"
  "pending (s\<lparr>validation_idx := e\<rparr>) = pending s"
  "pending (s\<lparr>min_validation_idx := e\<rparr>) = pending s"
  "pending (s\<lparr>num_validated := e\<rparr>) = pending s"
  "deps_ok cnt (s\<lparr>execution_idx := e\<rparr>) = deps_ok cnt s"
  "deps_ok cnt (s\<lparr>validation_idx := e\<rparr>) = deps_ok cnt s"
  "deps_ok cnt (s\<lparr>min_validation_idx := e\<rparr>) = deps_ok cnt s"
  "deps_ok cnt (s\<lparr>num_validated := e\<rparr>) = deps_ok cnt s"
  "blockers_ok (s\<lparr>execution_idx := e\<rparr>) = blockers_ok s"
  "blockers_ok (s\<lparr>validation_idx := e\<rparr>) = blockers_ok s"
  "blockers_ok (s\<lparr>min_validation_idx := e\<rparr>) = blockers_ok s"
  "blockers_ok (s\<lparr>num_validated := e\<rparr>) = blockers_ok s"
  "validated_count (s\<lparr>execution_idx := e\<rparr>) = validated_count s"
  "validated_count (s\<lparr>validation_idx := e\<rparr>) = validated_count s"
  "validated_count (s\<lparr>min_validation_idx := e\<rparr>) = validated_count s"
  "validated_count (s\<lparr>num_validated := e\<rparr>) = validated_count s"
  by (simp_all add: pending_def deps_ok_def blockers_ok_def validated_count_def fun_eq_iff)

lemma base_execution_idx [simp]: "sched_base A (s\<lparr>execution_idx := e\<rparr>) = sched_base A s"
  by (simp add: sched_base_def sizes_ok_def)

lemma base_validation_idx:
  assumes "sched_base A s" and "min_validation_idx s \<le> e"
  shows "sched_base A (s\<lparr>validation_idx := e\<rparr>)"
proof (rule sched_baseI)
  show "sizes_ok (s\<lparr>validation_idx := e\<rparr>)"
    using sched_baseD(1)[OF assms(1)] assms(2) by (simp add: sizes_ok_def)
qed (use sched_baseD[OF assms(1)] in simp_all)

lemma base_min_validation_idx:
  assumes "sched_base A s" and "e \<le> min_validation_idx s"
  shows "sched_base A (s\<lparr>min_validation_idx := e\<rparr>)"
proof (rule sched_baseI)
  show "sizes_ok (s\<lparr>min_validation_idx := e\<rparr>)"
    using sched_baseD(1)[OF assms(1)] assms(2) by (simp add: sizes_ok_def)
  show "min_validation_idx (s\<lparr>min_validation_idx := e\<rparr>) \<le> t"
    if "t < block_size (s\<lparr>min_validation_idx := e\<rparr>)"
      "stat (s\<lparr>min_validation_idx := e\<rparr>) t = Validated" for t
    using that sched_baseD(5)[OF assms(1), of t] assms(2) by simp
qed (use sched_baseD[OF assms(1)] in simp_all)

text \<open>A change of status that involves no aborting transaction.\<close>

lemma base_set_status:
  assumes base: "sched_base A s" and i: "i < block_size s"
    and old: "stat s i \<noteq> Aborting" and new: "st \<noteq> Aborting"
    and "is_done st \<Longrightarrow> is_done (stat s i)"
    and "st = Validated \<Longrightarrow> min_validation_idx s \<le> i"
    and nv: "n + (if stat s i = Validated then 1 else 0)
      = num_validated s + (if st = Validated then 1 else 0)"
  shows "sched_base A ((set_status i st s)\<lparr>num_validated := n\<rparr>)"
    (is "sched_base A ?s")
proof (rule sched_baseI)
  have i': "i < length (transactions_status s)" using i base_lengths[OF base] by simp
  note stat = stat_set_status[OF i']
  have pend: "pending ?s = pending s" by (rule pending_cong) simp
  have zero: "pending s i = 0" using sched_baseD(2)[OF base] old by (auto simp: deps_ok_def)
  show "sizes_ok ?s" using sched_baseD(1)[OF base] by (simp add: sizes_ok_def)
  show "deps_ok (pending ?s) ?s"
    using sched_baseD(2)[OF base] zero unfolding pend by (auto simp: deps_ok_def stat)
  show "blockers_ok ?s" using sched_baseD(3)[OF base] assms(5)
    by (auto simp: blockers_ok_def stat)
  have "validated_count ?s = validated_count (set_status i st s)" by (simp add: validated_count_def)
  then show "num_validated ?s = validated_count ?s"
    using validated_count_set_status[OF i', of st] sched_baseD(4)[OF base] nv by simp
  show "min_validation_idx ?s \<le> t" if "t < block_size ?s" "stat ?s t = Validated" for t
    using that assms(6) sched_baseD(5)[OF base] by (auto simp: stat split: if_splits)
  show "t < block_size ?s \<and> stat ?s t = Aborting" if "t \<in> A" for t
    using that old sched_baseD(6)[OF base] by (auto simp: stat)
  show "t \<in> A \<longleftrightarrow> pending ?s t = 0" if "t < block_size ?s" "stat ?s t = Aborting" for t
    using that new sched_baseD(7)[OF base] unfolding pend by (auto simp: stat split: if_splits)
qed

text \<open>What picking an execution task does: one ready transaction starts executing.\<close>

definition picked :: "scheduler \<Rightarrow> tx_version \<Rightarrow> scheduler \<Rightarrow> bool" where
  "picked s v s' \<longleftrightarrow>
     ver_idx v < block_size s \<and> stat s (ver_idx v) = ReadyToExecute \<and>
     ver_incarnation v = inc s (ver_idx v) \<and>
     (\<exists>e \<ge> execution_idx s. s' = set_status (ver_idx v) Executing (s\<lparr>execution_idx := e\<rparr>))"

lemma try_execute_ok:
  assumes "length (transactions_status s) = block_size s" and "ready_ok {tx} s"
  shows "\<exists>r s'. try_execute tx s = Inr (r, s') \<and> ready_ok {} s' \<and>
    (case r of
       Some v \<Rightarrow> picked s v s'
     | None \<Rightarrow> \<exists>e \<ge> execution_idx s. s' = s\<lparr>execution_idx := e\<rparr> \<and>
                 (tx < block_size s \<longrightarrow> block_size s \<le> e))"
  using assms
proof (induction tx s rule: try_execute.induct)
  case (1 tx s)
  let ?s = "s\<lparr>execution_idx := execution_idx s + 1\<rparr>"
  show ?case
  proof (cases "tx < block_size s \<and> stat s tx \<noteq> ReadyToExecute")
    case False
    then show ?thesis using "1.prems"
      by (auto simp: try_execute.simps[of tx s] picked_def ready_ok_def stat_set_status
          split: if_splits intro: exI[of _ "execution_idx s"])
  next
    case True
    then have step: "try_execute tx s = try_execute (execution_idx s) ?s"
      using "1.prems" by (simp add: try_execute.simps[of tx s])
    have "ready_ok {execution_idx s} ?s"
      using "1.prems"(2) True by (auto simp: ready_ok_def)
    then obtain r s' where r: "try_execute (execution_idx s) ?s = Inr (r, s')" "ready_ok {} s'"
      "case r of Some v \<Rightarrow> picked ?s v s'
       | None \<Rightarrow> \<exists>e \<ge> execution_idx ?s. s' = ?s\<lparr>execution_idx := e\<rparr> \<and>
           (execution_idx s < block_size ?s \<longrightarrow> block_size ?s \<le> e)"
      using "1.IH"[of "transactions_status s ! tx"] True "1.prems"(1) by auto
    show ?thesis
    proof (cases r)
      case None
      then obtain e where e: "execution_idx s + 1 \<le> e" "s' = s\<lparr>execution_idx := e\<rparr>"
        "execution_idx s < block_size s \<longrightarrow> block_size s \<le> e" using r(3) by auto
      then have "block_size s \<le> e" by linarith
      with e None r(1,2) show ?thesis unfolding step
        by (intro exI[of _ None] exI[of _ s']) (auto intro!: exI[of _ e])
    next
      case (Some v)
      then obtain e where e: "execution_idx s + 1 \<le> e"
        "s' = set_status (ver_idx v) Executing (s\<lparr>execution_idx := e\<rparr>)"
        using r(3) by (auto simp: picked_def)
      with Some r have "picked s v s'" unfolding picked_def
        by (intro conjI exI[of _ e]) (auto simp: picked_def)
      with Some r(1,2) show ?thesis unfolding step
        by (intro exI[of _ "Some v"] exI[of _ s']) auto
    qed
  qed
qed

lemma base_picked:
  assumes "sched_base A s" and "picked s v s'"
  shows "sched_base A s'"
proof -
  obtain e where s': "s' = set_status (ver_idx v) Executing (s\<lparr>execution_idx := e\<rparr>)"
    using assms(2) by (auto simp: picked_def)
  have "sched_base A ((set_status (ver_idx v) Executing (s\<lparr>execution_idx := e\<rparr>))
      \<lparr>num_validated := num_validated s\<rparr>)"
    using assms by (intro base_set_status) (auto simp: picked_def)
  then show ?thesis by (simp add: s' set_status_def)
qed

section \<open>Each method keeps the invariant and returns\<close>

text \<open>What handing out a validation task does: only the validation counter moves.\<close>

definition claimed :: "scheduler \<Rightarrow> tx_version \<Rightarrow> scheduler \<Rightarrow> bool" where
  "claimed s v s' \<longleftrightarrow>
     ver_idx v < block_size s \<and> min_validation_idx s \<le> ver_idx v \<and>
     is_done (stat s (ver_idx v)) \<and> ver_incarnation v = inc s (ver_idx v) \<and>
     ver_idx v = validation_idx s \<and> s' = s\<lparr>validation_idx := validation_idx s + 1\<rparr>"

lemma sched_try_validate_ok:
  assumes "sched_base A s"
  shows "\<exists>r. sched_try_validate s = Inr (r, s\<lparr>validation_idx := validation_idx s + 1\<rparr>) \<and>
    (\<forall>v. r = Some v \<longrightarrow> claimed s v (s\<lparr>validation_idx := validation_idx s + 1\<rparr>)) \<and>
    (r = None \<longrightarrow> validation_idx s < block_size s \<longrightarrow> \<not> is_done (stat s (validation_idx s)))"
  using base_lengths[OF assms] sched_baseD(1)[OF assms]
  by (auto simp: sched_try_validate_def Let_def claimed_def sizes_ok_def)

lemma inv_validation_idx_Suc:
  "sched_inv A s \<Longrightarrow> sched_inv A (s\<lparr>validation_idx := validation_idx s + 1\<rparr>)"
  using base_validation_idx[of A s "validation_idx s + 1"] sched_baseD(1)[of A s]
  by (auto simp: sched_inv_def sizes_ok_def ready_ok_def)

lemma inv_picked: "sched_inv A s \<Longrightarrow> picked s v s' \<Longrightarrow> ready_ok {} s' \<Longrightarrow> sched_inv A s'"
  unfolding sched_inv_def using base_picked by blast

lemma picked_execution_idx:
  "picked (s\<lparr>execution_idx := e\<rparr>) v s' \<Longrightarrow> execution_idx s \<le> e \<Longrightarrow> picked s v s'"
  by (auto simp: picked_def intro: le_trans)

text \<open>A round without a task: the counters advance over transactions that are not ready for it.\<close>

definition skipped :: "scheduler \<Rightarrow> scheduler \<Rightarrow> bool" where
  "skipped s s' \<longleftrightarrow>
     (\<exists>e w. execution_idx s \<le> e \<and> validation_idx s \<le> w \<and>
        s' = s\<lparr>execution_idx := e, validation_idx := w\<rparr> \<and>
        (\<forall>t. validation_idx s \<le> t \<and> t < w \<and> t < block_size s \<longrightarrow> \<not> is_done (stat s t)))"

lemma skippedI:
  "execution_idx s \<le> e \<Longrightarrow> validation_idx s \<le> w \<Longrightarrow>
   (\<And>t. validation_idx s \<le> t \<Longrightarrow> t < w \<Longrightarrow> t < block_size s \<Longrightarrow> \<not> is_done (stat s t)) \<Longrightarrow>
   skipped s (s\<lparr>execution_idx := e, validation_idx := w\<rparr>)"
  unfolding skipped_def by blast

lemma skipped_simps:
  "skipped s s"
  "execution_idx s \<le> e \<Longrightarrow> skipped s (s\<lparr>execution_idx := e\<rparr>)"
  "(validation_idx s < block_size s \<Longrightarrow> \<not> is_done (stat s (validation_idx s))) \<Longrightarrow>
   skipped s (s\<lparr>validation_idx := Suc (validation_idx s)\<rparr>)"
  using skippedI[of s "execution_idx s" "validation_idx s"]
    skippedI[of s e "validation_idx s"]
    skippedI[of s "execution_idx s" "Suc (validation_idx s)"]
  by (auto simp: less_Suc_eq)

lemma next_task_iter_ok:
  assumes inv: "sched_inv A s"
  shows "\<exists>r s'. next_task_iter s = Inr (r, s') \<and> sched_inv A s' \<and>
    (case r of
       Break \<Rightarrow> s' = s \<and> block_size s \<le> execution_idx s \<and> block_size s \<le> validation_idx s \<and>
                block_size s - min_validation_idx s \<le> num_validated s
     | Continue \<Rightarrow> skipped s s'
     | Return (Execution v) \<Rightarrow> picked s v s'
     | Return (Validation v) \<Rightarrow> claimed s v s')"
proof -
  let ?spin = "execution_idx s \<ge> block_size s \<and> validation_idx s \<ge> block_size s"
  consider (spin) ?spin | (val) "\<not> ?spin" "validation_idx s < execution_idx s"
    | (exec) "\<not> ?spin" "\<not> validation_idx s < execution_idx s" by blast
  then show ?thesis
  proof cases
    case spin
    then show ?thesis using inv by (auto simp: next_task_iter_def skipped_simps)
  next
    case val
    obtain r where r: "sched_try_validate s = Inr (r, s\<lparr>validation_idx := validation_idx s + 1\<rparr>)"
      "\<And>v. r = Some v \<Longrightarrow> claimed s v (s\<lparr>validation_idx := validation_idx s + 1\<rparr>)"
      "r = None \<Longrightarrow> validation_idx s < block_size s \<Longrightarrow> \<not> is_done (stat s (validation_idx s))"
      using sched_try_validate_ok[OF inv_base[OF inv]] by blast
    show ?thesis
    proof (cases r)
      case None
      then show ?thesis using val r inv_validation_idx_Suc[OF inv]
        by (auto simp: next_task_iter_def skipped_simps)
    next
      case (Some v)
      then show ?thesis using val r inv_validation_idx_Suc[OF inv] by (auto simp: next_task_iter_def)
    qed
  next
    case exec
    let ?s = "s\<lparr>execution_idx := execution_idx s + 1\<rparr>"
    have "length (transactions_status ?s) = block_size ?s" "ready_ok {execution_idx s} ?s"
      using inv base_lengths[OF inv_base[OF inv]] by (auto simp: sched_inv_def ready_ok_def)
    then obtain r s' where r: "try_execute (execution_idx s) ?s = Inr (r, s')" "ready_ok {} s'"
      "case r of Some v \<Rightarrow> picked ?s v s'
       | None \<Rightarrow> \<exists>e \<ge> execution_idx ?s. s' = ?s\<lparr>execution_idx := e\<rparr> \<and>
           (execution_idx s < block_size ?s \<longrightarrow> block_size ?s \<le> e)"
      using try_execute_ok[of ?s "execution_idx s"] by blast
    show ?thesis
    proof (cases r)
      case None
      then obtain e where e: "execution_idx s + 1 \<le> e" "s' = s\<lparr>execution_idx := e\<rparr>"
        using r(3) by auto
      then show ?thesis using exec r(1,2) None inv skipped_simps(2)[of s e]
        by (auto simp: next_task_iter_def sched_inv_def)
    next
      case (Some v)
      then have "picked s v s'" using r(3) picked_execution_idx by auto
      then show ?thesis using exec r(1,2) Some inv_picked[OF inv] by (auto simp: next_task_iter_def)
    qed
  qed
qed

text \<open>
  \<open>add_dependency\<close>: called by the worker that executes \<open>tx\<close>, blocked by a lower
  transaction. It refuses when the blocker has finished; otherwise \<open>tx\<close> waits for it.
\<close>

lemma executing_not_pending: "sched_base A s \<Longrightarrow> stat s t = Executing \<Longrightarrow> pending s t = 0"
  using deps_okD(2)[OF sched_baseD(2)[of A s], of t] by fastforce

lemma add_dependency_ok:
  assumes inv: "sched_inv A s" and lt: "j < t" "t < block_size s" and ex: "stat s t = Executing"
  shows "\<exists>b s'. add_dependency t j s = Inr (b, s') \<and> sched_inv A s' \<and>
    (b \<longleftrightarrow> \<not> is_done (stat s j)) \<and> (\<not> b \<longrightarrow> s' = s) \<and>
    (b \<longrightarrow> transactions_status s' = transactions_status (set_status t Aborting s) \<and>
       execution_idx s' = execution_idx s \<and> validation_idx s' = validation_idx s \<and>
       block_size s' = block_size s \<and> min_validation_idx s' = min_validation_idx s \<and>
       0 < pending s' t)"
proof -
  note base = inv_base[OF inv] and len = base_lengths[OF inv_base[OF inv]]
  show ?thesis
  proof (cases "is_done (stat s j)")
    case True
    then show ?thesis using inv lt len by (auto simp: add_dependency_def)
  next
    case False
    let ?num = "transactions_dependencies_num s"
    define s' where "s' = (set_status t Aborting s)
      \<lparr>transactions_dependents := (transactions_dependents s)[j := transactions_dependents s ! j @ [t]],
       transactions_dependencies_num := (case hm_get ?num t of None \<Rightarrow> ?num
          | Some n \<Rightarrow> hm_insert t (n + 1) ?num)\<rparr>"
    have run: "add_dependency t j s = Inr (True, s')"
      using False lt len ex by (simp add: add_dependency_def s'_def Let_def split: option.splits)
    have t: "t < length (transactions_status s)" using lt len by simp
    have fld: "execution_idx s' = execution_idx s" "validation_idx s' = validation_idx s"
      "block_size s' = block_size s" "min_validation_idx s' = min_validation_idx s"
      "num_validated s' = num_validated s"
      "transactions_status s' = transactions_status (set_status t Aborting s)"
      "length (transactions_status s') = block_size s"
      "transactions_dependents s' = (transactions_dependents s)[j := transactions_dependents s ! j @ [t]]"
      using len by (simp_all add: s'_def)
    have pend: "pending s' u = pending s u + (if u = t then 1 else 0)" for u
      using lt len by (intro pending_push[of j]) (auto simp: fld)
    have num: "hm_get (transactions_dependencies_num s') u =
        (if u = t then map_option Suc (hm_get ?num u) else hm_get ?num u)" for u
      by (simp add: s'_def hm_get_insert split: option.splits)
    have zero: "pending s t = 0" by (rule executing_not_pending[OF base ex])
    have stat: "stat s' u = (if u = t then Aborting else stat s u)" for u
      using stat_set_status[OF t, of Aborting u] by (simp add: fld)
    have vc: "validated_count s' = validated_count (set_status t Aborting s)"
      by (simp add: validated_count_def fld)
    have "sched_base A s'"
    proof (rule sched_baseI)
      show "sizes_ok s'" using sched_baseD(1)[OF base] by (simp add: sizes_ok_def fld)
      show "deps_ok (pending s') s'"
        using deps_okD[OF sched_baseD(2)[OF base]] zero lt unfolding deps_ok_def stat pend num fld(7)
        by (auto simp: len split: if_splits)
      show "blockers_ok s'"
        using sched_baseD(3)[OF base] False lt len
        by (auto simp: blockers_ok_def stat nth_list_update fld(3,8) split: if_splits)
      show "num_validated s' = validated_count s'"
        using validated_count_set_status[OF t, of Aborting] ex sched_baseD(4)[OF base]
        by (simp add: vc fld)
      show "min_validation_idx s' \<le> u" if "u < block_size s'" "stat s' u = Validated" for u
        using that sched_baseD(5)[OF base, of u] by (auto simp: stat fld(3,4) split: if_splits)
      show "u < block_size s' \<and> stat s' u = Aborting" if "u \<in> A" for u
        using sched_baseD(6)[OF base that] by (simp add: stat fld(3))
      show "u \<in> A \<longleftrightarrow> pending s' u = 0" if "u < block_size s'" "stat s' u = Aborting" for u
        using that sched_baseD(6,7)[OF base, of u] ex
        by (auto simp: stat pend fld(3) split: if_splits)
    qed
    moreover have "ready_ok {} s'"
      using inv by (auto simp: sched_inv_def ready_ok_def stat fld(1,3) split: if_splits)
    ultimately show ?thesis using run False pend[of t] fld by (auto simp: sched_inv_def)
  qed
qed

text \<open>The end of \<open>finish_execution\<close>: who still has to be validated.\<close>

definition lowered_min :: "tx_idx option \<Rightarrow> scheduler \<Rightarrow> nat" where
  "lowered_min nxt s = (case nxt of Some i \<Rightarrow> min (min_validation_idx s) i | None \<Rightarrow> min_validation_idx s)"

lemma schedule_validation_ok:
  assumes inv: "sched_inv A s" and run: "schedule_validation v wrote_new nxt s = (r, s')"
  shows "sched_inv A s'"
    and "transactions_status s' = transactions_status s" and "block_size s' = block_size s"
    and "transactions_dependents s' = transactions_dependents s"
    and "execution_idx s' = execution_idx s" and "min_validation_idx s' = lowered_min nxt s"
    and "validation_idx s' \<le> validation_idx s"
    and "r = None \<or> r = Some (Validation v)"
    and "r \<noteq> None \<Longrightarrow> min_validation_idx s' \<le> ver_idx v"
    and "ver_idx v < block_size s \<Longrightarrow> min_validation_idx s' \<le> ver_idx v \<Longrightarrow>
      r = Some (Validation v) \<or> validation_idx s' \<le> ver_idx v"
    and "wrote_new \<Longrightarrow> ver_idx v < k \<Longrightarrow> k < block_size s \<Longrightarrow> min_validation_idx s' \<le> k \<Longrightarrow>
      validation_idx s' \<le> k"
proof -
  let ?m = "lowered_min nxt s" and ?s = "s\<lparr>min_validation_idx := lowered_min nxt s\<rparr>"
  have m: "?m \<le> min_validation_idx s" by (simp add: lowered_min_def split: option.splits)
  have base: "sched_base A ?s" using base_min_validation_idx[OF inv_base[OF inv] m] .
  have s1: "(case nxt of Some i \<Rightarrow> s\<lparr>min_validation_idx := min (min_validation_idx s) i\<rparr> | None \<Rightarrow> s) = ?s"
    by (simp add: lowered_min_def split: option.splits)
  have le: "?m \<le> validation_idx s"
    using m sched_baseD(1)[OF inv_base[OF inv]] by (simp add: sizes_ok_def)
  have run': "(r, s') =
    (if ?m < block_size s then
       (if ver_idx v < ?m then
          (None, if wrote_new then ?s\<lparr>validation_idx := min (validation_idx s) ?m\<rparr> else ?s)
        else if ver_idx v < validation_idx s then
          (Some (Validation v),
           if wrote_new then ?s\<lparr>validation_idx := min (validation_idx s) (ver_idx v + 1)\<rparr> else ?s)
        else (None, ?s))
     else (None, ?s))"
    unfolding run[symmetric] schedule_validation_def s1 Let_def by simp
  have "\<exists>w. s' = ?s\<lparr>validation_idx := w\<rparr> \<and> ?m \<le> w"
    using run' le by (auto split: if_splits intro: exI[of _ "validation_idx s"])
  then obtain w where s': "s' = ?s\<lparr>validation_idx := w\<rparr>" and w: "?m \<le> w" by blast
  have "sched_base A s'" unfolding s' by (rule base_validation_idx[OF base]) (simp add: w)
  then show "sched_inv A s'" using inv by (auto simp: sched_inv_def ready_ok_def s')
  show "transactions_status s' = transactions_status s" "block_size s' = block_size s"
    "transactions_dependents s' = transactions_dependents s" "execution_idx s' = execution_idx s"
    "min_validation_idx s' = ?m" by (simp_all add: s')
  show "validation_idx s' \<le> validation_idx s" "r = None \<or> r = Some (Validation v)"
    "r \<noteq> None \<Longrightarrow> min_validation_idx s' \<le> ver_idx v"
    "ver_idx v < block_size s \<Longrightarrow> min_validation_idx s' \<le> ver_idx v \<Longrightarrow>
      r = Some (Validation v) \<or> validation_idx s' \<le> ver_idx v"
    "wrote_new \<Longrightarrow> ver_idx v < k \<Longrightarrow> k < block_size s \<Longrightarrow> min_validation_idx s' \<le> k \<Longrightarrow>
      validation_idx s' \<le> k"
    using run' by (auto split: if_splits)
qed

text \<open>Which transactions a finished execution resumes: those it was the last blocker of.\<close>

definition resumed :: "tx_idx \<Rightarrow> scheduler \<Rightarrow> tx_idx \<Rightarrow> bool" where
  "resumed i s t \<longleftrightarrow> t \<in> set (transactions_dependents s ! i) \<and>
     pending s t = count_list (transactions_dependents s ! i) t"

text \<open>
  The state \<open>s'\<close> after transaction \<open>i\<close> is marked executed and its dependents are resumed, before
  the part of \<open>finish_execution\<close> that schedules validations.
\<close>

definition resume_effect :: "tx_idx \<Rightarrow> scheduler \<Rightarrow> scheduler \<Rightarrow> bool" where
  "resume_effect i s s' \<longleftrightarrow>
     block_size s' = block_size s \<and> validation_idx s' = validation_idx s \<and>
     min_validation_idx s' = min_validation_idx s \<and> num_validated s' = num_validated s \<and>
     length (transactions_status s') = length (transactions_status s) \<and>
     transactions_dependents s' = (transactions_dependents s)[i := []] \<and>
     execution_idx s' \<le> execution_idx s \<and> deps_ok (pending s') s' \<and>
     (\<forall>t. resumed i s t \<longrightarrow> execution_idx s' \<le> t) \<and>
     (\<forall>t. transactions_status s' ! t =
       (if t = i then \<lparr>incarnation = inc s i, status = Executed\<rparr>
        else if resumed i s t then \<lparr>incarnation = inc s t + 1, status = ReadyToExecute\<rparr>
        else transactions_status s ! t))"

definition after_resume :: "tx_idx \<Rightarrow> tx_idx option \<Rightarrow> scheduler \<Rightarrow> scheduler" where
  "after_resume i m s =
     (let s' = s\<lparr>transactions_dependents := (transactions_dependents s)[i := []]\<rparr>
      in case m of None \<Rightarrow> s' | Some j \<Rightarrow> s'\<lparr>execution_idx := min (execution_idx s') j\<rparr>)"

lemma after_resume_simps [simp]:
  "transactions_status (after_resume i m s) = transactions_status s"
  "transactions_dependencies_num (after_resume i m s) = transactions_dependencies_num s"
  "transactions_dependents (after_resume i m s) = (transactions_dependents s)[i := []]"
  "block_size (after_resume i m s) = block_size s"
  "validation_idx (after_resume i m s) = validation_idx s"
  "min_validation_idx (after_resume i m s) = min_validation_idx s"
  "num_validated (after_resume i m s) = num_validated s"
  "execution_idx (after_resume i m s) \<le> execution_idx s"
  "m = Some j \<Longrightarrow> execution_idx (after_resume i m s) \<le> j"
  by (auto simp: after_resume_def Let_def split: option.splits)

text \<open>What is pending after the dependents list of \<open>i\<close> is emptied.\<close>

lemma pending_outside:
  assumes "i < length (transactions_dependents s)"
    and "transactions_dependents s' = (transactions_dependents s)[i := []]"
  shows "pending s t = pending s' t + count_list (transactions_dependents s ! i) t"
    and "resumed i s t \<longleftrightarrow> t \<in> set (transactions_dependents s ! i) \<and> pending s' t = 0"
  using pending_clear[OF assms, of t] by (auto simp: resumed_def)

lemma resume_phase:
  assumes base: "sched_base A s" and i: "i < block_size s" and ex: "stat s i = Executing"
  shows "\<exists>m s2. resume_dependents (transactions_dependents s ! i) None (set_status i Executed s)
      = Inr (m, s2) \<and> resume_effect i s (after_resume i m s2)"
proof -
  let ?ds = "transactions_dependents s ! i" and ?s1 = "set_status i Executed s"
  let ?ext = "pending (s\<lparr>transactions_dependents := (transactions_dependents s)[i := []]\<rparr>)"
  have il: "i < length (transactions_status s)" "i < length (transactions_dependents s)"
    using i base_lengths[OF base] by simp_all
  note out = pending_outside[OF il(2),
      of "s\<lparr>transactions_dependents := (transactions_dependents s)[i := []]\<rparr>", simplified]
  have zero: "pending s i = 0" by (rule executing_not_pending[OF base ex])
  have "deps_ok (pending s) ?s1"
    using deps_okD[OF sched_baseD(2)[OF base]] zero unfolding deps_ok_def
    by (auto simp: stat_set_status[OF il(1)])
  then have "deps_ok (\<lambda>t. ?ext t + count_list ?ds t) ?s1" by (simp only: out(1)[abs_def])
  from resume_dependents_ok[OF this, of None] obtain m s2 where
    r: "resume_dependents ?ds None ?s1 = Inr (m, s2)" "deps_ok ?ext s2" "same_frame ?s1 s2"
    "\<forall>t. transactions_status s2 ! t =
       (if t \<in> set ?ds \<and> ?ext t = 0 then \<lparr>incarnation = inc ?s1 t + 1, status = ReadyToExecute\<rparr>
        else transactions_status ?s1 ! t)"
    "\<forall>t \<in> set ?ds. ?ext t = 0 \<longrightarrow> (\<exists>j \<le> t. m = Some j)" by blast
  have fr: "transactions_dependents s2 = transactions_dependents s" "block_size s2 = block_size s"
    "validation_idx s2 = validation_idx s" "min_validation_idx s2 = min_validation_idx s"
    "num_validated s2 = num_validated s" "execution_idx s2 = execution_idx s"
    "length (transactions_status s2) = length (transactions_status s)"
    using r(3) by (simp_all add: same_frame_def)
  have "pending (after_resume i m s2) = ?ext" by (rule pending_cong) (simp add: fr)
  with r(2) have "deps_ok (pending (after_resume i m s2)) (after_resume i m s2)"
    by (simp add: deps_ok_def)
  moreover have "i \<notin> set ?ds" using zero pending_member[OF il(2), of i] by auto
  ultimately have "resume_effect i s (after_resume i m s2)"
    using r(4,5) il(1) after_resume_simps(8)[of i m s2]
    by (auto simp: resume_effect_def fr out(2) set_status_def nth_list_update
        dest!: bspec intro: order_trans[OF after_resume_simps(9)])
  then show ?thesis using r(1) by blast
qed

lemma resume_effectD:
  assumes "resume_effect i s s'"
  shows "block_size s' = block_size s" "validation_idx s' = validation_idx s"
    "min_validation_idx s' = min_validation_idx s" "num_validated s' = num_validated s"
    "length (transactions_status s') = length (transactions_status s)"
    "transactions_dependents s' = (transactions_dependents s)[i := []]"
    "execution_idx s' \<le> execution_idx s" "deps_ok (pending s') s'"
    "resumed i s t \<Longrightarrow> execution_idx s' \<le> t"
    "stat s' t = (if t = i then Executed else if resumed i s t then ReadyToExecute else stat s t)"
    "inc s' t = (if t \<noteq> i \<and> resumed i s t then inc s t + 1 else inc s t)"
  using assms by (auto simp: resume_effect_def)

lemma resumed_waiting:
  assumes "sched_base A s" "i < block_size s" "resumed i s t"
  shows "stat s t = Aborting" and "0 < pending s t"
  using assms deps_okD(2)[OF sched_baseD(2)[OF assms(1)]] pending_member[of i s t]
  by (auto simp: resumed_def base_lengths)

lemma resume_effect_blockers:
  assumes base: "sched_base A s" and i: "i < block_size s" and eff: "resume_effect i s s'"
  shows "blockers_ok s'"
  unfolding blockers_ok_def
proof (intro allI impI ballI)
  note D = resume_effectD[OF eff]
  have il: "i < length (transactions_dependents s)" using i base_lengths[OF base] by simp
  fix j t assume j: "j < block_size s'" and t: "t \<in> set (transactions_dependents s' ! j)"
  have "j \<noteq> i" using t il by (auto simp: D(6))
  with t have "t \<in> set (transactions_dependents s ! j)" by (simp add: D(6))
  then have "j < t" "\<not> is_done (stat s j)"
    using sched_baseD(3)[OF base] j by (auto simp: blockers_ok_def D(1))
  then show "j < t \<and> \<not> is_done (stat s' j)" using \<open>j \<noteq> i\<close> by (simp add: D(10))
qed

lemma resume_effect_base:
  assumes base: "sched_base A s" and i: "i < block_size s" and ex: "stat s i = Executing"
    and eff: "resume_effect i s s'"
  shows "sched_base A s'"
proof (rule sched_baseI)
  note D = resume_effectD[OF eff]
  have il: "i < length (transactions_status s)" "i < length (transactions_dependents s)"
    using i base_lengths[OF base] by simp_all
  note out = pending_outside[OF il(2) D(6)] and wait = resumed_waiting[OF base i]
  show "sizes_ok s'" using sched_baseD(1)[OF base] by (simp add: sizes_ok_def D)
  show "deps_ok (pending s') s'" by (rule D(8))
  show "blockers_ok s'" by (rule resume_effect_blockers[OF base i eff])
  have "validated_count s' = validated_count (set_status i Executed s)"
    using wait by (intro validated_count_cong) (auto simp: D(5,10) stat_set_status[OF il(1)])
  then show "num_validated s' = validated_count s'"
    using validated_count_set_status[OF il(1), of Executed] ex sched_baseD(4)[OF base]
    by (simp add: D(4))
  show "min_validation_idx s' \<le> t" if "t < block_size s'" "stat s' t = Validated" for t
    using that sched_baseD(5)[OF base, of t] by (auto simp: D(1,3,10) split: if_splits)
  show "t < block_size s' \<and> stat s' t = Aborting" if "t \<in> A" for t
    using sched_baseD(6)[OF base that] sched_baseD(7)[OF base, of t] that wait(2)[of t] ex
    by (auto simp: D(1,10))
  show "t \<in> A \<longleftrightarrow> pending s' t = 0" if "t < block_size s'" "stat s' t = Aborting" for t
  proof -
    have t: "\<not> resumed i s t" "stat s t = Aborting" "t < block_size s"
      using that by (auto simp: D(1,10) split: if_splits)
    then have "pending s' t = 0 \<longleftrightarrow> pending s t = 0"
      using out[of t] by (auto simp: count_list_0_iff)
    then show ?thesis using sched_baseD(7)[OF base t(3,2)] by simp
  qed
qed

lemma resume_effect_inv:
  assumes "sched_inv A s" and i: "i < block_size s" and "stat s i = Executing"
    and eff: "resume_effect i s s'"
  shows "sched_inv A s'"
  using assms resume_effect_base[OF inv_base assms(2-4)] resume_effectD[OF eff]
  by (auto simp: sched_inv_def ready_ok_def split: if_splits)

lemma finish_execution_resume:
  assumes inv: "sched_inv A s" and i: "ver_idx v < block_size s"
    and ex: "stat s (ver_idx v) = Executing"
  shows "\<exists>s1. resume_effect (ver_idx v) s s1 \<and> sched_inv A s1 \<and>
    finish_execution v wrote_new nxt s = Inr (schedule_validation v wrote_new nxt s1)"
proof -
  obtain m s2 where r: "resume_dependents (transactions_dependents s ! ver_idx v) None
      (set_status (ver_idx v) Executed s) = Inr (m, s2)"
    "resume_effect (ver_idx v) s (after_resume (ver_idx v) m s2)"
    using resume_phase[OF inv_base[OF inv] i ex] by blast
  then have "finish_execution v wrote_new nxt s =
      Inr (schedule_validation v wrote_new nxt (after_resume (ver_idx v) m s2))"
    using i ex base_lengths[OF inv_base[OF inv]]
    by (simp add: finish_execution_def after_resume_def Let_def)
  then show ?thesis using r(2) resume_effect_inv[OF inv i ex] by blast
qed

text \<open>
  \<open>try_validation_abort\<close>: an executed or validated transaction becomes aborting and joins
  \<open>A\<close>; in every other status nothing changes.
\<close>

lemma try_validation_abort_ok:
  assumes inv: "sched_inv A s" and i: "ver_idx v < block_size s"
  shows "\<exists>b s'. try_validation_abort v s = Inr (b, s') \<and> (b \<longleftrightarrow> is_done (stat s (ver_idx v))) \<and>
    (\<not> b \<longrightarrow> s' = s) \<and>
    (b \<longrightarrow> sched_inv (insert (ver_idx v) A) s' \<and>
       (\<exists>n. s' = (set_status (ver_idx v) Aborting s)\<lparr>num_validated := n\<rparr>))"
proof -
  note base = inv_base[OF inv]
  have il: "ver_idx v < length (transactions_status s)" using i base_lengths[OF base] by simp
  show ?thesis
  proof (cases "is_done (stat s (ver_idx v))")
    case False
    then show ?thesis using il by (auto simp: try_validation_abort_def)
  next
    case True
    define n where "n = (if stat s (ver_idx v) = Validated then num_validated s - 1 else num_validated s)"
    let ?s = "(set_status (ver_idx v) Aborting s)\<lparr>num_validated := n\<rparr>"
    note stat = stat_set_status[OF il, of Aborting]
    have pos: "stat s (ver_idx v) = Validated \<Longrightarrow> 0 < num_validated s"
      using validated_count_pos[OF il] sched_baseD(4)[OF base] by simp
    have run: "try_validation_abort v s = Inr (True, ?s)"
      using True pos il by (auto simp: try_validation_abort_def set_status_def n_def)
    have zero: "pending s (ver_idx v) = 0"
      using deps_okD(2)[OF sched_baseD(2)[OF base], of "ver_idx v"] True by fastforce
    have nodeps: "transactions_dependents s ! ver_idx v = []"
      using sched_baseD(3)[OF base] i True by (auto simp: blockers_ok_def neq_Nil_conv)
    have "sched_base (insert (ver_idx v) A) ?s"
    proof (rule sched_baseI)
      show "sizes_ok ?s" using sched_baseD(1)[OF base] by (simp add: sizes_ok_def)
      show "deps_ok (pending ?s) ?s"
        using sched_baseD(2)[OF base] by (auto simp: deps_ok_def stat)
      show "blockers_ok ?s" using sched_baseD(3)[OF base] by (auto simp: blockers_ok_def stat)
      show "num_validated ?s = validated_count ?s"
        using validated_count_set_status[OF il, of Aborting] sched_baseD(4)[OF base] pos
        by (auto simp: n_def split: if_splits)
      show "min_validation_idx ?s \<le> t" if "t < block_size ?s" "stat ?s t = Validated" for t
        using that sched_baseD(5)[OF base, of t] by (auto simp: stat split: if_splits)
      show "t < block_size ?s \<and> stat ?s t = Aborting" if "t \<in> insert (ver_idx v) A" for t
        using that i sched_baseD(6)[OF base, of t] by (auto simp: stat)
      show "t \<in> insert (ver_idx v) A \<longleftrightarrow> pending ?s t = 0"
        if "t < block_size ?s" "stat ?s t = Aborting" for t
        using that zero sched_baseD(7)[OF base, of t] by (auto simp: stat split: if_splits)
    qed
    moreover have "ready_ok {} ?s"
      using inv by (auto simp: sched_inv_def ready_ok_def stat split: if_splits)
    ultimately show ?thesis using run True by (auto simp: sched_inv_def)
  qed
qed

text \<open>Rescheduling an aborted transaction: it leaves \<open>A\<close>, ready for its next incarnation.\<close>

lemma set_ready_status_base:
  assumes base: "sched_base A s" and i: "i \<in> A"
    and run: "s' = s\<lparr>transactions_status := (transactions_status s)
      [i := \<lparr>incarnation = inc s i + 1, status = ReadyToExecute\<rparr>]\<rparr>"
  shows "sched_base (A - {i}) s'"
proof (rule sched_baseI)
  have il: "i < length (transactions_status s)" and ab: "stat s i = Aborting"
    and zero: "pending s i = 0"
    using sched_baseD(6,7)[OF base, of i] i base_lengths[OF base] by auto
  have fld: "block_size s' = block_size s" "validation_idx s' = validation_idx s"
    "min_validation_idx s' = min_validation_idx s" "num_validated s' = num_validated s"
    "length (transactions_status s') = length (transactions_status s)"
    "transactions_dependents s' = transactions_dependents s"
    "transactions_dependencies_num s' = transactions_dependencies_num s" by (simp_all add: run)
  have pend: "pending s' = pending s" by (rule pending_cong) (simp add: fld)
  have stat: "stat s' t = (if t = i then ReadyToExecute else stat s t)" for t
    using il by (simp add: run nth_list_update)
  show "sizes_ok s'" using sched_baseD(1)[OF base] by (simp add: sizes_ok_def fld)
  show "deps_ok (pending s') s'"
    using sched_baseD(2)[OF base] zero by (auto simp: deps_ok_def pend fld(5,7) stat)
  show "blockers_ok s'" using sched_baseD(3)[OF base] by (auto simp: blockers_ok_def fld(1,6) stat)
  have "validated_count s' = validated_count s"
    using ab by (intro validated_count_cong) (auto simp: fld(5) stat)
  then show "num_validated s' = validated_count s'" using sched_baseD(4)[OF base] by (simp add: fld)
  show "min_validation_idx s' \<le> t" if "t < block_size s'" "stat s' t = Validated" for t
    using that sched_baseD(5)[OF base, of t] by (auto simp: stat fld(1,3) split: if_splits)
  show "t < block_size s' \<and> stat s' t = Aborting" if "t \<in> A - {i}" for t
    using that sched_baseD(6)[OF base, of t] by (auto simp: stat fld(1))
  show "t \<in> A - {i} \<longleftrightarrow> pending s' t = 0" if "t < block_size s'" "stat s' t = Aborting" for t
    using that sched_baseD(7)[OF base, of t] by (auto simp: stat fld(1) pend split: if_splits)
qed

text \<open>
  \<open>finish_validation\<close> after a successful abort: the next incarnation of the transaction is
  ready or already handed to this worker, and every higher transaction will be validated.
\<close>

lemma finish_validation_aborted_ok:
  assumes inv: "sched_inv A s" and i: "ver_idx v \<in> A" and m: "min_validation_idx s \<le> ver_idx v"
  shows "\<exists>r s1 s'. finish_validation v True s = Inr (r, s') \<and> sched_inv (A - {ver_idx v}) s' \<and>
    s1 = s\<lparr>transactions_status := (transactions_status s)
           [ver_idx v := \<lparr>incarnation = inc s (ver_idx v) + 1, status = ReadyToExecute\<rparr>],
         validation_idx := min (validation_idx s) (ver_idx v + 1)\<rparr> \<and>
    (case r of
       None \<Rightarrow> s' = s1
     | Some (Execution w) \<Rightarrow> ver_idx w = ver_idx v \<and> picked s1 w s'
     | Some (Validation w) \<Rightarrow> False)"
proof -
  note base = inv_base[OF inv]
  let ?i = "ver_idx v"
  define s0 where "s0 = s\<lparr>transactions_status := (transactions_status s)
           [?i := \<lparr>incarnation = inc s ?i + 1, status = ReadyToExecute\<rparr>]\<rparr>"
  let ?s1 = "s0\<lparr>validation_idx := min (validation_idx s0) (?i + 1)\<rparr>"
  have il: "?i < length (transactions_status s)" "?i < block_size s" and ab: "stat s ?i = Aborting"
    using sched_baseD(6)[OF base i] base_lengths[OF base] by auto
  have ready: "set_ready_status ?i s = Inr s0" using il ab by (simp add: set_ready_status_ok s0_def)
  have b0: "sched_base (A - {?i}) s0" by (rule set_ready_status_base[OF base i s0_def])
  have b1: "sched_base (A - {?i}) ?s1"
    using base_validation_idx[OF b0, of "min (validation_idx s0) (?i + 1)"] m
      sched_baseD(1)[OF base] by (simp add: s0_def sizes_ok_def)
  have r1: "ready_ok {?i} ?s1"
    using inv by (auto simp: sched_inv_def ready_ok_def s0_def nth_list_update split: if_splits)
  show ?thesis
  proof (cases "execution_idx ?s1 > ?i")
    case False
    then have "ready_ok {} ?s1" using r1 by (auto simp: ready_ok_def)
    then show ?thesis using False ready b1
      by (auto simp: finish_validation_def sched_inv_def s0_def Let_def)
  next
    case True
    have take: "try_execute ?i ?s1 = Inr (Some \<lparr>ver_idx = ?i, ver_incarnation = inc s ?i + 1\<rparr>,
        set_status ?i Executing ?s1)"
      using il by (subst try_execute.simps) (simp add: s0_def)
    then have pk: "picked ?s1 \<lparr>ver_idx = ?i, ver_incarnation = inc s ?i + 1\<rparr>
        (set_status ?i Executing ?s1)" and rd: "ready_ok {} (set_status ?i Executing ?s1)"
      using try_execute_ok[of ?s1 ?i] r1 base_lengths[OF b1] by auto
    have "sched_inv (A - {?i}) (set_status ?i Executing ?s1)"
      using base_picked[OF b1 pk] rd by (simp add: sched_inv_def)
    then show ?thesis using True ready take pk
      by (auto simp: finish_validation_def Let_def s0_def)
  qed
qed

lemma finish_validation_ok:
  assumes inv: "sched_inv A s" and i: "ver_idx v < block_size s"
    and m: "min_validation_idx s \<le> ver_idx v"
  shows "\<exists>s'. finish_validation v False s = Inr (None, s') \<and> sched_inv A s' \<and>
    (if stat s (ver_idx v) = Executed
     then s' = (set_status (ver_idx v) Validated s)\<lparr>num_validated := num_validated s + 1\<rparr>
     else s' = s)"
proof -
  note base = inv_base[OF inv]
  have il: "ver_idx v < length (transactions_status s)" using i base_lengths[OF base] by simp
  show ?thesis
  proof (cases "stat s (ver_idx v) = Executed")
    case True
    let ?s = "(set_status (ver_idx v) Validated s)\<lparr>num_validated := num_validated s + 1\<rparr>"
    have "sched_base A ?s" using base i True m by (intro base_set_status) auto
    moreover have "ready_ok {} ?s"
      using inv by (auto simp: sched_inv_def ready_ok_def stat_set_status[OF il] split: if_splits)
    ultimately show ?thesis using True il by (simp add: finish_validation_def sched_inv_def)
  next
    case False
    then show ?thesis using inv il by (simp add: finish_validation_def)
  qed
qed

section \<open>Quiescence\<close>

text \<open>
  When no worker holds a transaction (none is executing and none is between abort and
  rescheduling) and the execution counter has passed the block, every transaction has been
  executed: nothing is left waiting.
\<close>

lemma quiescent_all_done:
  assumes inv: "sched_inv {} s" and idle: "\<And>t. t < block_size s \<Longrightarrow> stat s t \<noteq> Executing"
    and over: "block_size s \<le> execution_idx s" and t: "t < block_size s"
  shows "is_done (stat s t)"
  using t
proof (induction t rule: less_induct)
  case (less t)
  note base = inv_base[OF inv]
  have "stat s t \<noteq> ReadyToExecute"
    using inv over less.prems by (force simp: sched_inv_def ready_ok_def)
  moreover have "stat s t \<noteq> Aborting"
  proof
    assume "stat s t = Aborting"
    then have "pending s t \<noteq> 0" using sched_baseD(7)[OF base less.prems] by simp
    then obtain ds where "ds \<in> set (transactions_dependents s)" "t \<in> set ds"
      using pending_zero_iff[of s t] by auto
    then obtain j where "j < block_size s" "t \<in> set (transactions_dependents s ! j)"
      using in_set_conv_nth[of ds "transactions_dependents s"] base_lengths(2)[OF base] by auto
    then have "j < t" "\<not> is_done (stat s j)" "j < block_size s"
      using sched_baseD(3)[OF base] by (auto simp: blockers_ok_def)
    then show False using less.IH by blast
  qed
  ultimately show ?case using idle[OF less.prems] by (cases "stat s t") auto
qed

text \<open>The exit condition of \<open>next_task\<close> says that the whole tail has been validated.\<close>

lemma validated_tail:
  assumes base: "sched_base A s" and nv: "block_size s - min_validation_idx s \<le> num_validated s"
    and t: "min_validation_idx s \<le> t" "t < block_size s"
  shows "stat s t = Validated"
proof -
  let ?V = "{i. i < block_size s \<and> stat s i = Validated}"
  have sub: "?V \<subseteq> {min_validation_idx s ..< block_size s}" using sched_baseD(5)[OF base] by auto
  have "num_validated s = card ?V"
    unfolding sched_baseD(4)[OF base] validated_count_def length_filter_nth
      base_lengths(1)[OF base] ..
  then have "card {min_validation_idx s ..< block_size s} \<le> card ?V" using nv by simp
  then have eq: "?V = {min_validation_idx s ..< block_size s}"
    by (intro card_seteq) (use sub in auto)
  have "t \<in> ?V" unfolding eq using t by simp
  then show ?thesis by blast
qed

end
