(* ===== verification/Workers.thy ===== *)
theory Workers
  imports Vm_Replay Scheduler_Inv
begin

text \<open>
  The worker threads of \<open>execute_revm\<close> with \<open>try_execute\<close> and \<open>try_validate\<close> of
  \<open>src/src/pevm.rs\<close>, as an interleaved system.

  A worker is a point of its control flow. One step of a worker is one round of
  \<open>next_task\<close>, one call of the database by the EVM, one call of the multi-version memory, one
  call of another method of the scheduler, or one test of \<open>execution_error\<close>. The steps of
  different workers interleave arbitrarily.
\<close>

section \<open>The state\<close>

datatype worker =
    NextTask
  | StartExecution tx_version
  | RunEvm tx_version vm_run vm_db
  | AddDependency tx_version tx_idx
  | SetError tx_version execution_error
  | Record tx_version pevm_tx_execution_result read_locations write_set "tx_idx option"
  | FinishExecution tx_version bool "tx_idx option"
  | Validate tx_version
  | TryAbort tx_version
  | ConvertWrites tx_version
  | FinishValidation tx_version bool
  | CheckError "task option"
  | Stopped

record shared =
  sh_scheduler :: scheduler
  sh_memory :: mv_memory
  execution_error :: "execution_error option"
  execution_results :: "pevm_tx_execution_result option list"

record system =
  sys_shared :: shared
  sys_workers :: "worker list"

section \<open>Steps\<close>

fun begin_task :: "task \<Rightarrow> worker" where
  "begin_task (Execution v) = StartExecution v"
| "begin_task (Validation v) = Validate v"

fun after_execute :: "tx_version \<Rightarrow> vm_execution_result \<Rightarrow> worker" where
  "after_execute v VmRetry = StartExecution v"
| "after_execute v (VmReadError b) = AddDependency v b"
| "after_execute v (VmExecutionError e) = SetError v e"
| "after_execute v (VmOk res reads ws nxt) = Record v res reads ws nxt"

definition next_task_step :: "shared \<Rightarrow> (worker \<times> shared) panics" where
  "next_task_step sh =
     (case next_task_iter (sh_scheduler sh) of
        Inl p \<Rightarrow> Inl p
      | Inr (r, s) \<Rightarrow>
          Inr (case r of Break \<Rightarrow> Stopped | Continue \<Rightarrow> NextTask | Return t \<Rightarrow> begin_task t,
               sh\<lparr>sh_scheduler := s\<rparr>))"

text \<open>\<open>try_execute\<close>: one call inside \<open>vm.execute\<close>, or its end.\<close>

fun run_evm_step ::
  "revm \<Rightarrow> vm \<Rightarrow> tx_version \<Rightarrow> vm_run \<Rightarrow> vm_db \<Rightarrow> shared \<Rightarrow> (worker \<times> shared) panics" where
  "run_evm_step rv vm v (Evm_Done r) db sh =
     (case vm_finish rv vm (txs vm ! ver_idx v) db r of
        Inl p \<Rightarrow> Inl p
      | Inr x \<Rightarrow> Inr (after_execute v x, sh))"
| "run_evm_step rv vm v t db sh =
     (case evm_step (vm_database rv vm (sh_memory sh)) t db of (t', db') \<Rightarrow>
        Inr (RunEvm v t' db', sh))"

definition add_dependency_step :: "tx_version \<Rightarrow> tx_idx \<Rightarrow> shared \<Rightarrow> (worker \<times> shared) panics" where
  "add_dependency_step v b sh =
     (case add_dependency (ver_idx v) b (sh_scheduler sh) of
        Inl p \<Rightarrow> Inl p
      | Inr (added, s) \<Rightarrow>
          Inr (if added then CheckError None else StartExecution v, sh\<lparr>sh_scheduler := s\<rparr>))"

text \<open>\<open>execution_error.set(err).unwrap()\<close> fails when an error has been set before.\<close>

definition set_error_step :: "execution_error \<Rightarrow> shared \<Rightarrow> (worker \<times> shared) panics" where
  "set_error_step e sh =
     (case execution_error sh of
        None \<Rightarrow> Inr (CheckError None, sh\<lparr>execution_error := Some e\<rparr>)
      | Some _ \<Rightarrow> Inl Unwrap_failed)"

definition record_step ::
  "tx_version \<Rightarrow> pevm_tx_execution_result \<Rightarrow> read_locations \<Rightarrow> write_set \<Rightarrow> tx_idx option
   \<Rightarrow> shared \<Rightarrow> (worker \<times> shared) panics" where
  "record_step v res reads ws nxt sh =
     (case vec_get (execution_results sh) (ver_idx v) of
        Inl p \<Rightarrow> Inl p
      | Inr _ \<Rightarrow>
          (case mv_record v reads ws (sh_memory sh) of
             Inl p \<Rightarrow> Inl p
           | Inr (wrote_new, m) \<Rightarrow>
               Inr (FinishExecution v wrote_new nxt,
                    sh\<lparr>sh_memory := m,
                      execution_results := (execution_results sh)[ver_idx v := Some res]\<rparr>)))"

definition finish_execution_step ::
  "tx_version \<Rightarrow> bool \<Rightarrow> tx_idx option \<Rightarrow> shared \<Rightarrow> (worker \<times> shared) panics" where
  "finish_execution_step v wrote_new nxt sh =
     (case finish_execution v wrote_new nxt (sh_scheduler sh) of
        Inl p \<Rightarrow> Inl p
      | Inr (r, s) \<Rightarrow> Inr (CheckError r, sh\<lparr>sh_scheduler := s\<rparr>))"

text \<open>\<open>try_validate\<close>, call by call.\<close>

definition validate_step :: "tx_version \<Rightarrow> shared \<Rightarrow> (worker \<times> shared) panics" where
  "validate_step v sh =
     (case validate_read_locations (ver_idx v) (sh_memory sh) of
        Inl p \<Rightarrow> Inl p
      | Inr valid \<Rightarrow> Inr (if valid then FinishValidation v False else TryAbort v, sh))"

definition try_abort_step :: "tx_version \<Rightarrow> shared \<Rightarrow> (worker \<times> shared) panics" where
  "try_abort_step v sh =
     (case try_validation_abort v (sh_scheduler sh) of
        Inl p \<Rightarrow> Inl p
      | Inr (aborted, s) \<Rightarrow>
          Inr (if aborted then ConvertWrites v else FinishValidation v False,
               sh\<lparr>sh_scheduler := s\<rparr>))"

definition convert_step :: "tx_version \<Rightarrow> shared \<Rightarrow> (worker \<times> shared) panics" where
  "convert_step v sh =
     (case convert_writes_to_estimates (ver_idx v) (sh_memory sh) of
        Inl p \<Rightarrow> Inl p
      | Inr m \<Rightarrow> Inr (FinishValidation v True, sh\<lparr>sh_memory := m\<rparr>))"

definition finish_validation_step :: "tx_version \<Rightarrow> bool \<Rightarrow> shared \<Rightarrow> (worker \<times> shared) panics" where
  "finish_validation_step v aborted sh =
     (case finish_validation v aborted (sh_scheduler sh) of
        Inl p \<Rightarrow> Inl p
      | Inr (r, s) \<Rightarrow> Inr (CheckError r, sh\<lparr>sh_scheduler := s\<rparr>))"

definition check_error_step :: "task option \<Rightarrow> shared \<Rightarrow> (worker \<times> shared) panics" where
  "check_error_step r sh =
     Inr (if execution_error sh \<noteq> None then Stopped
          else (case r of None \<Rightarrow> NextTask | Some t \<Rightarrow> begin_task t), sh)"

fun worker_step ::
  "revm \<Rightarrow> read_error transact \<Rightarrow> vm \<Rightarrow> worker \<Rightarrow> shared \<Rightarrow> (worker \<times> shared) panics" where
  "worker_step rv transact vm NextTask sh = next_task_step sh"
| "worker_step rv transact vm (StartExecution v) sh =
     (case vm_start vm (ver_idx v) of
        Inl p \<Rightarrow> Inl p
      | Inr db \<Rightarrow> Inr (RunEvm v (tx_run transact vm (ver_idx v)) db, sh))"
| "worker_step rv transact vm (RunEvm v t db) sh = run_evm_step rv vm v t db sh"
| "worker_step rv transact vm (AddDependency v b) sh = add_dependency_step v b sh"
| "worker_step rv transact vm (SetError v e) sh = set_error_step e sh"
| "worker_step rv transact vm (Record v res reads ws nxt) sh = record_step v res reads ws nxt sh"
| "worker_step rv transact vm (FinishExecution v new nxt) sh = finish_execution_step v new nxt sh"
| "worker_step rv transact vm (Validate v) sh = validate_step v sh"
| "worker_step rv transact vm (TryAbort v) sh = try_abort_step v sh"
| "worker_step rv transact vm (ConvertWrites v) sh = convert_step v sh"
| "worker_step rv transact vm (FinishValidation v aborted) sh = finish_validation_step v aborted sh"
| "worker_step rv transact vm (CheckError r) sh = check_error_step r sh"
| "worker_step rv transact vm Stopped sh = Inr (Stopped, sh)"

text \<open>A step of the system is a step of one worker that has not stopped.\<close>

inductive sys_step :: "revm \<Rightarrow> read_error transact \<Rightarrow> vm \<Rightarrow> system \<Rightarrow> system \<Rightarrow> bool"
  for rv transact vm where
  worker: "w < length (sys_workers s) \<Longrightarrow> sys_workers s ! w \<noteq> Stopped \<Longrightarrow>
    worker_step rv transact vm (sys_workers s ! w) (sys_shared s) = Inr (k, sh) \<Longrightarrow>
    sys_step rv transact vm s \<lparr>sys_shared = sh, sys_workers = (sys_workers s)[w := k]\<rparr>"

inductive_cases sys_stepE: "sys_step rv transact vm s s'"

text \<open>The state at the start of the scope, with the scheduler and memory of the block.\<close>

definition sys_init :: "vm \<Rightarrow> scheduler \<Rightarrow> nat \<Rightarrow> system" where
  "sys_init vm s concurrency =
     (let n = length (txs vm) in
      \<lparr>sys_shared = \<lparr>sh_scheduler = s,
         sh_memory = mv_new n [(beneficiary_location_hash vm, [0..<n])],
         execution_error = None, execution_results = replicate n None\<rparr>,
       sys_workers = replicate concurrency NextTask\<rparr>)"

definition reachable ::
  "revm \<Rightarrow> read_error transact \<Rightarrow> vm \<Rightarrow> scheduler \<Rightarrow> nat \<Rightarrow> system \<Rightarrow> bool" where
  "reachable rv transact vm s0 concurrency s \<longleftrightarrow>
     (sys_step rv transact vm)\<^sup>*\<^sup>* (sys_init vm s0 concurrency) s"

fun is_stopped :: "worker \<Rightarrow> bool" where
  "is_stopped Stopped = True"
| "is_stopped _ = False"

definition all_stopped :: "system \<Rightarrow> bool" where
  "all_stopped s \<longleftrightarrow> list_all is_stopped (sys_workers s)"

lemma is_stopped_iff: "is_stopped k \<longleftrightarrow> k = Stopped"
  by (cases k) auto

lemma all_stopped_iff: "all_stopped s \<longleftrightarrow> (\<forall>k \<in> set (sys_workers s). k = Stopped)"
  by (simp add: all_stopped_def list_all_iff is_stopped_iff)

end
