(* ===== verification/Ownership.thy ===== *)
theory Ownership
  imports Workers
begin

text \<open>
  Who works on which transaction. The role of a worker is what its position means for the
  transactions: executing one that has not recorded yet, one that has recorded and not yet
  finished, converting the writes of an aborted one, rescheduling it, validating.

  \<open>own_inv\<close> ties the roles to the scheduler: a transaction is executing exactly if one
  worker executes it, and is aborted by a validation exactly if one worker reschedules it. It is
  kept by every transition of roles, which makes every call of the scheduler meet its
  precondition.
\<close>

section \<open>Roles\<close>

datatype role =
    Free
  | Pre tx_version
  | Finishing tx_version bool "tx_idx option"
  | Converting tx_version
  | Rescheduling tx_version
  | Checking tx_version
  | Confirming tx_version

fun task_role :: "task option \<Rightarrow> role" where
  "task_role None = Free"
| "task_role (Some (Execution v)) = Pre v"
| "task_role (Some (Validation v)) = Checking v"

fun role_of :: "worker \<Rightarrow> role" where
  "role_of NextTask = Free"
| "role_of (StartExecution v) = Pre v"
| "role_of (RunEvm v t db) = Pre v"
| "role_of (AddDependency v b) = Pre v"
| "role_of (SetError v e) = Pre v"
| "role_of (Record v res reads ws nxt) = Pre v"
| "role_of (FinishExecution v new nxt) = Finishing v new nxt"
| "role_of (Validate v) = Checking v"
| "role_of (TryAbort v) = Checking v"
| "role_of (ConvertWrites v) = Converting v"
| "role_of (FinishValidation v aborted) = (if aborted then Rescheduling v else Confirming v)"
| "role_of (CheckError r) = task_role r"
| "role_of Stopped = Free"

lemma role_begin_task [simp]: "role_of (begin_task t) = task_role (Some t)"
  by (cases t) auto

fun executes :: "role \<Rightarrow> tx_version option" where
  "executes (Pre v) = Some v"
| "executes (Finishing v new nxt) = Some v"
| "executes _ = None"

fun aborts :: "role \<Rightarrow> tx_version option" where
  "aborts (Converting v) = Some v"
| "aborts (Rescheduling v) = Some v"
| "aborts _ = None"

fun validates :: "role \<Rightarrow> tx_version option" where
  "validates (Checking v) = Some v"
| "validates (Confirming v) = Some v"
| "validates (Converting v) = Some v"
| "validates (Rescheduling v) = Some v"
| "validates _ = None"

definition owns :: "role \<Rightarrow> tx_idx option" where
  "owns r = map_option ver_idx (case executes r of Some v \<Rightarrow> Some v | None \<Rightarrow> aborts r)"

lemma owns_simps [simp]:
  "owns Free = None" "owns (Pre v) = Some (ver_idx v)"
  "owns (Finishing v new nxt) = Some (ver_idx v)" "owns (Converting v) = Some (ver_idx v)"
  "owns (Rescheduling v) = Some (ver_idx v)" "owns (Checking v) = None" "owns (Confirming v) = None"
  by (simp_all add: owns_def)

definition aborted :: "(nat \<Rightarrow> role) \<Rightarrow> tx_idx set" where
  "aborted R = {ver_idx v | v w. aborts (R w) = Some v}"

definition single_owners :: "(nat \<Rightarrow> role) \<Rightarrow> bool" where
  "single_owners R \<longleftrightarrow> (\<forall>w w' i. owns (R w) = Some i \<longrightarrow> owns (R w') = Some i \<longrightarrow> w = w')"

definition role_ok :: "scheduler \<Rightarrow> role \<Rightarrow> bool" where
  "role_ok s r \<longleftrightarrow>
     (\<forall>v. executes r = Some v \<longrightarrow> ver_idx v < block_size s \<and> stat s (ver_idx v) = Executing \<and>
        inc s (ver_idx v) = ver_incarnation v) \<and>
     (\<forall>v. validates r = Some v \<longrightarrow> ver_idx v < block_size s \<and> min_validation_idx s \<le> ver_idx v) \<and>
     (\<forall>v new nxt. r = Finishing v new nxt \<longrightarrow>
        (new \<or> min_validation_idx s \<le> ver_idx v) \<and> (\<forall>j. nxt = Some j \<longrightarrow> ver_idx v \<le> j))"

text \<open>Every executing transaction is executed by a worker.\<close>

definition all_owned :: "scheduler \<Rightarrow> (nat \<Rightarrow> role) \<Rightarrow> bool" where
  "all_owned s R \<longleftrightarrow>
     (\<forall>i < block_size s. stat s i = Executing \<longrightarrow> (\<exists>w v. executes (R w) = Some v \<and> ver_idx v = i))"

definition own_inv :: "bool \<Rightarrow> scheduler \<Rightarrow> (nat \<Rightarrow> role) \<Rightarrow> bool" where
  "own_inv err s R \<longleftrightarrow>
     sched_inv (aborted R) s \<and> single_owners R \<and> (\<forall>w. role_ok s (R w)) \<and> (err \<or> all_owned s R)"

lemma own_invD:
  assumes "own_inv err s R"
  shows "sched_inv (aborted R) s" "single_owners R" "role_ok s (R w)" "err \<or> all_owned s R"
  using assms by (auto simp: own_inv_def)

section \<open>Changing the role of one worker\<close>

lemma aborted_iff: "i \<in> aborted R \<longleftrightarrow> (\<exists>w v. aborts (R w) = Some v \<and> ver_idx v = i)"
  by (auto simp: aborted_def)

definition aborted_elsewhere :: "(nat \<Rightarrow> role) \<Rightarrow> nat \<Rightarrow> tx_idx \<Rightarrow> bool" where
  "aborted_elsewhere R w i \<longleftrightarrow> (\<exists>w' v. w' \<noteq> w \<and> aborts (R w') = Some v \<and> ver_idx v = i)"

lemma aborted_split:
  "i \<in> aborted R \<longleftrightarrow> map_option ver_idx (aborts (R w)) = Some i \<or> aborted_elsewhere R w i"
proof -
  have "map_option ver_idx (aborts (R w)) = Some i \<longleftrightarrow> (\<exists>v. aborts (R w) = Some v \<and> ver_idx v = i)"
    by auto
  moreover have "(\<exists>w v. P w v) \<longleftrightarrow> (\<exists>v. P w v) \<or> (\<exists>w' v. w' \<noteq> w \<and> P w' v)"
    for P :: "nat \<Rightarrow> tx_version \<Rightarrow> bool" by metis
  ultimately show ?thesis unfolding aborted_elsewhere_def aborted_iff by presburger
qed

lemma aborted_update:
  "i \<in> aborted (R(w := r)) \<longleftrightarrow> map_option ver_idx (aborts r) = Some i \<or> aborted_elsewhere R w i"
proof -
  have "aborted_elsewhere (R(w := r)) w i \<longleftrightarrow> aborted_elsewhere R w i"
    unfolding aborted_elsewhere_def by auto
  then show ?thesis by (subst aborted_split[of i _ w]) simp
qed

lemma aborted_same: "aborts r = aborts (R w) \<Longrightarrow> aborted (R(w := r)) = aborted R"
  by (rule set_eqI) (simp add: aborted_update aborted_split[of _ R w])

lemma aborted_insert:
  "aborts (R w) = None \<Longrightarrow> aborts r = Some v \<Longrightarrow> aborted (R(w := r)) = insert (ver_idx v) (aborted R)"
  by (rule set_eqI) (auto simp: aborted_update aborted_split[of _ R w])

lemma aborts_owns: "aborts r = Some v \<Longrightarrow> owns r = Some (ver_idx v)"
  by (cases r) auto

lemma single_ownersD: "single_owners R \<Longrightarrow> owns (R w) = Some i \<Longrightarrow> owns (R w') = Some i \<Longrightarrow> w' = w"
  unfolding single_owners_def by blast

lemma aborted_remove:
  assumes "single_owners R" "aborts (R w) = Some v" "aborts r = None"
  shows "aborted (R(w := r)) = aborted R - {ver_idx v}"
proof -
  have "\<not> aborted_elsewhere R w (ver_idx v)"
    using single_ownersD[OF assms(1) aborts_owns[OF assms(2)]] aborts_owns
    unfolding aborted_elsewhere_def by metis
  then show ?thesis
    using assms(2,3) by (intro set_eqI) (auto simp: aborted_update aborted_split[of _ R w])
qed

lemma single_owners_update:
  assumes so: "single_owners R" and r: "\<And>i w'. owns r = Some i \<Longrightarrow> w' \<noteq> w \<Longrightarrow> owns (R w') \<noteq> Some i"
  shows "single_owners (R(w := r))"
  unfolding single_owners_def
proof (intro allI impI)
  fix w1 w2 i assume o: "owns ((R(w := r)) w1) = Some i" "owns ((R(w := r)) w2) = Some i"
  consider "w1 = w" "w2 = w" | "w1 = w" "w2 \<noteq> w" | "w1 \<noteq> w" "w2 = w" | "w1 \<noteq> w" "w2 \<noteq> w" by blast
  then show "w1 = w2"
    using o r[of i] single_ownersD[OF so, of w2 i w1] by cases simp_all
qed

lemma owned_status:
  assumes "own_inv err s R" and "owns (R w) = Some i"
  shows "i < block_size s" "stat s i = Executing \<or> stat s i = Aborting"
proof -
  have "i < block_size s \<and> (stat s i = Executing \<or> stat s i = Aborting)"
  proof (cases "executes (R w)")
    case None
    then obtain v where "aborts (R w) = Some v" "i = ver_idx v" using assms(2) by (auto simp: owns_def)
    then have "i \<in> aborted R" by (auto simp: aborted_def)
    then show ?thesis using sched_baseD(6)[OF inv_base[OF own_invD(1)[OF assms(1)]]] by auto
  next
    case (Some v)
    then show ?thesis using own_invD(3)[OF assms(1), of w] assms(2) by (auto simp: role_ok_def owns_def)
  qed
  then show "i < block_size s" "stat s i = Executing \<or> stat s i = Aborting" by auto
qed

lemma not_owned:
  "own_inv err s R \<Longrightarrow> stat s i \<noteq> Executing \<Longrightarrow> stat s i \<noteq> Aborting \<Longrightarrow> owns (R w) \<noteq> Some i"
  using owned_status(2)[of err s R w i] by auto

lemma other_owner:
  "single_owners R \<Longrightarrow> owns (R w) = Some i \<Longrightarrow> w' \<noteq> w \<Longrightarrow> owns (R w') \<noteq> Some i"
  unfolding single_owners_def by metis

lemma executes_owns: "executes r = Some v \<Longrightarrow> owns r = Some (ver_idx v)"
  by (cases r) auto

text \<open>
  The roles of the other workers stay correct as long as the transactions they execute keep
  status and incarnation.
\<close>

lemma role_ok_frame:
  assumes "role_ok s r" and "block_size s' = block_size s"
    and "min_validation_idx s' \<le> min_validation_idx s"
    and "\<And>v. executes r = Some v \<Longrightarrow> stat s' (ver_idx v) = stat s (ver_idx v) \<and>
      inc s' (ver_idx v) = inc s (ver_idx v)"
  shows "role_ok s' r"
  using assms unfolding role_ok_def by (cases r) (auto intro: le_trans)

lemma own_invI:
  assumes inv: "own_inv err s R" and s': "sched_inv (aborted (R(w := r))) s'"
    and so: "\<And>i. owns r = Some i \<Longrightarrow> owns (R w) = Some i \<or> (stat s i \<noteq> Executing \<and> stat s i \<noteq> Aborting)
       \<or> (\<forall>w'. owns (R w') \<noteq> Some i)"
    and r: "role_ok s' r" and size: "block_size s' = block_size s"
    and le: "min_validation_idx s' \<le> min_validation_idx s"
    and keep: "\<And>i. i < block_size s \<Longrightarrow> stat s i = Executing \<Longrightarrow> owns (R w) \<noteq> Some i \<Longrightarrow>
      stat s' i = Executing \<and> inc s' i = inc s i"
    and new: "\<And>i. i < block_size s \<Longrightarrow> stat s' i = Executing \<Longrightarrow>
      err' \<or> (\<exists>v. executes r = Some v \<and> ver_idx v = i) \<or> (stat s i = Executing \<and> owns (R w) \<noteq> Some i)"
    and err: "err \<longrightarrow> err'"
  shows "own_inv err' s' (R(w := r))"
  unfolding own_inv_def
proof (intro conjI)
  show "sched_inv (aborted (R(w := r))) s'" by (rule s')
  show "single_owners (R(w := r))"
    using so other_owner[OF own_invD(2)[OF inv]] not_owned[OF inv]
    by (intro single_owners_update own_invD(2)[OF inv]) blast
  show "\<forall>w'. role_ok s' ((R(w := r)) w')"
  proof
    fix w'
    show "role_ok s' ((R(w := r)) w')"
    proof (cases "w' = w")
      case False
      have "role_ok s' (R w')"
      proof (rule role_ok_frame[OF own_invD(3)[OF inv] size le])
        fix v assume v: "executes (R w') = Some v"
        then have "ver_idx v < block_size s" "stat s (ver_idx v) = Executing"
          using own_invD(3)[OF inv, of w'] by (auto simp: role_ok_def)
        moreover have "owns (R w) \<noteq> Some (ver_idx v)"
          using other_owner[OF own_invD(2)[OF inv] executes_owns[OF v], of w] False by auto
        ultimately show "stat s' (ver_idx v) = stat s (ver_idx v) \<and> inc s' (ver_idx v) = inc s (ver_idx v)"
          using keep by auto
      qed
      then show ?thesis using False by simp
    qed (simp add: r)
  qed
  show "err' \<or> all_owned s' (R(w := r))"
  proof (rule disjCI)
    assume "\<not> all_owned s' (R(w := r))"
    then obtain i where i: "i < block_size s" "stat s' i = Executing"
      "\<forall>w' v. executes ((R(w := r)) w') = Some v \<longrightarrow> ver_idx v \<noteq> i"
      by (auto simp: all_owned_def size)
    show err'
    proof (rule ccontr)
      assume "\<not> err'"
      then have "stat s i = Executing" "owns (R w) \<noteq> Some i" "all_owned s R"
        using new[OF i(1,2)] i(3) err own_invD(4)[OF inv] by (auto split: if_splits)
      then obtain w' v where "executes (R w') = Some v" "ver_idx v = i"
        using i(1) by (auto simp: all_owned_def)
      moreover from this have "w' \<noteq> w" using \<open>owns (R w) \<noteq> Some i\<close> executes_owns by auto
      ultimately show False using i(3) by (metis fun_upd_other)
    qed
  qed
qed

section \<open>The transitions\<close>

text \<open>Changes of role that leave the scheduler as it is.\<close>

lemma own_same_sched:
  assumes inv: "own_inv err s R" and r: "role_ok s r" "aborts r = aborts (R w)"
    and o: "owns r = owns (R w) \<or> owns r = None" and e: "executes r = executes (R w) \<or> err'"
    and err: "err \<longrightarrow> err'"
  shows "own_inv err' s (R(w := r))"
proof (rule own_invI[OF inv _ _ r(1) refl order_refl])
  show "sched_inv (aborted (R(w := r))) s" using own_invD(1)[OF inv] by (simp add: aborted_same r(2))
  show "err' \<or> (\<exists>v. executes r = Some v \<and> ver_idx v = i) \<or> (stat s i = Executing \<and> owns (R w) \<noteq> Some i)"
    if "i < block_size s" "stat s i = Executing" for i
  proof (cases "owns (R w) = Some i \<and> \<not> err'")
    case True
    have "aborts (R w) = None"
    proof (rule ccontr)
      assume "aborts (R w) \<noteq> None"
      then obtain v where v: "aborts (R w) = Some v" by auto
      then have "ver_idx v \<in> aborted R" by (auto simp: aborted_iff)
      then show False
        using sched_baseD(6)[OF inv_base[OF own_invD(1)[OF inv]]] aborts_owns[OF v] True that by auto
    qed
    then show ?thesis using True e by (cases "R w") auto
  qed (use that in auto)
qed (use o err in auto)

lemma role_ok_Free [simp]: "role_ok s Free"
  by (simp add: role_ok_def)

lemma role_ok_Checking [simp]:
  "role_ok s (Checking v) \<longleftrightarrow> ver_idx v < block_size s \<and> min_validation_idx s \<le> ver_idx v"
  "role_ok s (Confirming v) \<longleftrightarrow> ver_idx v < block_size s \<and> min_validation_idx s \<le> ver_idx v"
  "role_ok s (Converting v) \<longleftrightarrow> ver_idx v < block_size s \<and> min_validation_idx s \<le> ver_idx v"
  "role_ok s (Rescheduling v) \<longleftrightarrow> ver_idx v < block_size s \<and> min_validation_idx s \<le> ver_idx v"
  by (auto simp: role_ok_def)

lemma role_ok_Pre [simp]:
  "role_ok s (Pre v) \<longleftrightarrow> ver_idx v < block_size s \<and> stat s (ver_idx v) = Executing \<and>
     inc s (ver_idx v) = ver_incarnation v"
  by (auto simp: role_ok_def)

lemma role_ok_Finishing [simp]:
  "role_ok s (Finishing v new nxt) \<longleftrightarrow> ver_idx v < block_size s \<and> stat s (ver_idx v) = Executing \<and>
     inc s (ver_idx v) = ver_incarnation v \<and> (new \<or> min_validation_idx s \<le> ver_idx v) \<and>
     (\<forall>j. nxt = Some j \<longrightarrow> ver_idx v \<le> j)"
  by (auto simp: role_ok_def)

text \<open>Changes of the scheduler that leave every status as it is.\<close>

lemma own_same_status:
  assumes inv: "own_inv err s R" and s': "sched_inv (aborted R) s'"
    and st: "transactions_status s' = transactions_status s" and size: "block_size s' = block_size s"
    and le: "min_validation_idx s' \<le> min_validation_idx s" and R: "R w = Free"
    and r: "role_ok s' r" "owns r = None"
  shows "own_inv err s' (R(w := r))"
proof -
  have a: "aborts r = None" using r(2) by (cases r) auto
  show ?thesis
    by (rule own_invI[OF inv _ _ r(1) size le]) (use s' r(2) R a in \<open>auto simp: aborted_same st\<close>)
qed

lemma pickedD:
  assumes "picked s v s'" and "length (transactions_status s) = block_size s"
  shows "ver_idx v < block_size s" "stat s (ver_idx v) = ReadyToExecute"
    "ver_incarnation v = inc s (ver_idx v)" "block_size s' = block_size s"
    "min_validation_idx s' = min_validation_idx s" "validation_idx s' = validation_idx s"
    "stat s' t = (if t = ver_idx v then Executing else stat s t)" "inc s' t = inc s t"
  using assms by (auto simp: picked_def stat_set_status)

lemma own_picked:
  assumes inv: "own_inv err s R" and R: "aborts (R w) = None" "executes (R w) = None"
    and s': "sched_inv (aborted R) s'" and p: "picked s v s'"
  shows "own_inv err s' (R(w := Pre v))"
proof -
  note D = pickedD[OF p base_lengths(1)[OF inv_base[OF own_invD(1)[OF inv]]]]
  have o: "owns (R w) = None" using R by (simp add: owns_def)
  show ?thesis
    by (rule own_invI[OF inv]) (use s' R D o in \<open>auto simp: aborted_same split: if_splits\<close>)
qed

lemma own_dependency:
  assumes inv: "own_inv err s R" and R: "R w = Pre v" and s': "sched_inv (aborted R) s'"
    and st: "transactions_status s' = transactions_status (set_status (ver_idx v) Aborting s)"
    and size: "block_size s' = block_size s" and le: "min_validation_idx s' = min_validation_idx s"
  shows "own_inv err s' (R(w := Free))"
proof -
  have "ver_idx v < length (transactions_status s)"
    using own_invD(3)[OF inv, of w] R base_lengths(1)[OF inv_base[OF own_invD(1)[OF inv]]] by simp
  note stat = stat_set_status[OF this, of Aborting, folded st]
  have inc: "inc s' t = inc s t" for t unfolding st by simp
  show ?thesis
    by (rule own_invI[OF inv _ _ role_ok_Free size])
      (use s' R le stat inc in \<open>auto simp: aborted_same split: if_splits\<close>)
qed

lemma own_finish_execution:
  assumes inv: "own_inv err s R" and R: "R w = Finishing v new nxt"
    and run: "finish_execution v new nxt s = Inr (r, s')"
  shows "own_inv err s' (R(w := task_role r))"
    and "\<exists>s1. resume_effect (ver_idx v) s s1 \<and> sched_inv (aborted R) s1 \<and>
      schedule_validation v new nxt s1 = (r, s')"
proof -
  note base = inv_base[OF own_invD(1)[OF inv]]
  have v: "ver_idx v < block_size s" "stat s (ver_idx v) = Executing"
    using own_invD(3)[OF inv, of w] R by simp_all
  obtain s1 where s1: "resume_effect (ver_idx v) s s1" "sched_inv (aborted R) s1"
    "schedule_validation v new nxt s1 = (r, s')"
    using finish_execution_resume[OF own_invD(1)[OF inv] v, of new nxt] run by auto
  then show "\<exists>s1. resume_effect (ver_idx v) s s1 \<and> sched_inv (aborted R) s1 \<and>
      schedule_validation v new nxt s1 = (r, s')" by blast
  note E = resume_effectD[OF s1(1)] and V = schedule_validation_ok[OF s1(2,3)]
  have r: "r = None \<or> r = Some (Validation v)" by (rule V(8))
  have wait: "resumed (ver_idx v) s t \<Longrightarrow> stat s t = Aborting" for t
    by (rule resumed_waiting(1)[OF base v(1)])
  show "own_inv err s' (R(w := task_role r))"
  proof (rule own_invI[OF inv])
    show "sched_inv (aborted (R(w := task_role r))) s'"
      using V(1) r R by (auto simp: aborted_same)
    show "role_ok s' (task_role r)" using V(3,9) r v(1) E(1) by auto
    show "block_size s' = block_size s" "min_validation_idx s' \<le> min_validation_idx s"
      using V(3,6) E(1,3) by (auto simp: lowered_min_def split: option.splits)
    show "stat s' i = Executing \<and> inc s' i = inc s i"
      if "i < block_size s" "stat s i = Executing" "owns (R w) \<noteq> Some i" for i
      using that R wait[of i] by (auto simp: V(2) E(10,11))
    show "err \<or> (\<exists>v. executes (task_role r) = Some v \<and> ver_idx v = i) \<or>
        stat s i = Executing \<and> owns (R w) \<noteq> Some i"
      if "i < block_size s" "stat s' i = Executing" for i
      using that R by (auto simp: V(2) E(10) split: if_splits)
  qed (use r in auto)
qed

lemma own_abort:
  assumes inv: "own_inv err s R" and R: "R w = Checking v"
    and s': "sched_inv (insert (ver_idx v) (aborted R)) s'"
    and st: "s' = (set_status (ver_idx v) Aborting s)\<lparr>num_validated := k\<rparr>"
    and was: "is_done (stat s (ver_idx v))"
  shows "own_inv err s' (R(w := Converting v))"
proof -
  have v: "ver_idx v < block_size s" "min_validation_idx s \<le> ver_idx v"
    using own_invD(3)[OF inv, of w] R by simp_all
  have "ver_idx v < length (transactions_status s)"
    using v base_lengths(1)[OF inv_base[OF own_invD(1)[OF inv]]] by simp
  note stat = stat_set_status[OF this, of Aborting]
  show ?thesis
    by (rule own_invI[OF inv])
      (use s' R v was stat in \<open>auto simp: aborted_insert[of R w "Converting v" v] st split: if_splits\<close>)
qed

lemma own_reschedule:
  assumes inv: "own_inv err s R" and R: "R w = Rescheduling v"
    and run: "finish_validation v True s = Inr (r, s')"
  shows "own_inv err s' (R(w := task_role r))"
    and "\<exists>s1. s1 = s\<lparr>transactions_status := (transactions_status s)
           [ver_idx v := \<lparr>incarnation = inc s (ver_idx v) + 1, status = ReadyToExecute\<rparr>],
         validation_idx := min (validation_idx s) (ver_idx v + 1)\<rparr> \<and>
      (r = None \<and> s' = s1 \<or> (\<exists>u. r = Some (Execution u) \<and> ver_idx u = ver_idx v \<and> picked s1 u s'))"
proof -
  have v: "ver_idx v < block_size s" "min_validation_idx s \<le> ver_idx v"
    using own_invD(3)[OF inv, of w] R by simp_all
  have A: "ver_idx v \<in> aborted R" unfolding aborted_iff by (rule exI[of _ w]) (simp add: R)
  define s1 where "s1 = s\<lparr>transactions_status := (transactions_status s)
           [ver_idx v := \<lparr>incarnation = inc s (ver_idx v) + 1, status = ReadyToExecute\<rparr>],
         validation_idx := min (validation_idx s) (ver_idx v + 1)\<rparr>"
  have s': "sched_inv (aborted R - {ver_idx v}) s'"
    and c: "r = None \<and> s' = s1 \<or> (\<exists>u. r = Some (Execution u) \<and> ver_idx u = ver_idx v \<and> picked s1 u s')"
    using finish_validation_aborted_ok[OF own_invD(1)[OF inv] A v(2)] run
    by (auto simp: s1_def split: option.splits task.splits)
  then show "\<exists>s1. s1 = s\<lparr>transactions_status := (transactions_status s)
           [ver_idx v := \<lparr>incarnation = inc s (ver_idx v) + 1, status = ReadyToExecute\<rparr>],
         validation_idx := min (validation_idx s) (ver_idx v + 1)\<rparr> \<and>
      (r = None \<and> s' = s1 \<or> (\<exists>u. r = Some (Execution u) \<and> ver_idx u = ver_idx v \<and> picked s1 u s'))"
    unfolding s1_def by blast
  have len: "length (transactions_status s) = block_size s"
    by (rule base_lengths(1)[OF inv_base[OF own_invD(1)[OF inv]]])
  have f1: "block_size s1 = block_size s" "min_validation_idx s1 = min_validation_idx s"
    "length (transactions_status s1) = block_size s1" by (simp_all add: s1_def len)
  have st1: "transactions_status s1 ! t = (if t = ver_idx v
      then \<lparr>incarnation = inc s t + 1, status = ReadyToExecute\<rparr> else transactions_status s ! t)" for t
    using v len by (simp add: s1_def nth_list_update)
  have ab: "aborted (R(w := task_role r)) = aborted R - {ver_idx v}"
    by (rule aborted_remove[OF own_invD(2)[OF inv]]) (use R c in auto)
  have ex: "stat s (ver_idx v) = Aborting"
    using sched_baseD(6)[OF inv_base[OF own_invD(1)[OF inv]] A] by simp
  show "own_inv err s' (R(w := task_role r))"
    using c
  proof (elim disjE conjE exE)
    assume "r = None" "s' = s1"
    then show ?thesis using s' ab R ex f1
      by (intro own_invI[OF inv]) (auto simp: st1 split: if_splits)
  next
    fix u assume u: "r = Some (Execution u)" "ver_idx u = ver_idx v" and p: "picked s1 u s'"
    note D = pickedD[OF p f1(3)]
    show ?thesis using s' ab R ex f1 u D
      by (intro own_invI[OF inv]) (auto simp: st1 split: if_splits)
  qed
qed

lemma own_validated:
  assumes inv: "own_inv err s R" and R: "R w = Confirming v"
    and run: "finish_validation v False s = Inr (r, s')"
  shows "r = None" and "own_inv err s' (R(w := Free))"
    and "s' = (if stat s (ver_idx v) = Executed
      then (set_status (ver_idx v) Validated s)\<lparr>num_validated := num_validated s + 1\<rparr> else s)"
proof -
  have v: "ver_idx v < block_size s" "min_validation_idx s \<le> ver_idx v"
    using own_invD(3)[OF inv, of w] R by simp_all
  from finish_validation_ok[OF own_invD(1)[OF inv] v] run
  show "r = None" and s': "s' = (if stat s (ver_idx v) = Executed
      then (set_status (ver_idx v) Validated s)\<lparr>num_validated := num_validated s + 1\<rparr> else s)"
    by (auto split: if_splits)
  have inv': "sched_inv (aborted R) s'"
    using finish_validation_ok[OF own_invD(1)[OF inv] v] run by auto
  have "ver_idx v < length (transactions_status s)"
    using v base_lengths(1)[OF inv_base[OF own_invD(1)[OF inv]]] by simp
  note stat = stat_set_status[OF this, of Validated]
  show "own_inv err s' (R(w := Free))"
    by (rule own_invI[OF inv]) (use inv' R stat in \<open>auto simp: aborted_same s' split: if_splits\<close>)
qed

end
