(* ===== verification/History.thy ===== *)
theory History
  imports Ownership
begin

text \<open>
  What has been executed and recorded. A history maps every recorded version of a transaction
  to what its execution returned. \<open>hist_inv\<close> ties the history to the multi-version memory, the
  results and the scheduler: a transaction that has recorded its present incarnation has its
  writes in the memory until they become estimates, one that has not has no value there, and
  every recorded execution can be replayed on any memory in which its reads validate.
\<close>

section \<open>Histories\<close>

record recorded =
  rec_result :: pevm_tx_execution_result
  rec_reads :: read_locations
  rec_writes :: write_set
  rec_next :: "tx_idx option"

type_synonym history = "tx_version \<rightharpoonup> recorded"

definition history_values :: "history \<Rightarrow> version_values" where
  "history_values H = (\<lambda>v l. case H v of None \<Rightarrow> None | Some r \<Rightarrow> map_of (rev (rec_writes r)) l)"

text \<open>Slot values are written to slot locations only.\<close>

definition slots_apart :: "vm \<Rightarrow> write_set \<Rightarrow> bool" where
  "slots_apart vm ws \<longleftrightarrow>
     (\<forall>l x. (l, ValStorage x) \<in> set ws \<longrightarrow> (\<exists>a k. l = hash_one vm (LocStorage a k)))"

definition replayable ::
  "revm \<Rightarrow> read_error transact \<Rightarrow> vm \<Rightarrow> version_values \<Rightarrow> tx_idx \<Rightarrow> recorded \<Rightarrow> bool" where
  "replayable rv transact vm G i r \<longleftrightarrow>
     beneficiary_location_hash vm \<in> fst ` set (rec_writes r) \<and>
     slots_apart vm (rec_writes r) \<and>
     (\<forall>(l, os) \<in> set (rec_reads r). origins_ok os) \<and>
     (\<forall>m' G'. values_extend G G' \<longrightarrow> mv_inv m' \<longrightarrow> mv_values G' m' \<longrightarrow>
        reads_valid m' i (rec_reads r) \<longrightarrow>
        vm_execute rv transact vm m' i =
          Inr (VmOk (rec_result r) (rec_reads r) (rec_writes r) (rec_next r)))"

lemma replayable_extend:
  "values_extend G G' \<Longrightarrow> replayable rv transact vm G i r \<Longrightarrow> replayable rv transact vm G' i r"
  unfolding replayable_def using values_extend_trans by blast

lemma history_values_extend: "H v = None \<Longrightarrow> values_extend (history_values H) (history_values (H(v \<mapsto> r)))"
  by (auto simp: values_extend_def history_values_def)

section \<open>Transactions that have recorded\<close>

fun holds_data :: "role \<Rightarrow> tx_idx option" where
  "holds_data (Finishing v new nxt) = Some (ver_idx v)"
| "holds_data (Converting v) = Some (ver_idx v)"
| "holds_data _ = None"

fun holds_record :: "role \<Rightarrow> tx_idx option" where
  "holds_record (Finishing v new nxt) = Some (ver_idx v)"
| "holds_record (Converting v) = Some (ver_idx v)"
| "holds_record (Rescheduling v) = Some (ver_idx v)"
| "holds_record _ = None"

definition some_role :: "(role \<Rightarrow> tx_idx option) \<Rightarrow> (nat \<Rightarrow> role) \<Rightarrow> tx_idx \<Rightarrow> bool" where
  "some_role f R i \<longleftrightarrow> (\<exists>w. f (R w) = Some i)"

text \<open>The writes of the transaction are in the memory; its present incarnation has recorded.\<close>

definition live :: "scheduler \<Rightarrow> (nat \<Rightarrow> role) \<Rightarrow> tx_idx \<Rightarrow> bool" where
  "live s R i \<longleftrightarrow> is_done (stat s i) \<or> some_role holds_data R i"

definition current :: "scheduler \<Rightarrow> (nat \<Rightarrow> role) \<Rightarrow> tx_idx \<Rightarrow> bool" where
  "current s R i \<longleftrightarrow> is_done (stat s i) \<or> some_role holds_record R i"

lemma holds_owns:
  "holds_data r = Some i \<Longrightarrow> owns r = Some i"
  "holds_record r = Some i \<Longrightarrow> owns r = Some i"
  by (cases r; simp)+

lemma live_current: "live s R i \<Longrightarrow> current s R i"
proof -
  have "holds_data r = Some i \<Longrightarrow> holds_record r = Some i" for r by (cases r) auto
  then show "live s R i \<Longrightarrow> current s R i" unfolding live_def current_def some_role_def by blast
qed

lemma some_role_update:
  assumes "single_owners R" and f: "\<And>r i. f r = Some i \<Longrightarrow> owns r = Some i"
    and "owns (R w) = Some j"
  shows "some_role f (R(w := r)) i \<longleftrightarrow> f r = Some i \<or> i \<noteq> j \<and> some_role f R i"
proof -
  have "w' = w" if "f (R w') = Some j" for w' using single_ownersD[OF assms(1,3)] f[OF that] by simp
  moreover have "f (R w) = Some i \<Longrightarrow> i = j" using f[of "R w" i] assms(3) by simp
  ultimately show ?thesis unfolding some_role_def fun_upd_def by (metis (full_types))
qed

lemma some_role_update_free:
  assumes f: "\<And>r i. f r = Some i \<Longrightarrow> owns r = Some i" and "owns (R w) = None"
  shows "some_role f (R(w := r)) i \<longleftrightarrow> f r = Some i \<or> some_role f R i"
proof -
  have "f (R w) \<noteq> Some i" using f[of "R w" i] assms(2) by auto
  then show ?thesis unfolding some_role_def fun_upd_def by (metis (full_types))
qed

lemma role_updates:
  "single_owners R \<Longrightarrow> owns (R w) = Some j \<Longrightarrow>
     some_role holds_data (R(w := r)) i \<longleftrightarrow> holds_data r = Some i \<or> i \<noteq> j \<and> some_role holds_data R i"
  "single_owners R \<Longrightarrow> owns (R w) = Some j \<Longrightarrow>
     some_role holds_record (R(w := r)) i \<longleftrightarrow> holds_record r = Some i \<or> i \<noteq> j \<and> some_role holds_record R i"
  "owns (R w) = None \<Longrightarrow>
     some_role holds_data (R(w := r)) i \<longleftrightarrow> holds_data r = Some i \<or> some_role holds_data R i"
  "owns (R w) = None \<Longrightarrow>
     some_role holds_record (R(w := r)) i \<longleftrightarrow> holds_record r = Some i \<or> some_role holds_record R i"
  by (rule some_role_update some_role_update_free; auto simp: holds_owns)+

lemma some_role_owner:
  "some_role holds_data R i \<Longrightarrow> \<exists>w. owns (R w) = Some i"
  "some_role holds_record R i \<Longrightarrow> \<exists>w. owns (R w) = Some i"
  unfolding some_role_def using holds_owns by blast+

section \<open>The invariant\<close>

definition hist_inv ::
  "revm \<Rightarrow> read_error transact \<Rightarrow> vm \<Rightarrow> scheduler \<Rightarrow> mv_memory \<Rightarrow> pevm_tx_execution_result option list
   \<Rightarrow> (nat \<Rightarrow> role) \<Rightarrow> history \<Rightarrow> bool" where
  "hist_inv rv transact vm s m res R H \<longleftrightarrow>
     mv_inv m \<and> length (mv_last m) = block_size s \<and> length res = block_size s \<and>
     (\<forall>v r. H v = Some r \<longrightarrow>
        ver_idx v < block_size s \<and> replayable rv transact vm (history_values H) (ver_idx v) r \<and>
        (ver_incarnation v < inc s (ver_idx v) \<or>
         ver_incarnation v = inc s (ver_idx v) \<and> current s R (ver_idx v))) \<and>
     (\<forall>i < block_size s. current s R i \<longrightarrow>
        (\<exists>r. H \<lparr>ver_idx = i, ver_incarnation = inc s i\<rparr> = Some r \<and> res ! i = Some (rec_result r) \<and>
             mv_last m ! i = \<lparr>last_read = rec_reads r, last_write = map fst (rec_writes r)\<rparr>)) \<and>
     (\<forall>i < block_size s. live s R i \<longrightarrow>
        (\<forall>l. mv_get m l i = map_option (Data (inc s i))
               (history_values H \<lparr>ver_idx = i, ver_incarnation = inc s i\<rparr> l))) \<and>
     (\<forall>i < block_size s. \<not> live s R i \<longrightarrow>
        (\<forall>l k x. mv_get m l i \<noteq> Some (Data k x)) \<and>
        (last_write (mv_last m ! i) \<noteq> [] \<longrightarrow> min_validation_idx s \<le> i)) \<and>
     (\<forall>i l. mv_get m l i = Some Estimate \<longrightarrow>
        i < block_size s \<and> (l \<in> set (last_write (mv_last m ! i)) \<or> l = beneficiary_location_hash vm))"

lemma hist_invD:
  assumes "hist_inv rv transact vm s m res R H"
  shows "mv_inv m" "length (mv_last m) = block_size s" "length res = block_size s"
    and "H v = Some r \<Longrightarrow> ver_idx v < block_size s"
    and "H v = Some r \<Longrightarrow> replayable rv transact vm (history_values H) (ver_idx v) r"
    and "H v = Some r \<Longrightarrow> ver_incarnation v < inc s (ver_idx v) \<or>
         ver_incarnation v = inc s (ver_idx v) \<and> current s R (ver_idx v)"
    and "i < block_size s \<Longrightarrow> current s R i \<Longrightarrow>
        \<exists>r. H \<lparr>ver_idx = i, ver_incarnation = inc s i\<rparr> = Some r \<and> res ! i = Some (rec_result r) \<and>
             mv_last m ! i = \<lparr>last_read = rec_reads r, last_write = map fst (rec_writes r)\<rparr>"
    and "i < block_size s \<Longrightarrow> live s R i \<Longrightarrow> mv_get m l i = map_option (Data (inc s i))
               (history_values H \<lparr>ver_idx = i, ver_incarnation = inc s i\<rparr> l)"
    and "i < block_size s \<Longrightarrow> \<not> live s R i \<Longrightarrow> mv_get m l i \<noteq> Some (Data k x)"
    and "i < block_size s \<Longrightarrow> \<not> live s R i \<Longrightarrow> last_write (mv_last m ! i) \<noteq> [] \<Longrightarrow> min_validation_idx s \<le> i"
    and "mv_get m l i = Some Estimate \<Longrightarrow>
        i < block_size s \<and> (l \<in> set (last_write (mv_last m ! i)) \<or> l = beneficiary_location_hash vm)"
  using assms unfolding hist_inv_def by blast+

lemma hist_invI:
  assumes "mv_inv m" "length (mv_last m) = block_size s" "length res = block_size s"
    and "\<And>v r. H v = Some r \<Longrightarrow> ver_idx v < block_size s"
    and "\<And>v r. H v = Some r \<Longrightarrow> replayable rv transact vm (history_values H) (ver_idx v) r"
    and "\<And>v r. H v = Some r \<Longrightarrow> ver_incarnation v < inc s (ver_idx v) \<or>
         ver_incarnation v = inc s (ver_idx v) \<and> current s R (ver_idx v)"
    and "\<And>i. i < block_size s \<Longrightarrow> current s R i \<Longrightarrow>
        \<exists>r. H \<lparr>ver_idx = i, ver_incarnation = inc s i\<rparr> = Some r \<and> res ! i = Some (rec_result r) \<and>
             mv_last m ! i = \<lparr>last_read = rec_reads r, last_write = map fst (rec_writes r)\<rparr>"
    and "\<And>i l. i < block_size s \<Longrightarrow> live s R i \<Longrightarrow> mv_get m l i = map_option (Data (inc s i))
               (history_values H \<lparr>ver_idx = i, ver_incarnation = inc s i\<rparr> l)"
    and "\<And>i l k x. i < block_size s \<Longrightarrow> \<not> live s R i \<Longrightarrow> mv_get m l i \<noteq> Some (Data k x)"
    and "\<And>i. i < block_size s \<Longrightarrow> \<not> live s R i \<Longrightarrow> last_write (mv_last m ! i) \<noteq> [] \<Longrightarrow> min_validation_idx s \<le> i"
    and "\<And>i l. mv_get m l i = Some Estimate \<Longrightarrow>
        i < block_size s \<and> (l \<in> set (last_write (mv_last m ! i)) \<or> l = beneficiary_location_hash vm)"
  shows "hist_inv rv transact vm s m res R H"
  using assms unfolding hist_inv_def by blast

text \<open>The values in the memory are those of the history.\<close>

lemma hist_values:
  assumes inv: "hist_inv rv transact vm s m res R H"
  shows "mv_values (history_values H) m"
  unfolding mv_values_def
proof (intro allI impI)
  fix l i n v assume e: "mv_get m l i = Some (Data n v)"
  have i: "i < block_size s" using mv_invD(3)[OF hist_invD(1)[OF inv] e] hist_invD(2)[OF inv] by simp
  have "live s R i" using hist_invD(9)[OF inv i] e by blast
  from hist_invD(8)[OF inv i this, of l] e
  have "map_option (Data (inc s i)) (history_values H \<lparr>ver_idx = i, ver_incarnation = inc s i\<rparr> l)
    = Some (Data n v)" by simp
  then show "history_values H \<lparr>ver_idx = i, ver_incarnation = n\<rparr> l = Some v" by auto
qed

text \<open>
  A change of the scheduler and the roles without change of the memory: incarnations do not
  decrease, and grow where a recorded incarnation is given up.
\<close>

lemma hist_frame:
  assumes inv: "hist_inv rv transact vm s m res R H" and size: "block_size s' = block_size s"
    and le: "min_validation_idx s' \<le> min_validation_idx s"
    and live: "\<And>i. i < block_size s \<Longrightarrow> live s' R' i = live s R i"
    and cur: "\<And>i. i < block_size s \<Longrightarrow> current s' R' i \<Longrightarrow> current s R i \<and> inc s' i = inc s i"
    and inc: "\<And>i. i < block_size s \<Longrightarrow> inc s i \<le> inc s' i"
    and drop: "\<And>i. i < block_size s \<Longrightarrow> current s R i \<Longrightarrow> \<not> current s' R' i \<Longrightarrow> inc s i < inc s' i"
  shows "hist_inv rv transact vm s' m res R' H"
proof (rule hist_invI, unfold size)
  note D = hist_invD[OF inv]
  show "ver_incarnation v < inc s' (ver_idx v) \<or>
      ver_incarnation v = inc s' (ver_idx v) \<and> current s' R' (ver_idx v)" if "H v = Some r" for v r
  proof -
    note i = D(4)[OF that]
    from D(6)[OF that] show ?thesis
    proof
      assume "ver_incarnation v < inc s (ver_idx v)"
      then show ?thesis using inc[OF i] by simp
    next
      assume "ver_incarnation v = inc s (ver_idx v) \<and> current s R (ver_idx v)"
      then show ?thesis using drop[OF i] cur[OF i] by (cases "current s' R' (ver_idx v)") auto
    qed
  qed
  show "\<exists>r. H \<lparr>ver_idx = i, ver_incarnation = inc s' i\<rparr> = Some r \<and> res ! i = Some (rec_result r) \<and>
      mv_last m ! i = \<lparr>last_read = rec_reads r, last_write = map fst (rec_writes r)\<rparr>"
    if "i < block_size s" "current s' R' i" for i
    using D(7)[OF that(1)] cur[OF that] by simp
  show "mv_get m l i = map_option (Data (inc s' i))
      (history_values H \<lparr>ver_idx = i, ver_incarnation = inc s' i\<rparr> l)"
    if "i < block_size s" "live s' R' i" for i l
    using D(8)[OF that(1)] live[OF that(1)] that(2) cur[OF that(1) live_current[OF that(2)]] by simp
  show "min_validation_idx s' \<le> i"
    if "i < block_size s" "\<not> live s' R' i" "last_write (mv_last m ! i) \<noteq> []" for i
    using D(10)[OF that(1) _ that(3)] live[OF that(1)] that(2) le by simp
qed (use hist_invD[OF inv] live in auto)

section \<open>Transitions without change of the memory\<close>

lemma some_role_same: "f r = f (R w) \<Longrightarrow> some_role f (R(w := r)) = some_role f R"
  by (auto simp: some_role_def fun_eq_iff)

text \<open>No transaction starts or stops being recorded.\<close>

lemma hist_status:
  assumes inv: "hist_inv rv transact vm s m res R H" and size: "block_size s' = block_size s"
    and le: "min_validation_idx s' \<le> min_validation_idx s"
    and r: "holds_data r = holds_data (R w)" "holds_record r = holds_record (R w)"
    and st: "\<And>i. i < block_size s \<Longrightarrow> is_done (stat s' i) = is_done (stat s i)"
    and inc: "\<And>i. i < block_size s \<Longrightarrow> inc s' i = inc s i"
  shows "hist_inv rv transact vm s' m res (R(w := r)) H"
  by (rule hist_frame[OF inv size le])
    (use st inc in \<open>auto simp: live_def current_def some_role_same[of _ r R w] r\<close>)

lemma hist_role:
  assumes "hist_inv rv transact vm s m res R H"
    and "holds_data r = holds_data (R w)" "holds_record r = holds_record (R w)"
  shows "hist_inv rv transact vm s m res (R(w := r)) H"
  by (rule hist_status[OF assms(1) refl order_refl assms(2,3)]) auto

lemma waiting_not_current:
  assumes own: "own_inv err s R" and w: "stat s i = Aborting" "0 < pending s i" "i < block_size s"
  shows "\<not> current s R i"
proof
  assume "current s R i"
  then have "some_role holds_record R i" using w by (auto simp: current_def)
  then obtain w' where h: "holds_record (R w') = Some i" by (auto simp: some_role_def)
  have "executes (R w') = Some v \<Longrightarrow> ver_idx v \<noteq> i" for v
    using own_invD(3)[OF own, of w'] w by (auto simp: role_ok_def)
  then obtain v where "aborts (R w') = Some v" "ver_idx v = i" using h by (cases "R w'") auto
  then have "i \<in> aborted R" by (auto simp: aborted_iff)
  then show False using sched_baseD(7)[OF inv_base[OF own_invD(1)[OF own]] w(3,1)] w(2) by simp
qed

lemma hist_finish_execution:
  assumes own: "own_inv err s R" and inv: "hist_inv rv transact vm s m res R H"
    and R: "R w = Finishing v new nxt" and run: "finish_execution v new nxt s = Inr (r, s')"
  shows "hist_inv rv transact vm s' m res (R(w := task_role r)) H"
proof -
  obtain s1 where s1: "resume_effect (ver_idx v) s s1" "sched_inv (aborted R) s1"
    "schedule_validation v new nxt s1 = (r, s')"
    using own_finish_execution(2)[OF own R run] by blast
  note E = resume_effectD[OF s1(1)] and V = schedule_validation_ok[OF s1(2,3)]
  have v: "ver_idx v < block_size s" using own_invD(3)[OF own, of w] R by simp
  have hold: "holds_data (task_role r) = None" "holds_record (task_role r) = None" using V(8) by auto
  note ups = role_updates(1,2)[OF own_invD(2)[OF own], of w "ver_idx v" "task_role r"]
  have wait: "\<not> current s R t" "\<not> is_done (stat s t)" if "resumed (ver_idx v) s t" "t < block_size s" for t
    using resumed_waiting[OF inv_base[OF own_invD(1)[OF own]] v that(1)]
      waiting_not_current[OF own _ _ that(2)] by auto
  have rec: "some_role holds_data R (ver_idx v)" "some_role holds_record R (ver_idx v)"
    using R by (auto simp: some_role_def intro!: exI[of _ w])
  show ?thesis
  proof (rule hist_frame[OF inv])
    show "block_size s' = block_size s" "min_validation_idx s' \<le> min_validation_idx s"
      using V(3,6) E(1,3) by (auto simp: lowered_min_def split: option.splits)
    fix i assume i: "i < block_size s"
    show "live s' (R(w := task_role r)) i = live s R i"
      using wait(2)[OF _ i] rec R by (auto simp: live_def ups hold V(2) E(10))
    show "current s' (R(w := task_role r)) i \<Longrightarrow> current s R i \<and> inc s' i = inc s i"
      using wait[OF _ i] rec R by (auto simp: current_def ups hold V(2) E(10,11) split: if_splits)
    show "inc s i \<le> inc s' i" by (simp add: V(2) E(11))
    show "current s R i \<Longrightarrow> \<not> current s' (R(w := task_role r)) i \<Longrightarrow> inc s i < inc s' i"
      using rec R wait[OF _ i] by (auto simp: current_def ups hold V(2) E(10,11) split: if_splits)
  qed
qed

lemma hist_abort:
  assumes own: "own_inv err s R" and inv: "hist_inv rv transact vm s m res R H"
    and R: "R w = Checking v" and was: "is_done (stat s (ver_idx v))"
    and st: "s' = (set_status (ver_idx v) Aborting s)\<lparr>num_validated := k\<rparr>"
  shows "hist_inv rv transact vm s' m res (R(w := Converting v)) H"
proof -
  have v: "ver_idx v < length (transactions_status s)"
    using own_invD(3)[OF own, of w] R base_lengths(1)[OF inv_base[OF own_invD(1)[OF own]]] by simp
  note ups = role_updates(3,4)[of R w "Converting v", unfolded R, OF owns_simps(6)]
  note stat = stat_set_status[OF v, of Aborting]
  have fld: "block_size s' = block_size s" "min_validation_idx s' = min_validation_idx s"
    "inc s' t = inc s t" "stat s' t = (if t = ver_idx v then Aborting else stat s t)" for t
    using stat by (simp_all add: st)
  show ?thesis
    by (rule hist_frame[OF inv])
      (use was in \<open>auto simp: live_def current_def ups fld split: if_splits\<close>)
qed

lemma hist_reschedule:
  assumes own: "own_inv err s R" and inv: "hist_inv rv transact vm s m res R H"
    and R: "R w = Rescheduling v" and run: "finish_validation v True s = Inr (r, s')"
  shows "hist_inv rv transact vm s' m res (R(w := task_role r)) H"
proof -
  obtain s1 where s1: "s1 = s\<lparr>transactions_status := (transactions_status s)
           [ver_idx v := \<lparr>incarnation = inc s (ver_idx v) + 1, status = ReadyToExecute\<rparr>],
         validation_idx := min (validation_idx s) (ver_idx v + 1)\<rparr>"
    and c: "r = None \<and> s' = s1 \<or> (\<exists>u. r = Some (Execution u) \<and> ver_idx u = ver_idx v \<and> picked s1 u s')"
    using own_reschedule(2)[OF own R run] by blast
  have len: "length (transactions_status s) = block_size s"
    by (rule base_lengths(1)[OF inv_base[OF own_invD(1)[OF own]]])
  have v: "ver_idx v < block_size s" using own_invD(3)[OF own, of w] R by simp
  have st1: "transactions_status s1 ! t = (if t = ver_idx v
      then \<lparr>incarnation = inc s t + 1, status = ReadyToExecute\<rparr> else transactions_status s ! t)" for t
    using v len by (simp add: s1 nth_list_update)
  have A: "ver_idx v \<in> aborted R" unfolding aborted_iff by (rule exI[of _ w]) (simp add: R)
  have ab: "stat s (ver_idx v) = Aborting"
    using sched_baseD(6)[OF inv_base[OF own_invD(1)[OF own]] A] by simp
  have f1: "block_size s1 = block_size s" "min_validation_idx s1 = min_validation_idx s"
    "length (transactions_status s1) = block_size s1" by (simp_all add: s1 len)
  have "block_size s' = block_size s \<and> min_validation_idx s' = min_validation_idx s \<and>
    (\<forall>t. is_done (stat s' t) = is_done (stat s t)) \<and>
    (\<forall>t. inc s' t = (if t = ver_idx v then inc s t + 1 else inc s t))"
    using c
  proof (elim disjE conjE exE)
    fix u assume "r = Some (Execution u)" "ver_idx u = ver_idx v" and p: "picked s1 u s'"
    then show ?thesis using pickedD[OF p f1(3)] f1 ab by (auto simp: st1)
  qed (use ab f1 in \<open>auto simp: st1\<close>)
  then have fld: "block_size s' = block_size s" "min_validation_idx s' = min_validation_idx s"
    "is_done (stat s' t) = is_done (stat s t)"
    "inc s' t = (if t = ver_idx v then inc s t + 1 else inc s t)" for t by blast+
  have hold: "holds_data (task_role r) = None" "holds_record (task_role r) = None" using c by auto
  note ups = role_updates(1,2)[OF own_invD(2)[OF own], of w "ver_idx v" "task_role r"]
  have nd: "\<not> some_role holds_data R (ver_idx v)"
  proof
    assume "some_role holds_data R (ver_idx v)"
    then obtain w' where h: "holds_data (R w') = Some (ver_idx v)" by (auto simp: some_role_def)
    have "w' = w" using single_ownersD[OF own_invD(2)[OF own] _ holds_owns(1)[OF h], of w] R by simp
    then show False using h R by simp
  qed
  show ?thesis
    by (rule hist_frame[OF inv])
      (use R ab nd in \<open>auto simp: live_def current_def ups hold fld split: if_splits\<close>)
qed

section \<open>Recording and converting\<close>

lemma pre_not_current:
  assumes own: "own_inv err s R" and R: "R w = Pre v"
  shows "\<not> current s R (ver_idx v)"
proof
  have ex: "stat s (ver_idx v) = Executing" using own_invD(3)[OF own, of w] R by simp
  assume "current s R (ver_idx v)"
  then obtain w' where h: "holds_record (R w') = Some (ver_idx v)"
    using ex by (auto simp: current_def some_role_def)
  have "w' = w" using single_ownersD[OF own_invD(2)[OF own] _ holds_owns(2)[OF h], of w] R by simp
  then show False using h R by simp
qed

lemma hist_record_fresh:
  assumes own: "own_inv err s R" and inv: "hist_inv rv transact vm s m res R H" and R: "R w = Pre v"
  shows "ver_idx v < block_size s" and "inc s (ver_idx v) = ver_incarnation v" and "\<not> live s R (ver_idx v)"
    and "H v = None"
proof -
  note nc = pre_not_current[OF own R]
  show "ver_idx v < block_size s" and v: "inc s (ver_idx v) = ver_incarnation v"
    using own_invD(3)[OF own, of w] R by simp_all
  show "\<not> live s R (ver_idx v)" using nc live_current by blast
  show "H v = None" using hist_invD(6)[OF inv, of v] nc v by (cases "H v") auto
qed

text \<open>The entries of a transaction after a record are exactly its writes: the old ones are gone.\<close>

lemma hist_record_entry:
  assumes own: "own_inv err s R" and inv: "hist_inv rv transact vm s m res R H" and R: "R w = Pre v"
    and ben: "beneficiary_location_hash vm \<in> fst ` set ws"
  shows "recorded_entry v ws m l = map_option (Data (inc s (ver_idx v))) (map_of (rev ws) l)"
proof (cases "map_of (rev ws) l")
  case None
  note D = hist_invD[OF inv] and v = hist_record_fresh[OF own inv R]
  have "l \<noteq> beneficiary_location_hash vm" using None ben map_of_rev_dom[of ws l] by auto
  then have "l \<notin> set (last_write (mv_last m ! ver_idx v)) \<Longrightarrow> mv_get m l (ver_idx v) = None"
    using D(9)[OF v(1,3), of l] D(11)[of l "ver_idx v"]
    by (cases "mv_get m l (ver_idx v)") (auto, metis memory_entry.exhaust)
  then show ?thesis using None by (simp add: recorded_entry_def)
next
  case (Some y)
  then show ?thesis using hist_record_fresh(2)[OF own inv R] by (simp add: recorded_entry_def)
qed

lemma hist_record:
  assumes own: "own_inv err s R" and inv: "hist_inv rv transact vm s m res R H"
    and R: "R w = Pre v" and run: "mv_record v reads ws m = Inr (new, m')"
    and r: "r = \<lparr>rec_result = x, rec_reads = reads, rec_writes = ws, rec_next = nxt\<rparr>"
    and rep: "replayable rv transact vm (history_values H) (ver_idx v) r"
  shows "H v = None" and "new \<or> min_validation_idx s \<le> ver_idx v"
    and "hist_inv rv transact vm s m' (res[ver_idx v := Some x]) (R(w := Finishing v new nxt)) (H(v \<mapsto> r))"
proof -
  note D = hist_invD[OF inv]
  let ?i = "ver_idx v" and ?ben = "beneficiary_location_hash vm"
  note v = hist_record_fresh(1,2)[OF own inv R] and nl = hist_record_fresh(3)[OF own inv R]
  show fresh: "H v = None" by (rule hist_record_fresh(4)[OF own inv R])
  have ben: "?ben \<in> fst ` set ws" using rep by (simp add: replayable_def r)
  have il: "?i < length (mv_last m)" using v(1) D(2) by simp
  obtain new' where new': "new' = (\<exists>l \<in> fst ` set ws. l \<notin> set (last_write (mv_last m ! ?i)))"
    and rec: "new = new'" "mv_inv m'"
      "mv_last m' = (mv_last m)[?i := \<lparr>last_read = reads, last_write = map fst ws\<rparr>]"
      "\<And>l j. mv_get m' l j = (if j = ?i then recorded_entry v ws m l else mv_get m l j)"
    using mv_record_ok[OF D(1) il, of reads ws] run by auto
  show "new \<or> min_validation_idx s \<le> ?i"
  proof (rule disjCI)
    assume "\<not> min_validation_idx s \<le> ?i"
    then have "last_write (mv_last m ! ?i) = []" using D(10)[OF v(1) nl] by auto
    then show new using ben rec(1) new' by auto
  qed
  note ups = role_updates(1,2)[OF own_invD(2)[OF own], of w ?i "Finishing v new nxt"]
  have live': "live s (R(w := Finishing v new nxt)) i \<longleftrightarrow> i = ?i \<or> live s R i"
    and cur': "current s (R(w := Finishing v new nxt)) i \<longleftrightarrow> i = ?i \<or> current s R i" for i
    using R by (auto simp: live_def current_def ups)
  have hv: "history_values (H(v \<mapsto> r)) u l = (if u = v then map_of (rev ws) l else history_values H u l)" for u l
    by (simp add: history_values_def r)
  have vs: "\<lparr>ver_idx = ?i, ver_incarnation = inc s ?i\<rparr> = v" using v(2) by simp
  have other: "\<lparr>ver_idx = i, ver_incarnation = k\<rparr> \<noteq> v" if "i \<noteq> ?i" for i k using that by auto
  note entry = hist_record_entry[OF own inv R ben]
  have last': "mv_last m' ! i = (if i = ?i then \<lparr>last_read = reads, last_write = map fst ws\<rparr> else mv_last m ! i)" for i
    using il by (simp add: rec(3) nth_list_update)
  note get' = rec(4)
  show "hist_inv rv transact vm s m' (res[?i := Some x]) (R(w := Finishing v new nxt)) (H(v \<mapsto> r))"
  proof (rule hist_invI)
    show "mv_inv m'" by (rule rec(2))
    show "length (mv_last m') = block_size s" "length (res[?i := Some x]) = block_size s"
      using D(2,3) rec(3) by simp_all
    fix u q assume u: "(H(v \<mapsto> r)) u = Some q"
    show "ver_idx u < block_size s" using u v(1) D(4) by (auto split: if_splits)
    have ext: "values_extend (history_values H) (history_values (H(v \<mapsto> r)))"
      using fresh by (rule history_values_extend)
    show "replayable rv transact vm (history_values (H(v \<mapsto> r))) (ver_idx u) q"
      using u rep D(5) replayable_extend[OF ext] by (auto split: if_splits)
    show "ver_incarnation u < inc s (ver_idx u) \<or> ver_incarnation u = inc s (ver_idx u) \<and>
        current s (R(w := Finishing v new nxt)) (ver_idx u)"
      using u v(2) D(6) by (auto simp: cur' split: if_splits)
  next
    fix i assume i: "i < block_size s"
    show "current s (R(w := Finishing v new nxt)) i \<Longrightarrow>
      \<exists>q. (H(v \<mapsto> r)) \<lparr>ver_idx = i, ver_incarnation = inc s i\<rparr> = Some q \<and>
        res[?i := Some x] ! i = Some (rec_result q) \<and>
        mv_last m' ! i = \<lparr>last_read = rec_reads q, last_write = map fst (rec_writes q)\<rparr>"
      using D(7)[OF i] D(3) v other[of i] by (cases "i = ?i") (auto simp: cur' last' r vs)
    show "mv_get m' l i = map_option (Data (inc s i))
        (history_values (H(v \<mapsto> r)) \<lparr>ver_idx = i, ver_incarnation = inc s i\<rparr> l)"
      if "live s (R(w := Finishing v new nxt)) i" for l
      using that D(8)[OF i] other[of i] by (cases "i = ?i") (auto simp: live' get' hv entry vs)
    show "mv_get m' l i \<noteq> Some (Data k y)" if "\<not> live s (R(w := Finishing v new nxt)) i" for l k y
      using that D(9)[OF i] by (auto simp: live' get')
    show "min_validation_idx s \<le> i"
      if "\<not> live s (R(w := Finishing v new nxt)) i" "last_write (mv_last m' ! i) \<noteq> []"
      using that D(10)[OF i] by (auto simp: live' last')
  next
    fix i l assume e: "mv_get m' l i = Some Estimate"
    show "i < block_size s \<and> (l \<in> set (last_write (mv_last m' ! i)) \<or> l = ?ben)"
      using e D(11)[of l i] by (cases "i = ?i") (auto simp: get' entry last')
  qed
qed

lemma hist_convert:
  assumes own: "own_inv err s R" and inv: "hist_inv rv transact vm s m res R H"
    and R: "R w = Converting v" and run: "convert_writes_to_estimates (ver_idx v) m = Inr m'"
  shows "hist_inv rv transact vm s m' res (R(w := Rescheduling v)) H"
proof -
  note D = hist_invD[OF inv]
  let ?i = "ver_idx v"
  have v: "?i < block_size s" "min_validation_idx s \<le> ?i" using own_invD(3)[OF own, of w] R by simp_all
  have il: "?i < length (mv_last m)" using v(1) D(2) by simp
  have m': "mv_inv m'" "mv_last m' = mv_last m"
    "\<And>l j. mv_get m' l j = (if j = ?i \<and> l \<in> set (last_write (mv_last m ! ?i)) then Some Estimate else mv_get m l j)"
    using convert_writes_to_estimates_ok[OF D(1) il] run by auto
  have A: "?i \<in> aborted R" unfolding aborted_iff by (rule exI[of _ w]) (simp add: R)
  have ab: "stat s ?i = Aborting"
    using sched_baseD(6)[OF inv_base[OF own_invD(1)[OF own]] A] by simp
  note ups = role_updates(1,2)[OF own_invD(2)[OF own], of w ?i "Rescheduling v"]
  have rec: "some_role holds_data R ?i" "some_role holds_record R ?i"
    using R by (auto simp: some_role_def intro!: exI[of _ w])
  have live': "live s (R(w := Rescheduling v)) i \<longleftrightarrow> i \<noteq> ?i \<and> live s R i"
    and cur': "current s (R(w := Rescheduling v)) i \<longleftrightarrow> current s R i" for i
    using R ab rec by (auto simp: live_def current_def ups)
  have li: "live s R ?i" "current s R ?i" using rec by (auto simp: live_def current_def)
  have nodata: "mv_get m' l ?i \<noteq> Some (Data k y)" for l k y
  proof (cases "l \<in> set (last_write (mv_last m ! ?i))")
    case False
    obtain q where q: "H \<lparr>ver_idx = ?i, ver_incarnation = inc s ?i\<rparr> = Some q"
      "mv_last m ! ?i = \<lparr>last_read = rec_reads q, last_write = map fst (rec_writes q)\<rparr>"
      using D(7)[OF v(1) li(2)] by blast
    have "map_of (rev (rec_writes q)) l = None" using False q(2) map_of_rev_dom[of "rec_writes q" l] by auto
    then have "mv_get m l ?i = None"
      using D(8)[OF v(1) li(1), of l] q(1) by (simp add: history_values_def)
    then show ?thesis using False by (simp add: m'(3))
  qed (simp add: m'(3))
  show ?thesis
  proof (rule hist_invI)
    fix i assume i: "i < block_size s"
    show "mv_get m' l i = map_option (Data (inc s i))
        (history_values H \<lparr>ver_idx = i, ver_incarnation = inc s i\<rparr> l)"
      if "live s (R(w := Rescheduling v)) i" for l
      using that D(8)[OF i] by (auto simp: live' m'(3))
    show "mv_get m' l i \<noteq> Some (Data k x)" if "\<not> live s (R(w := Rescheduling v)) i" for l k x
      using that D(9)[OF i] nodata by (cases "i = ?i") (auto simp: live' m'(3))
    show "min_validation_idx s \<le> i"
      if "\<not> live s (R(w := Rescheduling v)) i" "last_write (mv_last m' ! i) \<noteq> []"
      using that D(10)[OF i] v(2) by (auto simp: live' m'(2))
  qed (use D m' v(1) in \<open>auto simp: cur' split: if_splits\<close>)
qed

end
