(* ===== verification/Coverage.thy ===== *)
theory Coverage
  imports History
begin

text \<open>
  No validation is forgotten. Whenever a transaction at or above \<open>min_validation_idx\<close> is executed,
  its recorded reads validate in the present memory, or a validation of it is still to come:
  the validation counter has not passed it, a worker holds its validation, or a worker holds a
  lower transaction and will lower the counter.
\<close>

section \<open>The invariant\<close>

definition reads_now :: "mv_memory \<Rightarrow> tx_idx \<Rightarrow> bool" where
  "reads_now m j \<longleftrightarrow> reads_valid m j (last_read (mv_last m ! j))"

fun alarm :: "role \<Rightarrow> tx_idx \<Rightarrow> bool" where
  "alarm (Checking v) j \<longleftrightarrow> ver_idx v = j"
| "alarm (Finishing v new nxt) j \<longleftrightarrow> new \<and> ver_idx v < j"
| "alarm (Converting v) j \<longleftrightarrow> ver_idx v < j"
| "alarm (Rescheduling v) j \<longleftrightarrow> ver_idx v < j"
| "alarm _ j \<longleftrightarrow> False"

definition covered :: "scheduler \<Rightarrow> mv_memory \<Rightarrow> (nat \<Rightarrow> role) \<Rightarrow> tx_idx \<Rightarrow> bool" where
  "covered s m R j \<longleftrightarrow> reads_now m j \<or> validation_idx s \<le> j \<or> (\<exists>w. alarm (R w) j)"

definition cover_inv :: "scheduler \<Rightarrow> mv_memory \<Rightarrow> (nat \<Rightarrow> role) \<Rightarrow> bool" where
  "cover_inv s m R \<longleftrightarrow>
     (\<forall>j < block_size s. is_done (stat s j) \<longrightarrow> min_validation_idx s \<le> j \<longrightarrow> covered s m R j)"

lemma cover_step:
  assumes inv: "cover_inv s m R" and size: "block_size s' = block_size s"
    and step: "\<And>j. j < block_size s \<Longrightarrow> is_done (stat s' j) \<Longrightarrow> min_validation_idx s' \<le> j \<Longrightarrow>
      reads_now m' j \<or> validation_idx s' \<le> j \<or> alarm r j \<or>
      (is_done (stat s j) \<and> min_validation_idx s \<le> j \<and> \<not> alarm (R w) j \<and> \<not> validation_idx s \<le> j \<and>
       (reads_now m j \<longrightarrow> reads_now m' j))"
  shows "cover_inv s' m' (R(w := r))"
  unfolding cover_inv_def size
proof (intro allI impI)
  fix j assume j: "j < block_size s" "is_done (stat s' j)" "min_validation_idx s' \<le> j"
  from step[OF j] consider (direct) "reads_now m' j \<or> validation_idx s' \<le> j" | (own) "alarm r j"
    | (old) "is_done (stat s j)" "min_validation_idx s \<le> j" "\<not> alarm (R w) j" "\<not> validation_idx s \<le> j"
        "reads_now m j \<longrightarrow> reads_now m' j" by blast
  then show "covered s' m' (R(w := r)) j"
  proof cases
    case direct
    then show ?thesis by (auto simp: covered_def)
  next
    case own
    then show ?thesis by (auto simp: covered_def intro!: exI[of _ w])
  next
    case old
    then have "covered s m R j" using inv j(1) unfolding cover_inv_def by blast
    then have "reads_now m j \<or> (\<exists>w'. w' \<noteq> w \<and> alarm (R w') j)"
      using old(3,4) unfolding covered_def by metis
    then show ?thesis using old(5) by (auto simp: covered_def)
  qed
qed

section \<open>Which changes of the memory keep a read set valid\<close>

lemma hist_origins:
  assumes "hist_inv rv transact vm s m res R H" "j < block_size s" "is_done (stat s j)"
    and "(l, os) \<in> set (last_read (mv_last m ! j))"
  shows "origins_ok os"
proof -
  have "current s R j" using assms(3) by (simp add: current_def)
  then obtain r where r: "H \<lparr>ver_idx = j, ver_incarnation = inc s j\<rparr> = Some r"
    "mv_last m ! j = \<lparr>last_read = rec_reads r, last_write = map fst (rec_writes r)\<rparr>"
    using hist_invD(7)[OF assms(1,2)] by blast
  from hist_invD(5)[OF assms(1) r(1)] show ?thesis using assms(4) r(2) by (auto simp: replayable_def)
qed

lemma reads_now_stable:
  assumes inv: "hist_inv rv transact vm s m res R H" and j: "j < block_size s" "is_done (stat s j)"
    and m': "mv_inv m'" "mv_last m' ! j = mv_last m ! j"
    and keep: "\<And>l i. i < j \<Longrightarrow> mv_get m l i \<noteq> Some Estimate \<Longrightarrow> mv_get m' l i = mv_get m l i"
    and now: "reads_now m j"
  shows "reads_now m' j"
  unfolding reads_now_def reads_valid_def list_all_iff m'(2)
proof
  fix p assume p: "p \<in> set (last_read (mv_last m ! j))"
  obtain l os where [simp]: "p = (l, os)" by (cases p)
  have os: "origins_ok os" using hist_origins[OF inv j] p by simp
  have "validate_origins (walk m l j) os"
    using now p validate_location_walk[OF os, of j m l]
    by (auto simp: reads_now_def reads_valid_def list_all_iff)
  then have "validate_origins (walk m' l j) os"
    by (intro validate_walk_stable[OF hist_invD(1)[OF inv] m'(1) keep])
  then show "validate_location j m' p" using validate_location_walk[OF os, of j m' l] by simp
qed

section \<open>The transitions\<close>

text \<open>A change of the scheduler alone that neither finishes a transaction nor moves the validation counter.\<close>

lemma cover_same:
  assumes "cover_inv s m R" and "block_size s' = block_size s"
    and "min_validation_idx s' = min_validation_idx s" and "validation_idx s' = validation_idx s"
    and "\<And>j. j < block_size s \<Longrightarrow> is_done (stat s' j) \<Longrightarrow> is_done (stat s j)"
    and "\<And>j. j < block_size s \<Longrightarrow> is_done (stat s' j) \<Longrightarrow> alarm (R w) j \<Longrightarrow> alarm r j"
  shows "cover_inv s' m (R(w := r))"
  by (rule cover_step[OF assms(1,2)]) (use assms in auto)

lemma cover_claimed:
  assumes "cover_inv s m R" and "R w = Free" and "claimed s v s'"
  shows "cover_inv s' m (R(w := Checking v))"
  by (rule cover_step[OF assms(1)]) (use assms in \<open>auto simp: claimed_def\<close>)

lemma cover_skipped:
  assumes "cover_inv s m R" and "R w = Free" and "skipped s s'"
  shows "cover_inv s' m (R(w := Free))"
proof -
  obtain e k where s': "s' = s\<lparr>execution_idx := e, validation_idx := k\<rparr>"
    and skip: "\<forall>t. validation_idx s \<le> t \<and> t < k \<and> t < block_size s \<longrightarrow> \<not> is_done (stat s t)"
    using assms(3) unfolding skipped_def by blast
  have "k \<le> j" if "validation_idx s \<le> j" "j < block_size s" "is_done (stat s j)" for j
    using skip that by (meson not_le)
  then show ?thesis
    by (intro cover_step[OF assms(1)]) (use assms(2) in \<open>auto simp: s'\<close>)
qed

lemma cover_finish_execution:
  assumes own: "own_inv err s R" and inv: "cover_inv s m R"
    and R: "R w = Finishing v new nxt" and run: "finish_execution v new nxt s = Inr (r, s')"
  shows "cover_inv s' m (R(w := task_role r))"
proof -
  obtain s1 where s1: "resume_effect (ver_idx v) s s1" "sched_inv (aborted R) s1"
    "schedule_validation v new nxt s1 = (r, s')"
    using own_finish_execution(2)[OF own R run] by blast
  note E = resume_effectD[OF s1(1)] and V = schedule_validation_ok[OF s1(2,3)]
  have v: "ver_idx v < block_size s" "new \<or> min_validation_idx s \<le> ver_idx v"
    "\<And>i. nxt = Some i \<Longrightarrow> ver_idx v \<le> i"
    using own_invD(3)[OF own, of w] R by simp_all
  show ?thesis
  proof (rule cover_step[OF inv])
    show "block_size s' = block_size s" using V(3) E(1) by simp
    fix j assume j: "j < block_size s" "is_done (stat s' j)" "min_validation_idx s' \<le> j"
    have min: "min_validation_idx s \<le> j" if "j < ver_idx v \<or> \<not> new"  "j \<noteq> ver_idx v"
      using that j(3) v(2,3) unfolding V(6) lowered_min_def E(3)
      by (cases nxt) (auto simp: min_def split: if_splits)
    have was: "is_done (stat s j)" if "j \<noteq> ver_idx v"
      using that j(2) by (auto simp: V(2) E(10) split: if_splits)
    consider "j = ver_idx v" | "new" "ver_idx v < j" | "j < ver_idx v" | "\<not> new" "ver_idx v < j" by linarith
    then show "reads_now m j \<or> validation_idx s' \<le> j \<or> alarm (task_role r) j \<or>
      (is_done (stat s j) \<and> min_validation_idx s \<le> j \<and> \<not> alarm (R w) j \<and> \<not> validation_idx s \<le> j \<and>
       (reads_now m j \<longrightarrow> reads_now m j))"
    proof cases
      case 1
      then show ?thesis using V(10) j(3) v(1) E(1) by auto
    next
      case 2
      then show ?thesis using V(11)[of j] j(1,3) E(1) by auto
    next
      case 3
      then show ?thesis using min was V(7) E(2) R by auto
    next
      case 4
      then show ?thesis using min was V(7) E(2) R by auto
    qed
  qed
qed

lemma reschedule_frame:
  assumes own: "own_inv err s R" and R: "R w = Rescheduling v" and run: "finish_validation v True s = Inr (r, s')"
  shows "block_size s' = block_size s" and "min_validation_idx s' = min_validation_idx s"
    and "validation_idx s' = min (validation_idx s) (ver_idx v + 1)"
    and "is_done (stat s' t) \<Longrightarrow> stat s' t = stat s t \<and> t \<noteq> ver_idx v"
proof -
  obtain s1 where s1: "s1 = s\<lparr>transactions_status := (transactions_status s)
           [ver_idx v := \<lparr>incarnation = inc s (ver_idx v) + 1, status = ReadyToExecute\<rparr>],
         validation_idx := min (validation_idx s) (ver_idx v + 1)\<rparr>"
    and c: "r = None \<and> s' = s1 \<or> (\<exists>u. r = Some (Execution u) \<and> ver_idx u = ver_idx v \<and> picked s1 u s')"
    using own_reschedule(2)[OF own R run] by blast
  have len: "length (transactions_status s) = block_size s"
    by (rule base_lengths(1)[OF inv_base[OF own_invD(1)[OF own]]])
  have v: "ver_idx v < block_size s" using own_invD(3)[OF own, of w] R by simp
  have f1: "block_size s1 = block_size s" "min_validation_idx s1 = min_validation_idx s"
    "validation_idx s1 = min (validation_idx s) (ver_idx v + 1)"
    "length (transactions_status s1) = block_size s1" by (simp_all add: s1 len)
  have st1: "stat s1 t = (if t = ver_idx v then ReadyToExecute else stat s t)" for t
    using v len by (simp add: s1 nth_list_update)
  show "block_size s' = block_size s" "min_validation_idx s' = min_validation_idx s"
    "validation_idx s' = min (validation_idx s) (ver_idx v + 1)"
    "is_done (stat s' t) \<Longrightarrow> stat s' t = stat s t \<and> t \<noteq> ver_idx v"
    using c pickedD[of s1 _ s', OF _ f1(4)] f1 by (auto simp: st1 split: if_splits)
qed

lemma cover_reschedule:
  assumes own: "own_inv err s R" and inv: "cover_inv s m R"
    and R: "R w = Rescheduling v" and run: "finish_validation v True s = Inr (r, s')"
  shows "cover_inv s' m (R(w := task_role r))"
proof -
  note F = reschedule_frame[OF own R run]
  have "is_done (stat s t) \<and> t \<noteq> ver_idx v" if "is_done (stat s' t)" for t using F(4)[OF that] that by simp
  then show ?thesis
    by (intro cover_step[OF inv F(1)]) (use F(2,3) R in \<open>auto simp: not_le min_def split: if_splits\<close>)
qed

lemma cover_record:
  assumes own: "own_inv err s R" and hist: "hist_inv rv transact vm s m res R H"
    and inv: "cover_inv s m R" and R: "R w = Pre v" and run: "mv_record v reads ws m = Inr (new, m')"
  shows "cover_inv s m' (R(w := Finishing v new nxt))"
proof -
  note D = hist_invD[OF hist]
  let ?i = "ver_idx v"
  have v: "?i < block_size s" "stat s ?i = Executing" using own_invD(3)[OF own, of w] R by simp_all
  have nl: "\<not> live s R ?i" using pre_not_current[OF own R] live_current by blast
  have il: "?i < length (mv_last m)" using v(1) D(2) by simp
  have rec: "new \<longleftrightarrow> (\<exists>l \<in> fst ` set ws. l \<notin> set (last_write (mv_last m ! ?i)))" "mv_inv m'"
      "mv_last m' = (mv_last m)[?i := \<lparr>last_read = reads, last_write = map fst ws\<rparr>]"
      "\<And>l j. mv_get m' l j = (if j = ?i then recorded_entry v ws m l else mv_get m l j)"
    using mv_record_ok[OF D(1) il, of reads ws] run by auto
  show ?thesis
  proof (rule cover_step[OF inv refl])
    fix j assume j: "j < block_size s" "is_done (stat s j)" "min_validation_idx s \<le> j"
    have ne: "j \<noteq> ?i" using j(2) v(2) by auto
    have "reads_now m j \<longrightarrow> reads_now m' j" if "\<not> (new \<and> ?i < j)"
    proof
      assume "reads_now m j"
      then show "reads_now m' j"
      proof (rule reads_now_stable[OF hist j(1,2) rec(2), rotated 2])
        show "mv_last m' ! j = mv_last m ! j" using ne by (simp add: rec(3))
        fix l i assume i: "i < j" and e: "mv_get m l i \<noteq> Some Estimate"
        show "mv_get m' l i = mv_get m l i"
        proof (cases "i = ?i")
          case True
          have none: "mv_get m l ?i = None"
            using e D(9)[OF v(1) nl, of l] True
            by (cases "mv_get m l ?i") (auto, metis memory_entry.exhaust)
          then have "l \<notin> set (last_write (mv_last m ! ?i))" using mv_invD(2)[OF D(1) il, of l] by auto
          then have "map_of (rev ws) l = None"
            using that True i rec(1) map_of_rev_dom[of ws l] by auto
          then show ?thesis using True none by (simp add: rec(4) recorded_entry_def)
        qed (simp add: rec(4))
      qed
    qed
    then show "reads_now m' j \<or> validation_idx s \<le> j \<or> alarm (Finishing v new nxt) j \<or>
      (is_done (stat s j) \<and> min_validation_idx s \<le> j \<and> \<not> alarm (R w) j \<and> \<not> validation_idx s \<le> j \<and>
       (reads_now m j \<longrightarrow> reads_now m' j))" using j R by auto
  qed
qed

lemma cover_convert:
  assumes own: "own_inv err s R" and hist: "hist_inv rv transact vm s m res R H"
    and inv: "cover_inv s m R" and R: "R w = Converting v"
    and run: "convert_writes_to_estimates (ver_idx v) m = Inr m'"
  shows "cover_inv s m' (R(w := Rescheduling v))"
proof -
  note D = hist_invD[OF hist]
  have v: "ver_idx v < block_size s" using own_invD(3)[OF own, of w] R by simp
  have A: "ver_idx v \<in> aborted R" unfolding aborted_iff by (rule exI[of _ w]) (simp add: R)
  have ab: "stat s (ver_idx v) = Aborting"
    using sched_baseD(6)[OF inv_base[OF own_invD(1)[OF own]] A] by simp
  have m': "mv_inv m'" "mv_last m' = mv_last m"
    "\<And>l j. j \<noteq> ver_idx v \<Longrightarrow> mv_get m' l j = mv_get m l j"
    using convert_writes_to_estimates_ok[OF D(1), of "ver_idx v"] v D(2) run by auto
  show ?thesis
  proof (rule cover_step[OF inv refl])
    fix j assume j: "j < block_size s" "is_done (stat s j)" "min_validation_idx s \<le> j"
    have "reads_now m j \<longrightarrow> reads_now m' j" if "j < ver_idx v"
      using reads_now_stable[OF hist j(1,2) m'(1)] m' that by auto
    then show "reads_now m' j \<or> validation_idx s \<le> j \<or> alarm (Rescheduling v) j \<or>
      (is_done (stat s j) \<and> min_validation_idx s \<le> j \<and> \<not> alarm (R w) j \<and> \<not> validation_idx s \<le> j \<and>
       (reads_now m j \<longrightarrow> reads_now m' j))"
      using j R ab by (cases "ver_idx v" j rule: linorder_cases) auto
  qed
qed

end
