(* ===== verification/Workers_Inv.thy ===== *)
theory Workers_Inv
  imports Coverage
begin

text \<open>
  The invariant of the whole system. Each kind of step of a worker returns, apart from the
  panics of the storage and of \<open>revm\<close> conversions, and keeps the three invariants of
  ownership, history and coverage; what a worker carries from one step to the next
  (the run of the EVM, the blocking transaction, the result to record) stays correct while
  other workers move.
\<close>

section \<open>What the workers carry\<close>

definition run_ok ::
  "revm \<Rightarrow> read_error transact \<Rightarrow> vm \<Rightarrow> version_values \<Rightarrow> tx_idx \<Rightarrow> vm_run \<Rightarrow> vm_db \<Rightarrow> bool" where
  "run_ok rv transact vm G i t db \<longleftrightarrow>
     db_tx_idx db = i \<and>
     (\<exists>db0. vm_start vm i = Inr db0 \<and>
        ((\<exists>e. t = Evm_Done (Inl (EVM_Database e)) \<and> blocks_below i e) \<or>
         (propagates t \<and> db_ok vm i G db \<and> replays rv vm i G (tx_run transact vm i) db0 t db)))"

fun worker_ok :: "revm \<Rightarrow> read_error transact \<Rightarrow> vm \<Rightarrow> version_values \<Rightarrow> worker \<Rightarrow> bool" where
  "worker_ok rv transact vm G (RunEvm v t db) \<longleftrightarrow> run_ok rv transact vm G (ver_idx v) t db"
| "worker_ok rv transact vm G (AddDependency v b) \<longleftrightarrow> b < ver_idx v"
| "worker_ok rv transact vm G (Record v res reads ws nxt) \<longleftrightarrow>
     replayable rv transact vm G (ver_idx v)
       \<lparr>rec_result = res, rec_reads = reads, rec_writes = ws, rec_next = nxt\<rparr> \<and>
     (\<forall>j. nxt = Some j \<longrightarrow> ver_idx v \<le> j)"
| "worker_ok rv transact vm G _ \<longleftrightarrow> True"

lemma worker_ok_extend:
  assumes "values_extend G G'" and "worker_ok rv transact vm G k"
  shows "worker_ok rv transact vm G' k"
  using assms db_ok_extend[OF assms(1)] replays_extend[OF assms(1)] replayable_extend[OF assms(1)]
  by (cases k) (fastforce simp: run_ok_def)+

lemma worker_ok_begin [simp]: "worker_ok rv transact vm G (begin_task t)"
  by (cases t) auto

section \<open>Running the EVM\<close>

lemma add_reward_unreachable:
  assumes "add_reward l amount ws = Inl p"
  shows "\<exists>x. (l, ValStorage x) \<in> set ws"
  using assms
  by (induction l amount ws arbitrary: p rule: add_reward.induct)
    (auto split: memory_value.splits if_splits sum.splits simp: map_sum_def)

lemma state_writes_apart: "slots_apart vm (state_writes rv vm reads lazy to val st)"
proof -
  have "\<exists>a k. l = hash_one vm (LocStorage a k)"
    if "(l, ValStorage x) \<in> set (account_writes rv vm reads lazy to val p)" for p l x
    using that by (cases p) (auto simp: account_writes_def Let_def split: if_splits option.splits)
  then show ?thesis by (auto simp: slots_apart_def state_writes_def)
qed

lemma add_reward_apart: "add_reward l amount ws = Inr ws' \<Longrightarrow> slots_apart vm ws \<Longrightarrow> slots_apart vm ws'"
proof (induction l amount ws arbitrary: ws' rule: add_reward.induct)
  case (2 l amount k v ws)
  have rest: "slots_apart vm ws" using "2.prems"(2) by (auto simp: slots_apart_def)
  show ?case
  proof (cases "k = l")
    case True
    then show ?thesis using "2.prems"
      by (auto simp: slots_apart_def split: memory_value.splits) blast+
  next
    case False
    then obtain ws1 where "add_reward l amount ws = Inr ws1" "ws' = (k, v) # ws1"
      using "2.prems"(1) by (auto simp: map_sum_def split: sum.splits)
    then show ?thesis using "2.IH"[OF False _ rest] "2.prems"(2) by (auto simp: slots_apart_def)
  qed
qed (auto simp: slots_apart_def)

lemma apply_rewards_returns:
  assumes "vm_wf vm"
  shows "\<exists>ws. apply_rewards rv vm tx gas (state_writes rv vm reads lazy to val st) = Inr ws"
proof (rule ccontr)
  assume "\<not> ?thesis"
  then obtain p where "apply_rewards rv vm tx gas (state_writes rv vm reads lazy to val st) = Inl p"
    by (metis obj_sumE)
  then obtain x where x: "(beneficiary_location_hash vm, ValStorage x) \<in> set (state_writes rv vm reads lazy to val st)"
    by (auto split: reward_policy.splits dest!: add_reward_unreachable)
  then obtain a k where "beneficiary_location_hash vm = hash_one vm (LocStorage a k)"
    using state_writes_apart unfolding slots_apart_def by blast
  then show False using assms unfolding vm_wf_def kinds_apart_def by metis
qed

text \<open>The panics that are left: a storage that fails, and bytecode of an unsupported format.\<close>

abbreviation eof_panic :: rust_panic where
  "eof_panic \<equiv> Panicked ''TODO: Support EOF''"

definition tolerated :: "rust_panic \<Rightarrow> bool" where
  "tolerated p \<longleftrightarrow> p = Unwrap_failed \<or> p = eof_panic"

lemma from_revm_panics: "from_revm rv spec rs = Inl p \<Longrightarrow> p = eof_panic"
proof -
  have "evm_code_of_bytecode rv c = Inl p \<Longrightarrow> p = eof_panic" for c
    by (cases c) (auto split: prod.splits)
  then have "evm_account_of_account rv acc = Inl p \<Longrightarrow> p = eof_panic" for acc
    by (auto simp: evm_account_of_account_def basic_of_info_def split: sum.splits option.splits if_splits)
  then have "from_revm_state rv spec accs = Inl p \<Longrightarrow> p = eof_panic" for accs
    by (induction rv spec accs rule: from_revm_state.induct)
      (auto simp: map_sum_def split: if_splits sum.splits)
  then show "from_revm rv spec rs = Inl p \<Longrightarrow> p = eof_panic"
    by (auto simp: from_revm_def map_sum_def split: sum.splits)
qed

lemma vm_finish_panics:
  assumes "vm_wf vm" and "vm_finish rv vm tx db r = Inl p"
  shows "p = eof_panic"
proof (cases r)
  case (Inr rs)
  then show ?thesis
    using assms apply_rewards_returns[OF assms(1), of rv tx "ucast (gas_used rs)"
        "read_accounts (db_read_set db)" "is_maybe_lazy db" "db_to db" "tx_value tx" "rs_state rs"]
      from_revm_panics
    by (auto split: sum.splits)
next
  case (Inl e)
  then show ?thesis using assms(2)
    by (cases "(rv, vm, tx, db, r)" rule: vm_finish.cases)
      (auto split: evm_error.splits invalid_transaction.splits if_splits)
qed

lemma vm_start_tolerated:
  "vm_start vm i = Inl p \<Longrightarrow> i < length (txs vm) \<Longrightarrow> tolerated p"
  by (auto simp: vm_start_def maybe_lazy_def tolerated_def split: sum.splits transact_to.splits if_splits)

lemma run_ok_start:
  assumes "vm_wf vm" "propagates (tx_run transact vm i)" "vm_start vm i = Inr db"
  shows "run_ok rv transact vm G i (tx_run transact vm i) db"
  using assms vm_start_ok(2)[OF assms(1,3), of G] by (auto simp: run_ok_def db_ok_def)

lemma run_ok_step:
  assumes wf: "vm_wf vm" and m: "mv_inv m" "mv_values G m" and nd: "\<forall>r. t \<noteq> Evm_Done r"
    and ok: "run_ok rv transact vm G i t db"
    and step: "evm_step (vm_database rv vm m) t db = (t', db')"
  shows "run_ok rv transact vm G i t' db'"
proof -
  obtain db0 where db0: "vm_start vm i = Inr db0" and r: "propagates t" "db_ok vm i G db"
    "replays rv vm i G (tx_run transact vm i) db0 t db"
    using ok nd by (auto simp: run_ok_def)
  have idx: "db_tx_idx db' = i"
  proof -
    have "db_tx_idx db' = db_tx_idx db"
      using step by (cases t) (auto simp: vm_database_def vm_basic_def vm_storage_read_def
          vm_code_by_hash_def vm_has_storage_def vm_block_hash_def Let_def
          split: prod.splits sum.splits if_splits)
    then show ?thesis using r(2) by (simp add: db_ok_def)
  qed
  from evm_step_repeatable[OF wf r(2) m r(1) step] show ?thesis
  proof (elim disjE conjE)
    assume "\<exists>e. t' = Evm_Done (Inl (EVM_Database e)) \<and> blocks_below i e"
    then show ?thesis using db0 idx by (auto simp: run_ok_def)
  next
    assume "propagates t'" "repeatable vm i G db db' (\<lambda>m'. evm_step (vm_database rv vm m') t db = (t', db'))"
    then show ?thesis using db0 idx replays_step[OF r(3)] by (auto simp: run_ok_def repeatable_def)
  qed
qed

text \<open>The end of an execution: what the worker does next is correct.\<close>

lemma run_ok_finish:
  assumes wf: "vm_wf vm" and ok: "run_ok rv transact vm G (ver_idx v) (Evm_Done r) db"
    and fin: "vm_finish rv vm (txs vm ! ver_idx v) db r = Inr x"
  shows "worker_ok rv transact vm G (after_execute v x)"
proof (cases x)
  case (VmReadError b)
  have "b < ver_idx v"
    using vm_finish_ReadError[OF fin[unfolded VmReadError]] ok
    by (auto simp: run_ok_def blocks_below_def)
  then show ?thesis by (simp add: VmReadError)
next
  case (VmOk res reads ws nxt)
  let ?i = "ver_idx v"
  note finish = fin[unfolded VmOk]
  from vm_finish_Ok[OF finish] obtain rs where rs: "r = Inr rs" "reads = locations (db_read_set db)"
    and rew: "apply_rewards rv vm (txs vm ! ?i) (ucast (gas_used rs))
       (state_writes rv vm (read_accounts (db_read_set db)) (is_maybe_lazy db) (db_to db)
          (tx_value (txs vm ! ?i)) (rs_state rs)) = Inr ws"
    and nxt: "nxt = next_validation_idx vm (db_tx_idx db) db ws" by metis
  obtain db0 where db0: "vm_start vm ?i = Inr db0" "db_ok vm ?i G db" "db_tx_idx db = ?i"
    "replays rv vm ?i G (tx_run transact vm ?i) db0 (Evm_Done r) db"
    using ok rs(1) by (auto simp: run_ok_def)
  have "\<forall>(l, os) \<in> set reads. origins_ok os"
    using db0(2) by (auto simp: db_ok_def location_ok_def rs(2))
  moreover have "beneficiary_location_hash vm \<in> fst ` set ws"
    using add_reward_writes rew by (auto split: reward_policy.splits)
  moreover have "slots_apart vm ws"
    using add_reward_apart[OF _ state_writes_apart] rew by (auto split: reward_policy.splits)
  moreover have "vm_execute rv transact vm m' ?i = Inr (VmOk res reads ws nxt)"
    if "values_extend G G'" "mv_inv m'" "mv_values G' m'" "reads_valid m' ?i reads" for m' G'
    using replays_done[OF db0(4) that(1-3)] that(4) db0(1) finish
    by (simp add: vm_execute_def execute_tx_def rs(2))
  moreover have "nxt = Some j \<Longrightarrow> ?i \<le> j" for j
    using next_validation_bounds[of vm ?i db ws j] nxt db0(3) by simp
  ultimately show ?thesis by (auto simp: VmOk replayable_def)
qed simp_all

section \<open>Each step keeps the invariant\<close>

definition core_inv ::
  "revm \<Rightarrow> read_error transact \<Rightarrow> vm \<Rightarrow> shared \<Rightarrow> (nat \<Rightarrow> role) \<Rightarrow> history \<Rightarrow> bool" where
  "core_inv rv transact vm sh R H \<longleftrightarrow>
     block_size (sh_scheduler sh) = length (txs vm) \<and>
     own_inv (execution_error sh \<noteq> None) (sh_scheduler sh) R \<and>
     hist_inv rv transact vm (sh_scheduler sh) (sh_memory sh) (execution_results sh) R H \<and>
     (execution_error sh \<noteq> None \<or> cover_inv (sh_scheduler sh) (sh_memory sh) R)"

lemma core_invI:
  assumes "block_size (sh_scheduler sh) = length (txs vm)"
    and "own_inv (execution_error sh \<noteq> None) (sh_scheduler sh) R"
    and "hist_inv rv transact vm (sh_scheduler sh) (sh_memory sh) (execution_results sh) R H"
    and "execution_error sh = None \<Longrightarrow> cover_inv (sh_scheduler sh) (sh_memory sh) R"
  shows "core_inv rv transact vm sh R H"
  using assms by (auto simp: core_inv_def)

lemma core_invD:
  assumes "core_inv rv transact vm sh R H"
  shows "block_size (sh_scheduler sh) = length (txs vm)"
    and "own_inv (execution_error sh \<noteq> None) (sh_scheduler sh) R"
    and "hist_inv rv transact vm (sh_scheduler sh) (sh_memory sh) (execution_results sh) R H"
    and "execution_error sh = None \<Longrightarrow> cover_inv (sh_scheduler sh) (sh_memory sh) R"
  using assms by (auto simp: core_inv_def)

text \<open>
  The outcome of a step: a tolerated panic, or a new position and shared state that satisfy the
  invariant with a history that extends the old one.
\<close>

definition step_ok ::
  "revm \<Rightarrow> read_error transact \<Rightarrow> vm \<Rightarrow> (nat \<Rightarrow> role) \<Rightarrow> nat \<Rightarrow> history \<Rightarrow> (worker \<times> shared) panics \<Rightarrow> bool" where
  "step_ok rv transact vm R w H x \<longleftrightarrow>
     (case x of
        Inl p \<Rightarrow> tolerated p
      | Inr (k, sh') \<Rightarrow>
          (\<exists>H'. values_extend (history_values H) (history_values H') \<and>
             core_inv rv transact vm sh' (R(w := role_of k)) H' \<and>
             worker_ok rv transact vm (history_values H') k))"

lemma step_okI:
  "core_inv rv transact vm sh' (R(w := role_of k)) H \<Longrightarrow>
   worker_ok rv transact vm (history_values H) k \<Longrightarrow> step_ok rv transact vm R w H (Inr (k, sh'))"
  unfolding step_ok_def by (auto intro!: exI[of _ H])

text \<open>A step that only moves the worker on.\<close>

lemma step_ok_local:
  assumes "core_inv rv transact vm sh R H" and "role_of k = R w"
    and "worker_ok rv transact vm (history_values H) k"
  shows "step_ok rv transact vm R w H (Inr (k, sh))"
proof (rule step_okI)
  have "R(w := role_of k) = R" using assms(2) by auto
  then show "core_inv rv transact vm sh (R(w := role_of k)) H" using assms(1) by simp
qed (rule assms(3))

lemma next_task_step_ok:
  assumes inv: "core_inv rv transact vm sh R H" and R: "R w = Free"
  shows "step_ok rv transact vm R w H (next_task_step sh)"
proof -
  note D = core_invD[OF inv]
  let ?s = "sh_scheduler sh"
  obtain r s' where r: "next_task_iter ?s = Inr (r, s')" and s': "sched_inv (aborted R) s'"
    and c: "case r of
       Break \<Rightarrow> s' = ?s \<and> block_size ?s \<le> execution_idx ?s \<and> block_size ?s \<le> validation_idx ?s \<and>
                block_size ?s - min_validation_idx ?s \<le> num_validated ?s
     | Continue \<Rightarrow> skipped ?s s'
     | Return (Execution v) \<Rightarrow> picked ?s v s'
     | Return (Validation v) \<Rightarrow> claimed ?s v s'"
    using next_task_iter_ok[OF own_invD(1)[OF D(2)]] by blast
  let ?sh = "sh\<lparr>sh_scheduler := s'\<rparr>"
  have len: "length (transactions_status ?s) = block_size ?s"
    by (rule base_lengths(1)[OF inv_base[OF own_invD(1)[OF D(2)]]])
  consider (break) "r = Break" | (skip) "r = Continue" | (exec) v where "r = Return (Execution v)"
    | (val) v where "r = Return (Validation v)" by (metis round_result.exhaust task.exhaust)
  then show ?thesis
  proof cases
    case break
    then have "s' = ?s" using c by simp
    then show ?thesis using r break inv R by (simp add: next_task_step_def step_ok_local)
  next
    case skip
    then obtain e k where e: "skipped ?s s'" "s' = ?s\<lparr>execution_idx := e, validation_idx := k\<rparr>"
      using c by (auto simp: skipped_def)
    have "core_inv rv transact vm ?sh (R(w := Free)) H"
    proof (rule core_invI)
      show "own_inv (execution_error ?sh \<noteq> None) (sh_scheduler ?sh) (R(w := Free))"
        using own_same_status[OF D(2) s'] e(2) R by simp
      show "hist_inv rv transact vm (sh_scheduler ?sh) (sh_memory ?sh) (execution_results ?sh) (R(w := Free)) H"
        using hist_status[OF D(3), of s' Free w] e(2) R by simp
    qed (use D(1) cover_skipped[OF D(4), of w s'] R e in auto)
    then show ?thesis using r skip by (auto simp: next_task_step_def intro: step_okI)
  next
    case (exec v)
    then have p: "picked ?s v s'" using c by simp
    note P = pickedD[OF p len]
    have "core_inv rv transact vm ?sh (R(w := Pre v)) H"
    proof (rule core_invI)
      show "own_inv (execution_error ?sh \<noteq> None) (sh_scheduler ?sh) (R(w := Pre v))"
        using own_picked[OF D(2) _ _ s' p] R by simp
      show "hist_inv rv transact vm (sh_scheduler ?sh) (sh_memory ?sh) (execution_results ?sh) (R(w := Pre v)) H"
        using hist_status[OF D(3), of s' "Pre v" w] R P by simp
      show "cover_inv (sh_scheduler ?sh) (sh_memory ?sh) (R(w := Pre v))" if "execution_error ?sh = None"
        by (simp, rule cover_same[OF D(4)]) (use that R P in \<open>auto split: if_splits\<close>)
    qed (use D(1) P in simp)
    then show ?thesis using r exec by (auto simp: next_task_step_def intro: step_okI)
  next
    case (val v)
    then have c: "claimed ?s v s'" using c by simp
    then have f: "s' = ?s\<lparr>validation_idx := validation_idx ?s + 1\<rparr>" and ok: "role_ok s' (Checking v)"
      by (auto simp: claimed_def)
    have "core_inv rv transact vm ?sh (R(w := Checking v)) H"
    proof (rule core_invI)
      show "own_inv (execution_error ?sh \<noteq> None) (sh_scheduler ?sh) (R(w := Checking v))"
        using own_same_status[OF D(2) s' _ _ _ R ok] f by simp
      show "hist_inv rv transact vm (sh_scheduler ?sh) (sh_memory ?sh) (execution_results ?sh) (R(w := Checking v)) H"
        using hist_status[OF D(3), of s' "Checking v" w] R f by simp
    qed (use D(1) cover_claimed[OF D(4), of w v s'] R c f in auto)
    then show ?thesis using r val by (auto simp: next_task_step_def intro: step_okI)
  qed
qed

lemma add_dependency_step_ok:
  assumes inv: "core_inv rv transact vm sh R H" and R: "R w = Pre v" and b: "b < ver_idx v"
  shows "step_ok rv transact vm R w H (add_dependency_step v b sh)"
proof -
  note D = core_invD[OF inv]
  let ?s = "sh_scheduler sh"
  have v: "ver_idx v < block_size ?s" "stat ?s (ver_idx v) = Executing"
    using own_invD(3)[OF D(2), of w] R by simp_all
  obtain added s' where a: "add_dependency (ver_idx v) b ?s = Inr (added, s')" "sched_inv (aborted R) s'"
    "\<not> added \<longrightarrow> s' = ?s"
    "added \<longrightarrow> transactions_status s' = transactions_status (set_status (ver_idx v) Aborting ?s) \<and>
       execution_idx s' = execution_idx ?s \<and> validation_idx s' = validation_idx ?s \<and>
       block_size s' = block_size ?s \<and> min_validation_idx s' = min_validation_idx ?s"
    using add_dependency_ok[OF own_invD(1)[OF D(2)] b v] by blast
  show ?thesis
  proof (cases added)
    case False
    then show ?thesis using a inv R by (simp add: add_dependency_step_def step_ok_local)
  next
    case True
    let ?sh = "sh\<lparr>sh_scheduler := s'\<rparr>"
    have vl: "ver_idx v < length (transactions_status ?s)"
      using v base_lengths(1)[OF inv_base[OF own_invD(1)[OF D(2)]]] by simp
    have f: "transactions_status s' = transactions_status (set_status (ver_idx v) Aborting ?s)"
      "validation_idx s' = validation_idx ?s" "block_size s' = block_size ?s"
      "min_validation_idx s' = min_validation_idx ?s" using a(4) True by auto
    note stat = stat_set_status[OF vl, of Aborting, folded f(1)]
    have inc: "inc s' t = inc ?s t" for t unfolding f(1) by simp
    have "core_inv rv transact vm ?sh (R(w := Free)) H"
    proof (rule core_invI)
      show "own_inv (execution_error ?sh \<noteq> None) (sh_scheduler ?sh) (R(w := Free))"
        using own_dependency[OF D(2) R a(2)] f by simp
      show "hist_inv rv transact vm (sh_scheduler ?sh) (sh_memory ?sh) (execution_results ?sh) (R(w := Free)) H"
        using hist_status[OF D(3), of s' Free w] R f stat inc v(2) by simp
      show "cover_inv (sh_scheduler ?sh) (sh_memory ?sh) (R(w := Free))" if "execution_error ?sh = None"
        by (simp, rule cover_same[OF D(4)]) (use that R f stat in \<open>auto split: if_splits\<close>)
    qed (use D(1) f in simp)
    then show ?thesis using a(1) True by (auto simp: add_dependency_step_def intro: step_okI)
  qed
qed

lemma set_error_step_ok:
  assumes inv: "core_inv rv transact vm sh R H" and R: "R w = Pre v"
  shows "step_ok rv transact vm R w H (set_error_step e sh)"
proof (cases "execution_error sh")
  case None
  note D = core_invD[OF inv]
  let ?sh = "sh\<lparr>execution_error := Some e\<rparr>"
  have "core_inv rv transact vm ?sh (R(w := Free)) H"
  proof (rule core_invI)
    show "own_inv (execution_error ?sh \<noteq> None) (sh_scheduler ?sh) (R(w := Free))"
      using own_same_sched[OF D(2), of Free w True] R by simp
    show "hist_inv rv transact vm (sh_scheduler ?sh) (sh_memory ?sh) (execution_results ?sh) (R(w := Free)) H"
      using hist_role[OF D(3), of Free w] R by simp
  qed (use D(1) in simp_all)
  then show ?thesis using None by (auto simp: set_error_step_def intro: step_okI)
next
  case (Some e')
  then show ?thesis by (simp add: set_error_step_def step_ok_def tolerated_def)
qed

lemma record_step_ok:
  assumes inv: "core_inv rv transact vm sh R H" and R: "R w = Pre v"
    and rep: "replayable rv transact vm (history_values H) (ver_idx v)
       \<lparr>rec_result = res, rec_reads = reads, rec_writes = ws, rec_next = nxt\<rparr>"
    and nxt: "\<forall>j. nxt = Some j \<longrightarrow> ver_idx v \<le> j"
  shows "step_ok rv transact vm R w H (record_step v res reads ws nxt sh)"
proof -
  note D = core_invD[OF inv] and HD = hist_invD[OF core_invD(3)[OF inv]]
  have v: "role_ok (sh_scheduler sh) (Pre v)" using own_invD(3)[OF D(2), of w] R by simp
  have il: "ver_idx v < length (mv_last (sh_memory sh))" "ver_idx v < length (execution_results sh)"
    using v HD(2,3) by simp_all
  obtain new m' where m': "mv_record v reads ws (sh_memory sh) = Inr (new, m')"
    using mv_record_ok[OF HD(1) il(1), of reads ws] by blast
  define r where "r = \<lparr>rec_result = res, rec_reads = reads, rec_writes = ws, rec_next = nxt\<rparr>"
  note HR = hist_record[OF D(2,3) R m' r_def rep[folded r_def]]
  let ?sh = "sh\<lparr>sh_memory := m', execution_results := (execution_results sh)[ver_idx v := Some res]\<rparr>"
  have "core_inv rv transact vm ?sh (R(w := Finishing v new nxt)) (H(v \<mapsto> r))"
  proof (rule core_invI)
    show "own_inv (execution_error ?sh \<noteq> None) (sh_scheduler ?sh) (R(w := Finishing v new nxt))"
      using own_same_sched[OF D(2), of "Finishing v new nxt" w] R v HR(2) nxt by simp
    show "cover_inv (sh_scheduler ?sh) (sh_memory ?sh) (R(w := Finishing v new nxt))"
      if "execution_error ?sh = None" using cover_record[OF D(2,3,4) R m'] that by simp
  qed (use D(1) HR(3) in simp_all)
  moreover have "values_extend (history_values H) (history_values (H(v \<mapsto> r)))"
    using HR(1) by (rule history_values_extend)
  ultimately show ?thesis using m' il unfolding step_ok_def record_step_def
    by (auto intro!: exI[of _ "H(v \<mapsto> r)"])
qed

lemma finish_execution_step_ok:
  assumes inv: "core_inv rv transact vm sh R H" and R: "R w = Finishing v new nxt"
  shows "step_ok rv transact vm R w H (finish_execution_step v new nxt sh)"
proof -
  note D = core_invD[OF inv]
  have v: "role_ok (sh_scheduler sh) (Finishing v new nxt)" using own_invD(3)[OF D(2), of w] R by simp
  obtain r s' where run: "finish_execution v new nxt (sh_scheduler sh) = Inr (r, s')"
    using finish_execution_resume[OF own_invD(1)[OF D(2)], of v new nxt] v by (metis role_ok_Finishing surj_pair)
  let ?sh = "sh\<lparr>sh_scheduler := s'\<rparr>"
  obtain s1 where s1: "resume_effect (ver_idx v) (sh_scheduler sh) s1" "sched_inv (aborted R) s1"
    "schedule_validation v new nxt s1 = (r, s')"
    using own_finish_execution(2)[OF D(2) R run] by blast
  have size: "block_size s' = block_size (sh_scheduler sh)"
    using schedule_validation_ok(3)[OF s1(2,3)] resume_effectD(1)[OF s1(1)] by simp
  have "core_inv rv transact vm ?sh (R(w := task_role r)) H"
    by (rule core_invI) (use D(1) size own_finish_execution(1)[OF D(2) R run]
        hist_finish_execution[OF D(2,3) R run] cover_finish_execution[OF D(2,4) R run] in auto)
  then show ?thesis using run by (auto simp: finish_execution_step_def intro: step_okI)
qed

lemma validate_step_ok:
  assumes inv: "core_inv rv transact vm sh R H" and R: "R w = Checking v"
  shows "step_ok rv transact vm R w H (validate_step v sh)"
proof -
  note D = core_invD[OF inv] and HD = hist_invD[OF core_invD(3)[OF inv]]
  have v: "role_ok (sh_scheduler sh) (Checking v)" using own_invD(3)[OF D(2), of w] R by simp
  have run: "validate_read_locations (ver_idx v) (sh_memory sh) = Inr (reads_now (sh_memory sh) (ver_idx v))"
    using v HD(2) by (simp add: validate_read_locations_def reads_now_def reads_valid_def)
  show ?thesis
  proof (cases "reads_now (sh_memory sh) (ver_idx v)")
    case False
    then show ?thesis using run inv R by (simp add: validate_step_def step_ok_local)
  next
    case True
    have "core_inv rv transact vm sh (R(w := Confirming v)) H"
    proof (rule core_invI)
      show "own_inv (execution_error sh \<noteq> None) (sh_scheduler sh) (R(w := Confirming v))"
        using own_same_sched[OF D(2), of "Confirming v" w] R v by simp
      show "hist_inv rv transact vm (sh_scheduler sh) (sh_memory sh) (execution_results sh) (R(w := Confirming v)) H"
        using hist_role[OF D(3), of "Confirming v" w] R by simp
      show "cover_inv (sh_scheduler sh) (sh_memory sh) (R(w := Confirming v))" if "execution_error sh = None"
        by (rule cover_step[OF D(4)[OF that] refl]) (use True R in auto)
    qed (rule D(1))
    then show ?thesis using run True by (auto simp: validate_step_def intro: step_okI)
  qed
qed

lemma try_abort_step_ok:
  assumes inv: "core_inv rv transact vm sh R H" and R: "R w = Checking v"
  shows "step_ok rv transact vm R w H (try_abort_step v sh)"
proof -
  note D = core_invD[OF inv]
  let ?s = "sh_scheduler sh"
  have v: "role_ok ?s (Checking v)" using own_invD(3)[OF D(2), of w] R by simp
  then have vl: "ver_idx v < length (transactions_status ?s)"
    using base_lengths(1)[OF inv_base[OF own_invD(1)[OF D(2)]]] by simp
  obtain b s' where run: "try_validation_abort v ?s = Inr (b, s')" and b: "b \<longleftrightarrow> is_done (stat ?s (ver_idx v))"
    and no: "\<not> b \<longrightarrow> s' = ?s"
    and yes: "b \<longrightarrow> sched_inv (insert (ver_idx v) (aborted R)) s' \<and>
       (\<exists>n. s' = (set_status (ver_idx v) Aborting ?s)\<lparr>num_validated := n\<rparr>)"
    using try_validation_abort_ok[OF own_invD(1)[OF D(2)], of v] v by auto
  let ?sh = "sh\<lparr>sh_scheduler := s'\<rparr>"
  show ?thesis
  proof (cases b)
    case False
    then have s': "s' = ?s" using no by simp
    have "core_inv rv transact vm sh (R(w := Confirming v)) H"
    proof (rule core_invI)
      show "own_inv (execution_error sh \<noteq> None) ?s (R(w := Confirming v))"
        using own_same_sched[OF D(2), of "Confirming v" w] R v by simp
      show "hist_inv rv transact vm ?s (sh_memory sh) (execution_results sh) (R(w := Confirming v)) H"
        using hist_role[OF D(3), of "Confirming v" w] R by simp
      show "cover_inv ?s (sh_memory sh) (R(w := Confirming v))" if "execution_error sh = None"
        by (rule cover_same[OF D(4)[OF that]]) (use False b R in auto)
    qed (rule D(1))
    then show ?thesis using run False s' by (auto simp: try_abort_step_def intro: step_okI)
  next
    case True
    obtain n where s': "sched_inv (insert (ver_idx v) (aborted R)) s'"
      "s' = (set_status (ver_idx v) Aborting ?s)\<lparr>num_validated := n\<rparr>" and was: "is_done (stat ?s (ver_idx v))"
      using yes b True by blast
    have f: "block_size s' = block_size ?s" "min_validation_idx s' = min_validation_idx ?s"
      "validation_idx s' = validation_idx ?s" "stat s' t = (if t = ver_idx v then Aborting else stat ?s t)" for t
      using stat_set_status[OF vl, of Aborting] by (simp_all add: s'(2))
    have "core_inv rv transact vm ?sh (R(w := Converting v)) H"
    proof (rule core_invI)
      show "own_inv (execution_error ?sh \<noteq> None) (sh_scheduler ?sh) (R(w := Converting v))"
        using own_abort[OF D(2) R s' was] by simp
      show "hist_inv rv transact vm (sh_scheduler ?sh) (sh_memory ?sh) (execution_results ?sh) (R(w := Converting v)) H"
        using hist_abort[OF D(2,3) R was s'(2)] by simp
      show "cover_inv (sh_scheduler ?sh) (sh_memory ?sh) (R(w := Converting v))" if "execution_error ?sh = None"
        by (simp, rule cover_same[OF D(4)]) (use that R f in \<open>auto split: if_splits\<close>)
    qed (use D(1) f in simp)
    then show ?thesis using run True by (auto simp: try_abort_step_def intro: step_okI)
  qed
qed

lemma convert_step_ok:
  assumes inv: "core_inv rv transact vm sh R H" and R: "R w = Converting v"
  shows "step_ok rv transact vm R w H (convert_step v sh)"
proof -
  note D = core_invD[OF inv] and HD = hist_invD[OF core_invD(3)[OF inv]]
  have v: "role_ok (sh_scheduler sh) (Converting v)" using own_invD(3)[OF D(2), of w] R by simp
  then obtain m' where run: "convert_writes_to_estimates (ver_idx v) (sh_memory sh) = Inr m'"
    using convert_writes_to_estimates_ok[OF HD(1), of "ver_idx v"] HD(2) by auto
  let ?sh = "sh\<lparr>sh_memory := m'\<rparr>"
  have "core_inv rv transact vm ?sh (R(w := Rescheduling v)) H"
  proof (rule core_invI)
    show "own_inv (execution_error ?sh \<noteq> None) (sh_scheduler ?sh) (R(w := Rescheduling v))"
      using own_same_sched[OF D(2), of "Rescheduling v" w] R v by simp
    show "cover_inv (sh_scheduler ?sh) (sh_memory ?sh) (R(w := Rescheduling v))" if "execution_error ?sh = None"
      using cover_convert[OF D(2,3,4) R run] that by simp
  qed (use D(1) hist_convert[OF D(2,3) R run] in simp_all)
  then show ?thesis using run by (auto simp: convert_step_def intro: step_okI)
qed

lemma finish_validation_step_ok:
  assumes inv: "core_inv rv transact vm sh R H" and R: "R w = (if ab then Rescheduling v else Confirming v)"
  shows "step_ok rv transact vm R w H (finish_validation_step v ab sh)"
proof -
  note D = core_invD[OF inv]
  let ?s = "sh_scheduler sh"
  have v: "role_ok ?s (Checking v)" using own_invD(3)[OF D(2), of w] R by (auto split: if_splits)
  show ?thesis
  proof (cases ab)
    case True
    then have R: "R w = Rescheduling v" using R by simp
    have A: "ver_idx v \<in> aborted R" unfolding aborted_iff by (rule exI[of _ w]) (simp add: R)
    obtain r s' where run: "finish_validation v True ?s = Inr (r, s')"
      using finish_validation_aborted_ok[OF own_invD(1)[OF D(2)] A] v by auto
    let ?sh = "sh\<lparr>sh_scheduler := s'\<rparr>"
    have size: "block_size s' = block_size ?s"
      using own_reschedule(2)[OF D(2) R run] pickedD(4) base_lengths(1)[OF inv_base[OF own_invD(1)[OF D(2)]]]
      by (auto simp: picked_def)
    have "core_inv rv transact vm ?sh (R(w := task_role r)) H"
      by (rule core_invI) (use D(1) size own_reschedule(1)[OF D(2) R run]
          hist_reschedule[OF D(2,3) R run] cover_reschedule[OF D(2,4) R run] in auto)
    then show ?thesis using run True by (auto simp: finish_validation_step_def intro: step_okI)
  next
    case False
    then have R: "R w = Confirming v" using R by simp
    obtain r s' where run: "finish_validation v False ?s = Inr (r, s')"
      using finish_validation_ok[OF own_invD(1)[OF D(2)], of v] v by auto
    note V = own_validated[OF D(2) R run]
    let ?sh = "sh\<lparr>sh_scheduler := s'\<rparr>"
    have vl: "ver_idx v < length (transactions_status ?s)"
      using v base_lengths(1)[OF inv_base[OF own_invD(1)[OF D(2)]]] by simp
    have f: "block_size s' = block_size ?s" "min_validation_idx s' = min_validation_idx ?s"
      "validation_idx s' = validation_idx ?s" "inc s' t = inc ?s t"
      "is_done (stat s' t) = is_done (stat ?s t)" for t
      using stat_set_status[OF vl, of Validated] by (auto simp: V(3))
    have "core_inv rv transact vm ?sh (R(w := Free)) H"
    proof (rule core_invI)
      show "hist_inv rv transact vm (sh_scheduler ?sh) (sh_memory ?sh) (execution_results ?sh) (R(w := Free)) H"
        using hist_status[OF D(3), of s' Free w] R f by simp
      show "cover_inv (sh_scheduler ?sh) (sh_memory ?sh) (R(w := Free))" if "execution_error ?sh = None"
        by (simp, rule cover_same[OF D(4)]) (use that R f in auto)
    qed (use D(1) f V(2) in simp_all)
    then show ?thesis using run False V(1) by (auto simp: finish_validation_step_def intro: step_okI)
  qed
qed

lemma check_error_step_ok:
  assumes inv: "core_inv rv transact vm sh R H" and R: "R w = task_role r"
  shows "step_ok rv transact vm R w H (check_error_step r sh)"
proof (cases "execution_error sh = None")
  case True
  then show ?thesis using inv R
    by (cases r) (auto simp: check_error_step_def intro: step_ok_local)
next
  case False
  note D = core_invD[OF inv]
  have "task_role r = Free \<or> (\<exists>v. task_role r = Pre v) \<or> (\<exists>v. task_role r = Checking v)"
    by (cases "r" rule: task_role.cases) auto
  then have "aborts (task_role r) = None" "holds_data (task_role r) = None" "holds_record (task_role r) = None"
    by auto
  then have "core_inv rv transact vm sh (R(w := Free)) H"
    using own_same_sched[OF D(2), of Free w True] hist_role[OF D(3), of Free w] D(1) False R
    by (intro core_invI) auto
  then show ?thesis using False by (auto simp: check_error_step_def intro: step_okI)
qed

lemma run_evm_step_ok:
  assumes wf: "vm_wf vm" and inv: "core_inv rv transact vm sh R H" and R: "R w = Pre v"
    and ok: "run_ok rv transact vm (history_values H) (ver_idx v) t db"
  shows "step_ok rv transact vm R w H (run_evm_step rv vm v t db sh)"
proof (cases "\<exists>r. t = Evm_Done r")
  case True
  then obtain r where t: "t = Evm_Done r" by blast
  show ?thesis
  proof (cases "vm_finish rv vm (txs vm ! ver_idx v) db r")
    case (Inl p)
    then show ?thesis using vm_finish_panics[OF wf Inl] t by (simp add: step_ok_def tolerated_def)
  next
    case (Inr x)
    have "role_of (after_execute v x) = R w" using R by (cases x) auto
    then show ?thesis
      using step_ok_local[OF inv _ run_ok_finish[OF wf ok[unfolded t] Inr]] t Inr by simp
  qed
next
  case False
  obtain t' db' where st: "evm_step (vm_database rv vm (sh_memory sh)) t db = (t', db')" by fastforce
  have "run_ok rv transact vm (history_values H) (ver_idx v) t' db'"
    using run_ok_step[OF wf hist_invD(1)[OF core_invD(3)[OF inv]] hist_values[OF core_invD(3)[OF inv]] _ ok st]
      False by blast
  then have "step_ok rv transact vm R w H (Inr (RunEvm v t' db', sh))"
    using inv R by (intro step_ok_local) auto
  moreover have "run_evm_step rv vm v t db sh = Inr (RunEvm v t' db', sh)"
    using False st by (cases t) (auto simp del: evm_step.simps)
  ultimately show ?thesis by simp
qed

end
