(* ===== verification/Serializability.thy ===== *)
theory Serializability
  imports Workers_Inv
begin

text \<open>
  The system of workers as a whole: its invariant holds in every reachable state, no worker is
  ever stuck in a scheduler or memory panic, and when all workers have stopped without an
  execution error the block is finished, the validated part of it is stable, and its
  results are those of executing the transactions in order.
\<close>

section \<open>Invariants of transition systems\<close>

locale invariant_system =
  fixes initial :: "'s \<Rightarrow> bool"
    and step :: "'s \<Rightarrow> 's \<Rightarrow> bool"
    and inv :: "'s \<Rightarrow> bool"
  assumes inv_initial: "initial s \<Longrightarrow> inv s"
    and inv_step: "inv s \<Longrightarrow> step s s' \<Longrightarrow> inv s'"
begin

lemma inv_reachable: "initial s0 \<Longrightarrow> step\<^sup>*\<^sup>* s0 s \<Longrightarrow> inv s"
  by (rotate_tac, induction rule: rtranclp_induct) (auto intro: inv_initial inv_step)

end

section \<open>The invariant of the system\<close>

definition roles :: "worker list \<Rightarrow> nat \<Rightarrow> role" where
  "roles ws w = (if w < length ws then role_of (ws ! w) else Free)"

lemma roles_update: "w < length ws \<Longrightarrow> roles (ws[w := k]) = (roles ws)(w := role_of k)"
  by (auto simp: roles_def fun_eq_iff nth_list_update)

definition exit_condition :: "scheduler \<Rightarrow> bool" where
  "exit_condition s \<longleftrightarrow> block_size s \<le> execution_idx s \<and> block_size s \<le> validation_idx s \<and>
     block_size s - min_validation_idx s \<le> num_validated s"

definition sys_ok :: "revm \<Rightarrow> read_error transact \<Rightarrow> vm \<Rightarrow> system \<Rightarrow> history \<Rightarrow> bool" where
  "sys_ok rv transact vm s H \<longleftrightarrow>
     core_inv rv transact vm (sys_shared s) (roles (sys_workers s)) H \<and>
     (\<forall>k \<in> set (sys_workers s). worker_ok rv transact vm (history_values H) k) \<and>
     (all_stopped s \<longrightarrow> execution_error (sys_shared s) = None \<longrightarrow>
        exit_condition (sh_scheduler (sys_shared s)))"

text \<open>What the block starts from: the storage is behind a well-formed machine, and \<open>revm\<close> behaves.\<close>

definition machine_ok :: "read_error transact \<Rightarrow> vm \<Rightarrow> bool" where
  "machine_ok transact vm \<longleftrightarrow> vm_wf vm \<and> (\<forall>i < length (txs vm). propagates (tx_run transact vm i))"

lemma worker_step_ok:
  assumes mach: "machine_ok transact vm" and inv: "core_inv rv transact vm sh R H"
    and R: "R w = role_of k" and ok: "worker_ok rv transact vm (history_values H) k"
  shows "step_ok rv transact vm R w H (worker_step rv transact vm k sh)"
proof -
  have wf: "vm_wf vm" using mach by (simp add: machine_ok_def)
  show ?thesis
  proof (cases k)
    case (StartExecution v)
    have i: "ver_idx v < length (txs vm)"
      using own_invD(3)[OF core_invD(2)[OF inv], of w] R StartExecution core_invD(1)[OF inv] by simp
    show ?thesis
    proof (cases "vm_start vm (ver_idx v)")
      case (Inl p)
      then show ?thesis using StartExecution vm_start_tolerated[OF Inl i] by (simp add: step_ok_def)
    next
      case (Inr db)
      have "run_ok rv transact vm (history_values H) (ver_idx v) (tx_run transact vm (ver_idx v)) db"
        using run_ok_start[OF wf _ Inr] mach i by (simp add: machine_ok_def)
      then show ?thesis using StartExecution Inr inv R by (simp add: step_ok_local)
    qed
  qed (use R inv ok wf next_task_step_ok run_evm_step_ok add_dependency_step_ok set_error_step_ok
      record_step_ok finish_execution_step_ok validate_step_ok try_abort_step_ok convert_step_ok
      finish_validation_step_ok check_error_step_ok step_ok_local in auto)
qed

lemma worker_stops:
  assumes "worker_step rv transact vm k sh = Inr (Stopped, sh')" and "k \<noteq> Stopped"
    and "core_inv rv transact vm sh R H" and "execution_error sh' = None"
  shows "exit_condition (sh_scheduler sh')"
proof -
  have b: "begin_task t \<noteq> Stopped" "after_execute v x \<noteq> Stopped" for t v x
    by (cases t; simp) (cases x; simp)
  have "k = NextTask \<or> (\<exists>r. k = CheckError r)"
    using assms(1,2) b b[symmetric]
    by (cases k) (auto simp: add_dependency_step_def set_error_step_def record_step_def
        finish_execution_step_def validate_step_def try_abort_step_def convert_step_def
        finish_validation_step_def split: sum.splits prod.splits option.splits if_splits
        elim!: run_evm_step.elims)
  then show ?thesis
  proof (elim disjE exE)
    assume "k = NextTask"
    then show ?thesis
      using assms(1) next_task_iter_ok[OF own_invD(1)[OF core_invD(2)[OF assms(3)]]] b
      by (auto simp: next_task_step_def exit_condition_def split: sum.splits round_result.splits)
  next
    fix r assume "k = CheckError r"
    then show ?thesis using assms(1,4) b by (auto simp: check_error_step_def split: option.splits if_splits)
  qed
qed

lemma sys_ok_step:
  assumes mach: "machine_ok transact vm" and ok: "sys_ok rv transact vm s H"
    and step: "sys_step rv transact vm s s'"
  shows "\<exists>H'. sys_ok rv transact vm s' H'"
  using step
proof (cases rule: sys_step.cases)
  case (worker w k sh)
  let ?k = "sys_workers s ! w" and ?R = "roles (sys_workers s)"
  have core: "core_inv rv transact vm (sys_shared s) ?R H" using ok by (simp add: sys_ok_def)
  have R: "?R w = role_of ?k" using worker(2) by (simp add: roles_def)
  have wk: "worker_ok rv transact vm (history_values H) ?k" using ok worker(2) by (simp add: sys_ok_def)
  from worker_step_ok[OF mach core R wk] worker(4) obtain H' where
    H': "values_extend (history_values H) (history_values H')"
    "core_inv rv transact vm sh (?R(w := role_of k)) H'" "worker_ok rv transact vm (history_values H') k"
    by (auto simp: step_ok_def)
  have "sys_ok rv transact vm s' H'"
    unfolding sys_ok_def worker(1)
  proof (intro conjI ballI impI)
    show "core_inv rv transact vm (sys_shared \<lparr>sys_shared = sh, sys_workers = (sys_workers s)[w := k]\<rparr>)
        (roles (sys_workers \<lparr>sys_shared = sh, sys_workers = (sys_workers s)[w := k]\<rparr>)) H'"
      using H'(2) worker(2) by (simp add: roles_update)
    fix j assume "j \<in> set (sys_workers \<lparr>sys_shared = sh, sys_workers = (sys_workers s)[w := k]\<rparr>)"
    then have "j = k \<or> j \<in> set (sys_workers s)" using set_update_subset_insert[of "sys_workers s" w k] by auto
    then show "worker_ok rv transact vm (history_values H') j"
      using H'(1,3) ok worker_ok_extend by (auto simp: sys_ok_def)
  next
    assume "all_stopped \<lparr>sys_shared = sh, sys_workers = (sys_workers s)[w := k]\<rparr>"
      "execution_error (sys_shared \<lparr>sys_shared = sh, sys_workers = (sys_workers s)[w := k]\<rparr>) = None"
    moreover from this have "k = Stopped"
      using worker(2) set_update_memI[of w "sys_workers s" k] by (auto simp: all_stopped_iff)
    ultimately show "exit_condition (sh_scheduler (sys_shared \<lparr>sys_shared = sh, sys_workers = (sys_workers s)[w := k]\<rparr>))"
      using worker_stops[OF worker(4)[unfolded \<open>k = Stopped\<close>] worker(3) core] by simp
  qed
  then show ?thesis by blast
qed

text \<open>The scheduler a block starts with: nothing is executing and nothing has been executed.\<close>

definition initial_scheduler :: "nat \<Rightarrow> scheduler \<Rightarrow> bool" where
  "initial_scheduler n s \<longleftrightarrow> sched_inv {} s \<and> block_size s = n \<and>
     (\<forall>t < n. stat s t = ReadyToExecute \<or> stat s t = Aborting)"

definition sys_initial :: "vm \<Rightarrow> system \<Rightarrow> bool" where
  "sys_initial vm s \<longleftrightarrow> (\<exists>s0 c. initial_scheduler (length (txs vm)) s0 \<and> 0 < c \<and> s = sys_init vm s0 c)"

lemma mv_new_estimates:
  "mv_get (mv_new n [(l, [0..<n])]) k i = (if k = l \<and> i < n then Some Estimate else None)"
  by (simp add: mv_new_view)

lemma mv_last_new:
  "length (mv_last (mv_new n est)) = n"
  "i < n \<Longrightarrow> mv_last (mv_new n est) ! i = last_locations_default"
  by (simp_all add: mv_new_def)

lemma sys_ok_init:
  assumes s0: "initial_scheduler (length (txs vm)) s0" and c: "0 < c"
  shows "sys_ok rv transact vm (sys_init vm s0 c) Map.empty"
proof -
  let ?n = "length (txs vm)" and ?m = "mv_new (length (txs vm)) [(beneficiary_location_hash vm, [0..<length (txs vm)])]"
  have st: "\<And>t. t < ?n \<Longrightarrow> stat s0 t = ReadyToExecute \<or> stat s0 t = Aborting" "block_size s0 = ?n"
    "sched_inv {} s0" using s0 by (auto simp: initial_scheduler_def)
  have R: "roles (replicate c NextTask) = (\<lambda>w. Free)" by (auto simp: roles_def fun_eq_iff)
  have nd: "\<not> is_done (stat s0 t)" if "t < ?n" for t using st(1)[OF that] by auto
  have nl: "\<not> live s0 (\<lambda>w. Free) t" "\<not> current s0 (\<lambda>w. Free) t" if "t < ?n" for t
    using nd[OF that] by (auto simp: live_def current_def some_role_def)
  have own: "own_inv False s0 (\<lambda>w. Free)"
  proof -
    have "aborted (\<lambda>w. Free) = {}" by (auto simp: aborted_iff)
    moreover have "all_owned s0 (\<lambda>w. Free)" using st by (fastforce simp: all_owned_def)
    ultimately show ?thesis using st(3) by (simp add: own_inv_def single_owners_def)
  qed
  have hist: "hist_inv rv transact vm s0 ?m (replicate ?n None) (\<lambda>w. Free) Map.empty"
    by (rule hist_invI) (use st(2) nl mv_inv_new in
        \<open>auto simp: mv_new_estimates mv_last_new last_locations_default_def split: if_splits\<close>)
  have "core_inv rv transact vm (sys_shared (sys_init vm s0 c)) (\<lambda>w. Free) Map.empty"
    by (rule core_invI) (use own hist st(2) nd in \<open>auto simp: sys_init_def Let_def cover_inv_def\<close>)
  then show ?thesis using R c by (auto simp: sys_ok_def sys_init_def Let_def all_stopped_iff)
qed

interpretation workers: invariant_system
  "\<lambda>s. machine_ok transact vm \<and> sys_initial vm s" "sys_step rv transact vm"
  "\<lambda>s. machine_ok transact vm \<and> (\<exists>H. sys_ok rv transact vm s H)"
  for rv transact vm
proof unfold_locales
  fix s assume "machine_ok transact vm \<and> sys_initial vm s"
  then show "machine_ok transact vm \<and> (\<exists>H. sys_ok rv transact vm s H)"
    using sys_ok_init unfolding sys_initial_def by blast
next
  fix s s' assume "machine_ok transact vm \<and> (\<exists>H. sys_ok rv transact vm s H)" "sys_step rv transact vm s s'"
  then show "machine_ok transact vm \<and> (\<exists>H. sys_ok rv transact vm s' H)"
    using sys_ok_step by blast
qed

lemma reachable_ok:
  assumes "machine_ok transact vm" "initial_scheduler (length (txs vm)) s0" "0 < c"
    and "reachable rv transact vm s0 c s"
  obtains H where "sys_ok rv transact vm s H"
  using workers.inv_reachable[of transact vm "sys_init vm s0 c" rv s] assms
  by (auto simp: sys_initial_def reachable_def)

section \<open>Panics of the scheduler and of the memory are not tolerated\<close>

lemma try_execute_panics: "try_execute i s = Inl p \<Longrightarrow> p = Index_out_of_bounds"
proof (induction i s rule: try_execute.induct)
  case (1 tx s)
  show ?case
  proof (cases "tx < block_size s")
    case True
    then show ?thesis using 1
      by (subst (asm) (2) try_execute.simps) (auto simp: vec_get_eq_Inl_iff split: sum.splits if_splits)
  qed (use 1 in \<open>simp add: try_execute.simps\<close>)
qed

lemma set_ready_panics: "set_ready_status i s = Inl p \<Longrightarrow> \<not> tolerated p"
  by (auto simp: set_ready_status_def vec_get_eq_Inl_iff tolerated_def split: sum.splits if_splits)

lemma resume_panics: "resume_dependents ds m s = Inl p \<Longrightarrow> \<not> tolerated p"
proof (induction ds m s rule: resume_dependents.induct)
  case (2 tx txs m s)
  show ?case
  proof (cases "resume_dependent tx s")
    case (Inl q)
    then show ?thesis using "2.prems" set_ready_panics
      by (auto simp: resume_dependent_def Let_def map_sum_def split: sum.splits if_splits option.splits)
  next
    case (Inr x)
    then show ?thesis using "2.IH"[OF Inr, of "fst x" "snd x"] "2.prems" by (cases x) simp
  qed
qed simp

lemma next_task_panics: "next_task_iter s = Inl p \<Longrightarrow> \<not> tolerated p"
  using try_execute_panics
  by (fastforce simp: next_task_iter_def sched_try_validate_def Let_def vec_get_eq_Inl_iff tolerated_def
      split: sum.splits if_splits option.splits prod.splits)

lemma scheduler_panics:
  "add_dependency i b s = Inl p \<Longrightarrow> \<not> tolerated p"
  "finish_execution v new nxt s = Inl p \<Longrightarrow> \<not> tolerated p"
  "try_validation_abort v s = Inl p \<Longrightarrow> \<not> tolerated p"
  "finish_validation v ab s = Inl p \<Longrightarrow> \<not> tolerated p"
proof -
  show "add_dependency i b s = Inl p \<Longrightarrow> \<not> tolerated p" "try_validation_abort v s = Inl p \<Longrightarrow> \<not> tolerated p"
    by (auto simp: add_dependency_def try_validation_abort_def Let_def vec_get_eq_Inl_iff tolerated_def
        split: sum.splits if_splits option.splits)
  show "finish_execution v new nxt s = Inl p \<Longrightarrow> \<not> tolerated p"
    using resume_panics
    by (fastforce simp: finish_execution_def Let_def vec_get_eq_Inl_iff tolerated_def
        split: sum.splits if_splits option.splits)
  show "finish_validation v ab s = Inl p \<Longrightarrow> \<not> tolerated p"
    using try_execute_panics set_ready_panics
    by (fastforce simp: finish_validation_def Let_def vec_get_eq_Inl_iff tolerated_def
        split: sum.splits if_splits option.splits)
qed

lemma memory_panics:
  "mv_record v reads ws m = Inl p \<Longrightarrow> \<not> tolerated p"
  "validate_read_locations i m = Inl p \<Longrightarrow> \<not> tolerated p"
  "convert_writes_to_estimates i m = Inl p \<Longrightarrow> \<not> tolerated p"
  by (auto simp: mv_record_def validate_read_locations_def convert_writes_to_estimates_def Let_def
      vec_get_eq_Inl_iff tolerated_def split: sum.splits)

text \<open>Where a worker can panic: at the start of an execution, at its end, and at a second error.\<close>

fun panic_cause :: "vm \<Rightarrow> shared \<Rightarrow> worker \<Rightarrow> rust_panic \<Rightarrow> bool" where
  "panic_cause vm sh (StartExecution v) p \<longleftrightarrow>
     (\<exists>a e. transact_to (txs vm ! ver_idx v) = Call a \<and> st_is_contract (vm_storage vm) a = Inl e)"
| "panic_cause vm sh (RunEvm v t db) p \<longleftrightarrow> (\<exists>r. t = Evm_Done r) \<and> p = eof_panic"
| "panic_cause vm sh (SetError v e) p \<longleftrightarrow> execution_error sh \<noteq> None"
| "panic_cause vm sh k p \<longleftrightarrow> False"

lemma vm_start_panics:
  "vm_start vm i = Inl p \<Longrightarrow> i < length (txs vm) \<Longrightarrow>
   \<exists>a e. transact_to (txs vm ! i) = Call a \<and> st_is_contract (vm_storage vm) a = Inl e"
  by (auto simp: vm_start_def maybe_lazy_def split: sum.splits transact_to.splits if_splits)

lemma run_evm_step_panics:
  "vm_wf vm \<Longrightarrow> run_evm_step rv vm v t db sh = Inl p \<Longrightarrow> (\<exists>r. t = Evm_Done r) \<and> p = eof_panic"
  using vm_finish_panics by (cases t) (auto split: sum.splits prod.splits)

lemma worker_panic_cause:
  assumes "tolerated p" and "worker_step rv transact vm k sh = Inl p" and "vm_wf vm"
    and "\<And>v. k = StartExecution v \<Longrightarrow> ver_idx v < length (txs vm)"
  shows "panic_cause vm sh k p"
proof (cases k)
  case (StartExecution v)
  then show ?thesis using assms vm_start_panics by (auto split: sum.splits)
next
  case (RunEvm v t db)
  then show ?thesis using run_evm_step_panics[OF assms(3)] assms(2) by simp
next
  case (Record v res reads ws nxt)
  then have "mv_record v reads ws (sh_memory sh) = Inl p \<or> p = Index_out_of_bounds"
    using assms(2) by (auto simp: record_step_def vec_get_eq_Inl_iff split: sum.splits)
  then show ?thesis using assms(1) memory_panics(1) tolerated_def by blast
qed (use assms(1,2) next_task_panics scheduler_panics memory_panics(2,3) in
    \<open>auto simp: next_task_step_def add_dependency_step_def set_error_step_def finish_execution_step_def
      validate_step_def try_abort_step_def convert_step_def finish_validation_step_def
      check_error_step_def split: sum.splits option.splits prod.splits\<close>)

lemma reachable_panic_cause:
  assumes "machine_ok transact vm" and "initial_scheduler (length (txs vm)) s0" and "0 < c"
    and "reachable rv transact vm s0 c s" and "w < length (sys_workers s)"
    and "worker_step rv transact vm (sys_workers s ! w) (sys_shared s) = Inl p"
  shows "panic_cause vm (sys_shared s) (sys_workers s ! w) p"
proof -
  obtain H where ok: "sys_ok rv transact vm s H" using reachable_ok[OF assms(1-4)] by blast
  let ?k = "sys_workers s ! w" and ?R = "roles (sys_workers s)"
  have c: "core_inv rv transact vm (sys_shared s) ?R H" and k: "worker_ok rv transact vm (history_values H) ?k"
    and R: "?R w = role_of ?k"
    using ok assms(5) by (simp_all add: sys_ok_def roles_def)
  have "tolerated p" using worker_step_ok[OF assms(1) c R k] assms(6) by (simp add: step_ok_def)
  moreover have "ver_idx v < length (txs vm)" if "?k = StartExecution v" for v
    using own_invD(3)[OF core_invD(2)[OF c], of w] R that core_invD(1)[OF c] by (simp add: role_ok_def)
  ultimately show ?thesis
    using worker_panic_cause assms(1,6) by (auto simp: machine_ok_def)
qed

section \<open>When all workers have stopped\<close>

lemma sys_ok_final:
  assumes ok: "sys_ok rv transact vm s H" and fin: "all_stopped s"
    and err: "execution_error (sys_shared s) = None" and j: "j < length (txs vm)"
  defines "sch \<equiv> sh_scheduler (sys_shared s)"
  shows "is_done (stat sch j)"
    and "min_validation_idx sch \<le> j \<Longrightarrow> stat sch j = Validated"
    and "min_validation_idx sch \<le> j \<Longrightarrow> reads_now (sh_memory (sys_shared s)) j"
proof -
  note core = core_invD[of rv transact vm "sys_shared s" "roles (sys_workers s)" H]
  have c: "core_inv rv transact vm (sys_shared s) (roles (sys_workers s)) H"
    and ex: "exit_condition sch" using ok fin err by (auto simp: sys_ok_def sch_def)
  have R: "roles (sys_workers s) = (\<lambda>w. Free)"
    using fin nth_mem[of _ "sys_workers s"] by (fastforce simp: roles_def all_stopped_iff fun_eq_iff)
  note D = core[OF c, unfolded R, folded sch_def]
  have inv: "sched_inv {} sch"
  proof -
    have "aborted (\<lambda>w. Free) = {}" by (auto simp: aborted_iff)
    then show ?thesis using own_invD(1)[OF D(2)] by simp
  qed
  have idle: "stat sch t \<noteq> Executing" if "t < block_size sch" for t
    using own_invD(4)[OF D(2)] err that by (auto simp: all_owned_def)
  have jb: "j < block_size sch" using j D(1) by simp
  show dn: "is_done (stat sch j)"
    by (rule quiescent_all_done[OF inv idle _ jb]) (use ex in \<open>auto simp: exit_condition_def\<close>)
  assume m: "min_validation_idx sch \<le> j"
  show "stat sch j = Validated"
    by (rule validated_tail[OF inv_base[OF inv] _ m jb]) (use ex in \<open>simp add: exit_condition_def\<close>)
  have "covered sch (sh_memory (sys_shared s)) (\<lambda>w. Free) j"
    using D(4)[OF err] jb dn m unfolding cover_inv_def by blast
  then show "reads_now (sh_memory (sys_shared s)) j"
    using ex jb by (auto simp: covered_def exit_condition_def)
qed

text \<open>
  What the memory and the results hold for an executed transaction: its writes, under its
  incarnation, and the result of an execution that can be replayed.
\<close>

lemma sys_ok_executed:
  assumes ok: "sys_ok rv transact vm s H" and fin: "all_stopped s"
    and err: "execution_error (sys_shared s) = None" and j: "j < length (txs vm)"
  defines "sch \<equiv> sh_scheduler (sys_shared s)" and "m \<equiv> sh_memory (sys_shared s)"
  obtains r where "execution_results (sys_shared s) ! j = Some (rec_result r)"
    and "last_read (mv_last m ! j) = rec_reads r"
    and "\<And>l. mv_get m l j = map_option (Data (inc sch j)) (map_of (rev (rec_writes r)) l)"
    and "replayable rv transact vm (history_values H) j r"
proof -
  have c: "core_inv rv transact vm (sys_shared s) (roles (sys_workers s)) H"
    using ok by (simp add: sys_ok_def)
  note D = core_invD[OF c] and HD = hist_invD[OF core_invD(3)[OF c], folded sch_def m_def]
  have jb: "j < block_size sch" using j D(1) by (simp add: sch_def)
  have dn: "is_done (stat sch j)" unfolding sch_def by (rule sys_ok_final(1)[OF ok fin err j])
  then have live: "live sch (roles (sys_workers s)) j" by (simp add: live_def)
  obtain r where r: "H \<lparr>ver_idx = j, ver_incarnation = inc sch j\<rparr> = Some r"
    "execution_results (sys_shared s) ! j = Some (rec_result r)"
    "mv_last m ! j = \<lparr>last_read = rec_reads r, last_write = map fst (rec_writes r)\<rparr>"
    using HD(7)[OF jb live_current[OF live]] by blast
  show thesis
  proof (rule that[OF r(2)])
    show "last_read (mv_last m ! j) = rec_reads r" by (simp add: r(3))
    show "mv_get m l j = map_option (Data (inc sch j)) (map_of (rev (rec_writes r)) l)" for l
      using HD(8)[OF jb live, of l] r(1) by (simp add: history_values_def)
    show "replayable rv transact vm (history_values H) j r" using HD(5)[OF r(1)] by simp
  qed
qed

section \<open>Executing in order\<close>

text \<open>
  The reference: each transaction is executed once, in the order of the block, on the memory
  that holds the writes of the transactions before it. \<open>incs\<close> are the incarnation numbers the
  writes are recorded under.
\<close>

fun in_order ::
  "revm \<Rightarrow> read_error transact \<Rightarrow> vm \<Rightarrow> (tx_idx \<Rightarrow> tx_incarnation) \<Rightarrow> nat
   \<Rightarrow> (pevm_tx_execution_result list \<times> mv_memory) option" where
  "in_order rv transact vm incs 0 =
     Some ([], mv_new (length (txs vm)) [(beneficiary_location_hash vm, [0..<length (txs vm)])])"
| "in_order rv transact vm incs (Suc k) =
     (case in_order rv transact vm incs k of
        None \<Rightarrow> None
      | Some (results, m) \<Rightarrow>
          (case vm_execute rv transact vm m k of
             Inr (VmOk res reads ws nxt) \<Rightarrow>
               (case mv_record \<lparr>ver_idx = k, ver_incarnation = incs k\<rparr> reads ws m of
                  Inr (_, m') \<Rightarrow> Some (results @ [res], m')
                | Inl _ \<Rightarrow> None)
           | _ \<Rightarrow> None))"

text \<open>
  What in-order execution of the first \<open>k\<close> transactions has in common with a finished parallel
  run: the results, and the entries of these transactions; above them the memory is untouched.
\<close>

definition in_order_agrees :: "vm \<Rightarrow> shared \<Rightarrow> nat \<Rightarrow> pevm_tx_execution_result list \<Rightarrow> mv_memory \<Rightarrow> bool" where
  "in_order_agrees vm sh k results m \<longleftrightarrow>
    map Some results = take k (execution_results sh) \<and>
    mv_inv m \<and> length (mv_last m) = length (txs vm) \<and>
    (\<forall>i \<ge> k. i < length (txs vm) \<longrightarrow> last_write (mv_last m ! i) = []) \<and>
    (\<forall>l i. i < k \<longrightarrow> mv_get m l i = mv_get (sh_memory sh) l i) \<and>
    (\<forall>l i. k \<le> i \<longrightarrow> mv_get m l i =
       (if l = beneficiary_location_hash vm \<and> i < length (txs vm) then Some Estimate else None))"

lemma in_order_agreesD:
  assumes "in_order_agrees vm sh k results m"
  shows "map Some results = take k (execution_results sh)" and "mv_inv m"
    and "length (mv_last m) = length (txs vm)"
    and "\<And>i. k \<le> i \<Longrightarrow> i < length (txs vm) \<Longrightarrow> last_write (mv_last m ! i) = []"
    and "\<And>l i. i < k \<Longrightarrow> mv_get m l i = mv_get (sh_memory sh) l i"
    and "\<And>l i. k \<le> i \<Longrightarrow> mv_get m l i =
       (if l = beneficiary_location_hash vm \<and> i < length (txs vm) then Some Estimate else None)"
  using assms by (simp_all add: in_order_agrees_def)

lemma in_order_reads:
  assumes inv: "mv_inv m" "mv_inv M" and same: "\<And>l i. i < k \<Longrightarrow> mv_get m l i = mv_get M l i"
    and origins: "\<And>l os. (l, os) \<in> set reads \<Longrightarrow> origins_ok os" and valid: "reads_valid M k reads"
  shows "reads_valid m k reads"
  unfolding reads_valid_def list_all_iff
proof
  fix p assume p: "p \<in> set reads"
  obtain l os where [simp]: "p = (l, os)" by (cases p)
  have os: "origins_ok os" using origins p by simp
  have "validate_location k M p" using valid p by (simp add: reads_valid_def list_all_iff)
  moreover have "walk m l k = walk M l k" by (rule walk_cong[OF inv(2,1)]) (use same in simp)
  ultimately show "validate_location k m p"
    using validate_location_walk[OF os, of k m l] validate_location_walk[OF os, of k M l] by simp
qed

lemma in_order_step:
  assumes ok: "sys_ok rv transact vm s H" and fin: "all_stopped s"
    and err: "execution_error (sys_shared s) = None" and kn: "k < length (txs vm)"
    and valid: "reads_now (sh_memory (sys_shared s)) k"
    and agrees: "in_order_agrees vm (sys_shared s) k results m"
  defines "v \<equiv> \<lparr>ver_idx = k, ver_incarnation = inc (sh_scheduler (sys_shared s)) k\<rparr>"
  shows "\<exists>res reads ws nxt new m'. vm_execute rv transact vm m k = Inr (VmOk res reads ws nxt) \<and>
    mv_record v reads ws m = Inr (new, m') \<and> in_order_agrees vm (sys_shared s) (Suc k) (results @ [res]) m'"
proof -
  let ?M = "sh_memory (sys_shared s)" and ?ben = "beneficiary_location_hash vm"
  note IH = in_order_agreesD[OF agrees]
  have c: "core_inv rv transact vm (sys_shared s) (roles (sys_workers s)) H" using ok by (simp add: sys_ok_def)
  note HD = hist_invD[OF core_invD(3)[OF c]]
  obtain r where r: "execution_results (sys_shared s) ! k = Some (rec_result r)"
    "last_read (mv_last ?M ! k) = rec_reads r"
    "\<And>l. mv_get ?M l k = map_option (Data (ver_incarnation v)) (map_of (rev (rec_writes r)) l)"
    "replayable rv transact vm (history_values H) k r"
    using sys_ok_executed[OF ok fin err kn] by (metis v_def tx_version.select_convs(2))
  have vals: "mv_values (history_values H) m"
    using hist_values[OF core_invD(3)[OF c]] IH(5,6) unfolding mv_values_def
    by (metis (no_types, lifting) memory_entry.distinct(1) not_le option.distinct(1) option.inject)
  have "reads_valid m k (rec_reads r)"
    by (rule in_order_reads[OF IH(2) HD(1) IH(5)]) (use r(2,4) valid in \<open>auto simp: replayable_def reads_now_def\<close>)
  then have run: "vm_execute rv transact vm m k =
      Inr (VmOk (rec_result r) (rec_reads r) (rec_writes r) (rec_next r))"
    using r(4) IH(2) vals values_extend_refl unfolding replayable_def by blast
  obtain new m' where m': "mv_record v (rec_reads r) (rec_writes r) m = Inr (new, m')" "mv_inv m'"
    "mv_last m' = (mv_last m)[k := \<lparr>last_read = rec_reads r, last_write = map fst (rec_writes r)\<rparr>]"
    "\<And>l j. mv_get m' l j = (if j = k then recorded_entry v (rec_writes r) m l else mv_get m l j)"
    using mv_record_ok[OF IH(2), of v "rec_reads r" "rec_writes r"] kn IH(3) by (auto simp: v_def)
  have ben: "?ben \<in> fst ` set (rec_writes r)" using r(4) by (simp add: replayable_def)
  have entry: "mv_get m' l k = mv_get ?M l k" for l
    using IH(4)[of k] IH(6)[of k l] kn ben map_of_rev_dom[of "rec_writes r" ?ben]
    by (auto simp: m'(4) r(3) recorded_entry_def v_def split: option.splits if_splits)
  have "map Some (results @ [rec_result r]) = take (Suc k) (execution_results (sys_shared s))"
    using IH(1) r(1) kn HD(3) core_invD(1)[OF c] by (simp add: take_Suc_conv_app_nth)
  moreover have "mv_get m' l i = mv_get ?M l i" if "i < Suc k" for l i
    using that entry[of l] IH(5)[of i l] by (cases "i = k") (auto simp: m'(4))
  ultimately have "in_order_agrees vm (sys_shared s) (Suc k) (results @ [rec_result r]) m'"
    using IH(3,4,6) m'(2-4) by (simp add: in_order_agrees_def)
  then show ?thesis using run m'(1) by blast
qed

lemma in_order_final:
  assumes ok: "sys_ok rv transact vm s H" and fin: "all_stopped s"
    and err: "execution_error (sys_shared s) = None"
    and valid: "\<And>j. j < length (txs vm) \<Longrightarrow> reads_now (sh_memory (sys_shared s)) j"
    and k: "k \<le> length (txs vm)"
  shows "\<exists>results m. in_order rv transact vm (inc (sh_scheduler (sys_shared s))) k = Some (results, m) \<and>
    in_order_agrees vm (sys_shared s) k results m"
  using k
proof (induction k)
  case 0
  then show ?case using mv_inv_new[of "length (txs vm)"]
    by (simp add: in_order_agrees_def mv_last_new mv_new_estimates last_locations_default_def)
next
  case (Suc k)
  then obtain results m where IH: "in_order rv transact vm (inc (sh_scheduler (sys_shared s))) k = Some (results, m)"
    "in_order_agrees vm (sys_shared s) k results m" by auto
  from in_order_step[OF ok fin err _ valid IH(2)] Suc.prems IH(1) show ?case by fastforce
qed

text \<open>It remains to know that the reads below the least validation index are valid.\<close>

lemma in_order_complete:
  assumes ok: "sys_ok rv transact vm s H" and fin: "all_stopped s" and err: "execution_error (sys_shared s) = None"
    and low: "\<And>j. j < length (txs vm) \<Longrightarrow> j < min_validation_idx (sh_scheduler (sys_shared s)) \<Longrightarrow>
      reads_now (sh_memory (sys_shared s)) j"
  shows "\<exists>results m. in_order rv transact vm (inc (sh_scheduler (sys_shared s))) (length (txs vm)) = Some (results, m) \<and>
    execution_results (sys_shared s) = map Some results \<and>
    (\<forall>l i. i < length (txs vm) \<longrightarrow> mv_get m l i = mv_get (sh_memory (sys_shared s)) l i)"
proof -
  have c: "core_inv rv transact vm (sys_shared s) (roles (sys_workers s)) H"
    using ok by (simp add: sys_ok_def)
  have "length (execution_results (sys_shared s)) = length (txs vm)"
    using hist_invD(3)[OF core_invD(3)[OF c]] core_invD(1)[OF c] by simp
  moreover have "reads_now (sh_memory (sys_shared s)) j" if "j < length (txs vm)" for j
    using sys_ok_final(3)[OF ok fin err that] low[OF that] by fastforce
  ultimately show ?thesis
    using in_order_final[OF ok fin err _ order_refl] by (fastforce simp: in_order_agrees_def)
qed

end
