(* ===== verification/Preprocess.thy ===== *)
theory Preprocess
  imports Scheduler_Inv Primitives
begin

text \<open>
  \<open>preprocess_dependencies\<close> of \<open>src/src/pevm.rs\<close>: the dependencies between transactions that
  are known before execution, the fallback to sequential execution when there are too many,
  and the scheduler the block starts with. The main result is that this scheduler satisfies
  the invariant of \<open>Scheduler_Inv\<close>.
\<close>

section \<open>Preprocessing\<close>

record preprocess =
  pp_status :: transactions_status
  pp_dependents :: transactions_dependents
  pp_dependencies :: transactions_dependencies_num
  last_tx_idx_by_sender :: "(address, tx_idx) hashmap"
  last_tx_idx_by_recipient :: "(address, tx_idx) hashmap"

definition preprocess_init :: "nat \<Rightarrow> preprocess" where
  "preprocess_init n =
     \<lparr>pp_status = replicate n \<lparr>incarnation = 0, status = ReadyToExecute\<rparr>,
      pp_dependents = replicate n [], pp_dependencies = [],
      last_tx_idx_by_sender = [], last_tx_idx_by_recipient = []\<rparr>"

fun push_dependents ::
  "tx_idx \<Rightarrow> tx_idx list \<Rightarrow> transactions_dependents \<Rightarrow> transactions_dependents panics" where
  "push_dependents i [] deps = Inr deps"
| "push_dependents i (d # ds) deps =
     (case vec_get deps d of
        Inl p \<Rightarrow> Inl p
      | Inr xs \<Rightarrow> push_dependents i ds (deps[d := xs @ [i]]))"

definition register_dependency :: "tx_idx \<Rightarrow> tx_idx list \<Rightarrow> preprocess \<Rightarrow> preprocess panics" where
  "register_dependency i ds pp =
     (case vec_get (pp_status pp) i of
        Inl p \<Rightarrow> Inl p
      | Inr t \<Rightarrow>
          (case push_dependents i ds (pp_dependents pp) of
             Inl p \<Rightarrow> Inl p
           | Inr deps \<Rightarrow>
               Inr (pp\<lparr>pp_status := (pp_status pp)[i := t\<lparr>status := Aborting\<rparr>],
                      pp_dependencies := hm_insert i (length ds) (pp_dependencies pp),
                      pp_dependents := deps\<rparr>)))"

text \<open>The lower transactions that transaction \<open>i\<close> waits for.\<close>

definition tx_dependencies :: "address \<Rightarrow> tx_idx \<Rightarrow> tx_env \<Rightarrow> preprocess \<Rightarrow> tx_idx list" where
  "tx_dependencies beneficiary i tx pp =
     (if i = 0 then []
      else if caller tx = beneficiary \<or> transact_to tx = Call beneficiary then
        (case hm_get (last_tx_idx_by_sender pp) beneficiary of
           Some j \<Rightarrow> [j..<i] | None \<Rightarrow> [0..<i])
      else
        (let ds = (case hm_get (last_tx_idx_by_sender pp) (caller tx) of
                     Some j \<Rightarrow> [j] | None \<Rightarrow> [])
         in case hm_get (last_tx_idx_by_recipient pp) (caller tx) of
              Some j \<Rightarrow> if j \<in> set ds then ds else ds @ [j]
            | None \<Rightarrow> ds))"

text \<open>
  The test \<open>len as f64 / block_size as f64 > 0.85\<close>. Correct rounding makes it the exact
  comparison with \<open>85 / 100\<close> for every block of less than \<open>2 ^ 40\<close> transactions.
\<close>

definition too_many_dependencies :: "nat \<Rightarrow> nat \<Rightarrow> bool" where
  "too_many_dependencies len n \<longleftrightarrow> 100 * len > 85 * n"

text \<open>One round of the loop; \<open>None\<close> is the early return that falls back to sequential execution.\<close>

definition preprocess_tx ::
  "address \<Rightarrow> nat \<Rightarrow> tx_idx \<Rightarrow> tx_env \<Rightarrow> preprocess \<Rightarrow> preprocess option panics" where
  "preprocess_tx beneficiary n i tx pp =
     (let ds = tx_dependencies beneficiary i tx pp in
      case (if ds = [] then Inr pp else register_dependency i ds pp) of
        Inl p \<Rightarrow> Inl p
      | Inr pp1 \<Rightarrow>
          if too_many_dependencies (length (pp_dependencies pp1)) n then Inr None
          else
            (let pp2 = pp1\<lparr>last_tx_idx_by_sender :=
                   hm_insert (caller tx) i (last_tx_idx_by_sender pp1)\<rparr>
             in Inr (Some
                  (if tx_value tx > 0 then
                     (case transact_to tx of
                        Call a \<Rightarrow> pp2\<lparr>last_tx_idx_by_recipient :=
                          hm_insert a i (last_tx_idx_by_recipient pp2)\<rparr>
                      | Create \<Rightarrow> pp2)
                   else pp2))))"

fun preprocess_loop ::
  "address \<Rightarrow> nat \<Rightarrow> tx_idx \<Rightarrow> tx_env list \<Rightarrow> preprocess \<Rightarrow> preprocess option panics" where
  "preprocess_loop beneficiary n i [] pp = Inr (Some pp)"
| "preprocess_loop beneficiary n i (tx # txs) pp =
     (case preprocess_tx beneficiary n i tx pp of
        Inl p \<Rightarrow> Inl p
      | Inr None \<Rightarrow> Inr None
      | Inr (Some pp') \<Rightarrow> preprocess_loop beneficiary n (i + 1) txs pp')"

definition max_concurrency_level :: "nat \<Rightarrow> nat \<Rightarrow> nat" where
  "max_concurrency_level n len =
     (let c = (n - len) div 2 in max (if c = 0 then 2 else c) 2)"

definition preprocess_dependencies ::
  "address \<Rightarrow> tx_env list \<Rightarrow> (scheduler \<times> nat) option panics" where
  "preprocess_dependencies beneficiary txs =
     (let n = length txs in
      map_sum id
        (map_option (\<lambda>pp.
           (scheduler_new n (pp_status pp) (pp_dependents pp) (pp_dependencies pp),
            max_concurrency_level n (length (pp_dependencies pp)))))
        (preprocess_loop beneficiary n 0 txs (preprocess_init n)))"

section \<open>The initial scheduler satisfies the invariant\<close>

lemma push_dependents_ok:
  assumes "\<forall>d \<in> set ds. d < length deps"
  shows "\<exists>deps'. push_dependents i ds deps = Inr deps' \<and> length deps' = length deps \<and>
    (\<forall>t. count_list (concat deps') t = count_list (concat deps) t + (if t = i then length ds else 0)) \<and>
    (\<forall>j < length deps. set (deps' ! j) = set (deps ! j) \<union> (if j \<in> set ds then {i} else {}))"
  using assms
proof (induction i ds deps rule: push_dependents.induct)
  case (1 i deps)
  then show ?case by auto
next
  case (2 i d ds deps)
  let ?deps = "deps[d := deps ! d @ [i]]"
  obtain deps' where IH: "push_dependents i ds ?deps = Inr deps'" "length deps' = length deps"
    "\<forall>t. count_list (concat deps') t = count_list (concat ?deps) t + (if t = i then length ds else 0)"
    "\<forall>j < length deps. set (deps' ! j) = set (?deps ! j) \<union> (if j \<in> set ds then {i} else {})"
    using "2.IH"[of "deps ! d"] "2.prems" by auto
  have "count_list (concat ?deps) t = count_list (concat deps) t + (if t = i then 1 else 0)" for t
    using count_list_concat_update[of d deps "deps ! d @ [i]" t] "2.prems" by simp
  then show ?case using IH "2.prems" by (auto simp: nth_list_update)
qed

text \<open>What holds before round \<open>i\<close>.\<close>

definition pp_ok :: "nat \<Rightarrow> tx_idx \<Rightarrow> preprocess \<Rightarrow> bool" where
  "pp_ok n i pp \<longleftrightarrow>
     length (pp_status pp) = n \<and> length (pp_dependents pp) = n \<and>
     (\<forall>t < n. pp_status pp ! t = \<lparr>incarnation = 0,
        status = (if hm_get (pp_dependencies pp) t = None then ReadyToExecute else Aborting)\<rparr>) \<and>
     (\<forall>t k. hm_get (pp_dependencies pp) t = Some k \<longrightarrow> t < i \<and> 0 < k) \<and>
     (\<forall>t. count_list (concat (pp_dependents pp)) t =
        (case hm_get (pp_dependencies pp) t of Some k \<Rightarrow> k | None \<Rightarrow> 0)) \<and>
     (\<forall>j < n. \<forall>t \<in> set (pp_dependents pp ! j). j < t \<and> t < i) \<and>
     distinct (map fst (pp_dependencies pp)) \<and>
     (\<forall>a j. hm_get (last_tx_idx_by_sender pp) a = Some j \<longrightarrow> j < i) \<and>
     (\<forall>a j. hm_get (last_tx_idx_by_recipient pp) a = Some j \<longrightarrow> j < i)"

lemma pp_okD:
  assumes "pp_ok n i pp"
  shows "length (pp_status pp) = n" "length (pp_dependents pp) = n"
    and "t < n \<Longrightarrow> status (pp_status pp ! t) =
      (if hm_get (pp_dependencies pp) t = None then ReadyToExecute else Aborting)"
    and "hm_get (pp_dependencies pp) t = Some k \<Longrightarrow> t < i"
    and "hm_get (pp_dependencies pp) t = Some k \<Longrightarrow> 0 < k"
    and "count_list (concat (pp_dependents pp)) t =
      (case hm_get (pp_dependencies pp) t of Some k \<Rightarrow> k | None \<Rightarrow> 0)"
    and "j < n \<Longrightarrow> t \<in> set (pp_dependents pp ! j) \<Longrightarrow> j < t \<and> t < i"
  using assms unfolding pp_ok_def by simp_all

lemma pp_ok_init: "pp_ok n 0 (preprocess_init n)"
  by (simp add: pp_ok_def preprocess_init_def count_list_0_iff)

lemma tx_dependencies_below: "pp_ok n i pp \<Longrightarrow> d \<in> set (tx_dependencies b i tx pp) \<Longrightarrow> d < i"
  by (auto simp: tx_dependencies_def pp_ok_def Let_def split: if_splits option.splits)

lemma register_dependency_ok:
  assumes ok: "pp_ok n i pp" and i: "i < n" and ds: "ds \<noteq> []" "\<forall>d \<in> set ds. d < i"
  shows "\<exists>pp'. register_dependency i ds pp = Inr pp' \<and> pp_ok n (i + 1) pp'"
proof -
  have len: "length (pp_status pp) = n" "length (pp_dependents pp) = n" using ok by (simp_all add: pp_ok_def)
  obtain deps where deps: "push_dependents i ds (pp_dependents pp) = Inr deps" "length deps = n"
    "\<And>t. count_list (concat deps) t =
       count_list (concat (pp_dependents pp)) t + (if t = i then length ds else 0)"
    "\<And>j. j < n \<Longrightarrow> set (deps ! j) = set (pp_dependents pp ! j) \<union> (if j \<in> set ds then {i} else {})"
    using push_dependents_ok[of ds "pp_dependents pp" i] ds i len by fastforce
  define pp' where "pp' = pp\<lparr>pp_status := (pp_status pp)[i := (pp_status pp ! i)\<lparr>status := Aborting\<rparr>],
     pp_dependencies := hm_insert i (length ds) (pp_dependencies pp), pp_dependents := deps\<rparr>"
  have fresh: "hm_get (pp_dependencies pp) i = None"
    using pp_okD(4)[OF ok, of i] by (cases "hm_get (pp_dependencies pp) i") auto
  have num: "hm_get (pp_dependencies pp') = (hm_get (pp_dependencies pp))(i \<mapsto> length ds)"
    by (simp add: pp'_def hm_get_insert)
  have fld: "pp_status pp' = (pp_status pp)[i := (pp_status pp ! i)\<lparr>status := Aborting\<rparr>]"
    "pp_dependents pp' = deps" "last_tx_idx_by_sender pp' = last_tx_idx_by_sender pp"
    "last_tx_idx_by_recipient pp' = last_tx_idx_by_recipient pp"
    "distinct (map fst (pp_dependencies pp'))"
    using ok by (simp_all add: pp'_def pp_ok_def distinct_hm_insert)
  have "pp_ok n (i + 1) pp'"
    unfolding pp_ok_def num fld(1-4)
  proof (intro conjI allI impI ballI)
    show "length ((pp_status pp)[i := (pp_status pp ! i)\<lparr>status := Aborting\<rparr>]) = n" "length deps = n"
      using len deps by simp_all
    show "(pp_status pp)[i := (pp_status pp ! i)\<lparr>status := Aborting\<rparr>] ! t = \<lparr>incarnation = 0,
        status = (if ((hm_get (pp_dependencies pp))(i \<mapsto> length ds)) t = None
                  then ReadyToExecute else Aborting)\<rparr>" if "t < n" for t
      using ok that len by (auto simp: pp_ok_def nth_list_update)
    show "t < i + 1" "0 < k" if "((hm_get (pp_dependencies pp))(i \<mapsto> length ds)) t = Some k" for t k
      using that ok ds by (auto simp: pp_ok_def less_Suc_eq split: if_splits)
    show "count_list (concat deps) t =
        (case ((hm_get (pp_dependencies pp))(i \<mapsto> length ds)) t of Some k \<Rightarrow> k | None \<Rightarrow> 0)" for t
      using ok fresh by (auto simp: deps(3) pp_ok_def)
    show "j < t" "t < i + 1" if "j < n" "t \<in> set (deps ! j)" for j t
      using that ok ds deps(4)[of j] by (auto simp: pp_ok_def less_Suc_eq split: if_splits)
    show "distinct (map fst (pp_dependencies pp'))" by (rule fld(5))
    show "j < i + 1" if "hm_get (last_tx_idx_by_sender pp) a = Some j" for a j
      using that ok by (fastforce simp: pp_ok_def)
    show "j < i + 1" if "hm_get (last_tx_idx_by_recipient pp) a = Some j" for a j
      using that ok by (fastforce simp: pp_ok_def)
  qed
  moreover have "register_dependency i ds pp = Inr pp'"
    using deps(1) i len by (simp add: register_dependency_def pp'_def)
  ultimately show ?thesis by blast
qed

lemma pp_ok_Suc: "pp_ok n i pp \<Longrightarrow> pp_ok n (i + 1) pp"
  unfolding pp_ok_def by (auto simp: less_Suc_eq)

lemma pp_ok_last:
  "pp_ok n (i + 1) pp \<Longrightarrow> pp_ok n (i + 1) (pp\<lparr>last_tx_idx_by_sender := hm_insert a i (last_tx_idx_by_sender pp)\<rparr>)"
  "pp_ok n (i + 1) pp \<Longrightarrow> pp_ok n (i + 1) (pp\<lparr>last_tx_idx_by_recipient := hm_insert a i (last_tx_idx_by_recipient pp)\<rparr>)"
  by (auto simp: pp_ok_def hm_get_insert)

lemma preprocess_tx_ok:
  assumes ok: "pp_ok n i pp" and i: "i < n"
  shows "\<exists>r. preprocess_tx b n i tx pp = Inr r \<and> (\<forall>pp'. r = Some pp' \<longrightarrow> pp_ok n (i + 1) pp')"
proof -
  let ?ds = "tx_dependencies b i tx pp"
  obtain pp1 where pp1: "(if ?ds = [] then Inr pp else register_dependency i ?ds pp) = Inr pp1"
    and ok1: "pp_ok n (i + 1) pp1"
    using register_dependency_ok[OF ok i, of ?ds] tx_dependencies_below[OF ok] pp_ok_Suc[OF ok]
    by (cases "?ds = []") auto
  show ?thesis
    using pp_ok_last(1)[OF ok1] pp_ok_last(2)[OF pp_ok_last(1)[OF ok1]]
    unfolding preprocess_tx_def Let_def pp1 by (cases "transact_to tx") simp_all
qed

lemma preprocess_loop_ok:
  "pp_ok n i pp \<Longrightarrow> i + length ts = n \<Longrightarrow>
   \<exists>r. preprocess_loop b n i ts pp = Inr r \<and> (\<forall>pp'. r = Some pp' \<longrightarrow> pp_ok n n pp')"
proof (induction b n i ts pp rule: preprocess_loop.induct)
  case (2 b n i tx ts pp)
  then obtain r where "preprocess_tx b n i tx pp = Inr r" "\<forall>pp'. r = Some pp' \<longrightarrow> pp_ok n (i + 1) pp'"
    using preprocess_tx_ok[of n i pp b tx] by auto
  then show ?case using 2 by (cases r) auto
qed auto

lemma pp_ok_scheduler:
  assumes ok: "pp_ok n n pp"
  shows "sched_inv {} (scheduler_new n (pp_status pp) (pp_dependents pp) (pp_dependencies pp))"
    (is "sched_inv {} ?s")
proof -
  have len: "length (pp_status pp) = n" "length (pp_dependents pp) = n" using ok by (simp_all add: pp_ok_def)
  have fld: "transactions_status ?s = pp_status pp" "transactions_dependents ?s = pp_dependents pp"
    "transactions_dependencies_num ?s = pp_dependencies pp" "block_size ?s = n"
    "min_validation_idx ?s = n" "validation_idx ?s = n" "num_validated ?s = 0" "execution_idx ?s = 0"
    by (simp_all add: scheduler_new_def)
  have stat: "t < n \<Longrightarrow> stat ?s t =
      (if hm_get (pp_dependencies pp) t = None then ReadyToExecute else Aborting)" for t
    using pp_okD(3)[OF ok] by (simp add: fld)
  have pend: "pending ?s t = (case hm_get (pp_dependencies pp) t of Some k \<Rightarrow> k | None \<Rightarrow> 0)" for t
    using pp_okD(6)[OF ok] by (simp add: fld pending_def)
  note dep = pp_okD(4,5)[OF ok]
  have "sched_base {} ?s"
  proof (rule sched_baseI)
    show "sizes_ok ?s" by (simp add: sizes_ok_def fld len)
    show "deps_ok (pending ?s) ?s"
      unfolding deps_ok_def pend fld(1,3) len
      by (auto split: option.splits simp: dep(1) stat[unfolded fld(1)] simp del: map_of_eq_Some_iff)
    show "blockers_ok ?s"
      unfolding blockers_ok_def
    proof (intro allI impI ballI)
      fix j t assume "j < block_size ?s" "t \<in> set (transactions_dependents ?s ! j)"
      then show "j < t \<and> \<not> is_done (stat ?s j)"
        using pp_okD(7)[OF ok, of j t] stat[of j] unfolding fld by auto
    qed
    have "\<forall>t \<in> set (pp_status pp). status t \<noteq> Validated"
      using pp_okD(3)[OF ok] len by (auto simp: in_set_conv_nth split: if_splits)
    then show "num_validated ?s = validated_count ?s"
      by (simp add: validated_count_def fld)
    show "min_validation_idx ?s \<le> t" if "t < block_size ?s" "stat ?s t = Validated" for t
      using that stat[of t] by (simp add: fld split: if_splits)
    show "t \<in> {} \<longleftrightarrow> pending ?s t = 0" if "t < block_size ?s" "stat ?s t = Aborting" for t
      using that stat[of t] dep(2)[of t] by (auto simp: pend fld split: if_splits)
  qed simp
  then show ?thesis by (simp add: sched_inv_def ready_ok_def fld)
qed

end
