(* ===== verification/Pevm.thy ===== *)
theory Pevm
  imports Serializability Preprocess
begin

text \<open>
  The entry points of \<open>src/src/pevm.rs\<close>: \<open>execute\<close>, \<open>execute_revm\<close>, \<open>execute_revm_sequential\<close>, and
  the work after the workers have stopped, which accumulates the gas and evaluates the
  accounts that were updated lazily.

  \<open>CacheDB\<close> and its commit are parts of \<open>revm\<close> and a parameter. The parallel execution depends on
  the interleaving, so \<open>execute_revm\<close> and \<open>execute\<close> relate the input to every possible outcome.
  \<open>HashSet\<close> has no fixed order; the model visits its elements in the order of the block.
\<close>

section \<open>Errors and parameters\<close>

datatype pevm_error =
    UnknownBlockSpec
  | MissingHeaderData
  | MissingTransactionData
  | PevmInvalidTransaction transaction_parsing_error
  | PevmExecutionError string
  | UnreachableError

type_synonym pevm_result = "pevm_error + pevm_tx_execution_result list"

record 's cache_db =
  cache_new :: "database_ref \<Rightarrow> 's"
  cache_database :: "('s, storage_error) database"
  cache_commit :: "(address, account) hashmap \<Rightarrow> 's \<Rightarrow> 's"

text \<open>
  What the code takes from other crates: \<open>revm\<close>, \<open>transact\<close> on both kinds of database, the
  random hasher, the \<open>Debug\<close> rendering of errors, \<open>BlobExcessGasAndPrice::new\<close> and \<open>CacheDB\<close>.
\<close>

record 's host =
  host_revm :: revm
  host_transact :: "read_error transact"
  host_transact_seq :: "storage_error transact"
  host_hash :: "memory_location \<Rightarrow> memory_location_hash"
  host_debug :: "execution_error \<Rightarrow> string"
  host_debug_seq :: "storage_error evm_error \<Rightarrow> string"
  host_blob :: "u64 \<Rightarrow> blob_excess_gas_and_price"
  host_cache :: "'s cache_db"

section \<open>Sequential execution\<close>

text \<open>The receipt of a transaction, with the gas of the transactions before it added.\<close>

definition add_gas :: "u128 \<Rightarrow> pevm_tx_execution_result \<Rightarrow> pevm_tx_execution_result" where
  "add_gas cumulative r =
     r\<lparr>tx_receipt := (tx_receipt r)\<lparr>cumulative_gas_used := cumulative + cumulative_gas_used (tx_receipt r)\<rparr>\<rparr>"

fun sequential_loop ::
  "'s host \<Rightarrow> u64 \<Rightarrow> spec_id \<Rightarrow> block_env \<Rightarrow> tx_env list \<Rightarrow> 's \<Rightarrow> u128 \<Rightarrow> pevm_result panics" where
  "sequential_loop h chain spec blk [] db cumulative = Inr (Inr [])"
| "sequential_loop h chain spec blk (tx # ts) db cumulative =
     (case execute_tx (host_transact_seq h) (cache_database (host_cache h)) chain spec blk tx True db of
        (Inl err, _) \<Rightarrow> Inr (Inl (PevmExecutionError (host_debug_seq h err)))
      | (Inr rs, db1) \<Rightarrow>
          (let db2 = cache_commit (host_cache h) (rs_state rs) db1 in
           case from_revm (host_revm h) spec rs of
             Inl p \<Rightarrow> Inl p
           | Inr r \<Rightarrow>
               (let r' = add_gas cumulative r in
                map_sum id (map_sum id (Cons r'))
                  (sequential_loop h chain spec blk ts db2 (cumulative_gas_used (tx_receipt r'))))))"

definition execute_revm_sequential ::
  "'s host \<Rightarrow> storage_ops \<Rightarrow> u64 \<Rightarrow> spec_id \<Rightarrow> block_env \<Rightarrow> tx_env list \<Rightarrow> pevm_result panics" where
  "execute_revm_sequential h st chain spec blk ts =
     sequential_loop h chain spec blk ts
       (cache_new (host_cache h) (storage_wrapper (host_revm h) st)) 0"

section \<open>After the workers\<close>

text \<open>Unwrapping the results and accumulating their gas.\<close>

fun cumulate :: "u128 \<Rightarrow> pevm_tx_execution_result option list \<Rightarrow> pevm_tx_execution_result list panics" where
  "cumulate cumulative [] = Inr []"
| "cumulate cumulative (None # rs) = Inl Unwrap_failed"
| "cumulate cumulative (Some r # rs) =
     (let r' = add_gas cumulative r in
      map_sum id (Cons r') (cumulate (cumulative_gas_used (tx_receipt r')) rs))"

text \<open>Recipients of plain transfers, whose balances are updated lazily.\<close>

fun lazy_to_addresses :: "storage_ops \<Rightarrow> tx_env list \<Rightarrow> address list panics" where
  "lazy_to_addresses st [] = Inr []"
| "lazy_to_addresses st (tx # ts) =
     (case maybe_lazy st tx of
        Inl p \<Rightarrow> Inl p
      | Inr lazy \<Rightarrow>
          map_sum id
            (\<lambda>as. case transact_to tx of
                    Call a \<Rightarrow> if lazy then List.insert a as else as
                  | Create \<Rightarrow> as)
            (lazy_to_addresses st ts))"

definition current_account :: "storage_ops \<Rightarrow> address \<Rightarrow> account_basic" where
  "current_account st a =
     (case st_basic st a of Inr (Some acc) \<Rightarrow> acc | _ \<Rightarrow> account_basic_default)"

fun eval_entry :: "memory_entry \<Rightarrow> account_basic \<Rightarrow> account_basic panics" where
  "eval_entry (Data n (ValBasic i)) acc = Inr (acc\<lparr>balance := info_balance i, nonce := info_nonce i\<rparr>)"
| "eval_entry (Data n (LazyBalanceAddition b)) acc = Inr (acc\<lparr>balance := balance acc + b\<rparr>)"
| "eval_entry _ acc = Inl (Panicked ''unreachable'')"

text \<open>What the state of a transaction holds for an address after evaluation.\<close>

definition eval_account :: "account_basic \<Rightarrow> evm_account option \<Rightarrow> evm_account option" where
  "eval_account acc old =
     (if is_empty acc then None
      else case old of
        Some a \<Rightarrow> Some (a\<lparr>basic := (basic a)\<lparr>balance := balance acc, nonce := nonce acc\<rparr>\<rparr>)
      | None \<Rightarrow> Some \<lparr>basic = acc, storage = []\<rparr>)"

definition set_account ::
  "address \<Rightarrow> account_basic \<Rightarrow> pevm_tx_execution_result \<Rightarrow> pevm_tx_execution_result" where
  "set_account a acc r =
     r\<lparr>tx_state := hm_insert a
        (eval_account acc (case hm_get (tx_state r) a of Some old \<Rightarrow> old | None \<Rightarrow> None)) (tx_state r)\<rparr>"

fun eval_history ::
  "address \<Rightarrow> memory_entry btree \<Rightarrow> account_basic \<Rightarrow> pevm_tx_execution_result list
   \<Rightarrow> pevm_tx_execution_result list panics" where
  "eval_history a [] acc rs = Inr rs"
| "eval_history a ((i, e) # es) acc rs =
     (case eval_entry e acc of
        Inl p \<Rightarrow> Inl p
      | Inr acc' \<Rightarrow>
          (case vec_get rs i of
             Inl p \<Rightarrow> Inl p
           | Inr r \<Rightarrow> eval_history a es acc' (rs[i := set_account a acc' r])))"

fun eval_addresses ::
  "(memory_location \<Rightarrow> memory_location_hash) \<Rightarrow> storage_ops \<Rightarrow> address list \<Rightarrow> mv_memory
   \<Rightarrow> pevm_tx_execution_result list \<Rightarrow> pevm_tx_execution_result list panics" where
  "eval_addresses hash st [] m rs = Inr rs"
| "eval_addresses hash st (a # as) m rs =
     (case consume_location (hash (LocBasic a)) m of
        (None, m') \<Rightarrow> eval_addresses hash st as m' rs
      | (Some entries, m') \<Rightarrow>
          (case eval_history a entries (current_account st a) rs of
             Inl p \<Rightarrow> Inl p
           | Inr rs' \<Rightarrow> eval_addresses hash st as m' rs'))"

definition finish_block ::
  "'s host \<Rightarrow> storage_ops \<Rightarrow> address \<Rightarrow> address list \<Rightarrow> shared \<Rightarrow> pevm_result panics" where
  "finish_block h st beneficiary lazy sh =
     (case execution_error sh of
        Some err \<Rightarrow> Inr (Inl (PevmExecutionError (host_debug h err)))
      | None \<Rightarrow>
          (case cumulate 0 (execution_results sh) of
             Inl p \<Rightarrow> Inl p
           | Inr rs \<Rightarrow>
               map_sum id Inr
                 (eval_addresses (host_hash h) st (lazy @ [beneficiary]) (sh_memory sh) rs)))"

section \<open>Parallel execution\<close>

definition block_vm :: "'s host \<Rightarrow> storage_ops \<Rightarrow> u64 \<Rightarrow> spec_id \<Rightarrow> block_env \<Rightarrow> tx_env list \<Rightarrow> vm" where
  "block_vm h st chain spec blk ts = vm_new (host_hash h) st chain spec blk ts"

text \<open>
  Every outcome of \<open>execute_revm\<close>. A panic of a worker is a panic of the scope; a block on which
  the workers never all stop has no outcome.
\<close>

inductive execute_revm ::
  "'s host \<Rightarrow> storage_ops \<Rightarrow> u64 \<Rightarrow> spec_id \<Rightarrow> block_env \<Rightarrow> tx_env list \<Rightarrow> nat \<Rightarrow> pevm_result panics \<Rightarrow> bool"
  for h st chain spec blk ts concurrency where
  empty: "ts = [] \<Longrightarrow> execute_revm h st chain spec blk ts concurrency (Inr (Inr []))"
| preprocess_panic: "ts \<noteq> [] \<Longrightarrow> preprocess_dependencies (coinbase blk) ts = Inl p \<Longrightarrow>
    execute_revm h st chain spec blk ts concurrency (Inl p)"
| fallback: "ts \<noteq> [] \<Longrightarrow> preprocess_dependencies (coinbase blk) ts = Inr None \<Longrightarrow>
    execute_revm h st chain spec blk ts concurrency
      (execute_revm_sequential h st chain spec blk ts)"
| lazy_panic: "ts \<noteq> [] \<Longrightarrow> preprocess_dependencies (coinbase blk) ts = Inr (Some (s0, limit)) \<Longrightarrow>
    lazy_to_addresses st ts = Inl p \<Longrightarrow> execute_revm h st chain spec blk ts concurrency (Inl p)"
| worker_panic: "ts \<noteq> [] \<Longrightarrow> preprocess_dependencies (coinbase blk) ts = Inr (Some (s0, limit)) \<Longrightarrow>
    lazy_to_addresses st ts = Inr lazy \<Longrightarrow>
    reachable (host_revm h) (host_transact h) (block_vm h st chain spec blk ts) s0
      (min concurrency limit) s \<Longrightarrow>
    w < length (sys_workers s) \<Longrightarrow>
    worker_step (host_revm h) (host_transact h) (block_vm h st chain spec blk ts)
      (sys_workers s ! w) (sys_shared s) = Inl p \<Longrightarrow>
    execute_revm h st chain spec blk ts concurrency (Inl p)"
| finished: "ts \<noteq> [] \<Longrightarrow> preprocess_dependencies (coinbase blk) ts = Inr (Some (s0, limit)) \<Longrightarrow>
    lazy_to_addresses st ts = Inr lazy \<Longrightarrow>
    reachable (host_revm h) (host_transact h) (block_vm h st chain spec blk ts) s0
      (min concurrency limit) s \<Longrightarrow>
    all_stopped s \<Longrightarrow>
    execute_revm h st chain spec blk ts concurrency
      (finish_block h st (coinbase blk) lazy (sys_shared s))"

inductive_cases execute_revmE: "execute_revm h st chain spec blk ts concurrency r"

section \<open>Executing a block\<close>

datatype block_transactions = Full "transaction list" | Hashes | Uncle

record block =
  block_header :: header
  block_txs :: block_transactions

text \<open>The environments of a block, or the error \<open>execute\<close> returns before it executes anything.\<close>

definition block_inputs ::
  "'s host \<Rightarrow> block \<Rightarrow> (pevm_error + (spec_id \<times> block_env \<times> tx_env list)) panics" where
  "block_inputs h b =
     (case get_block_spec (block_header b) of
        None \<Rightarrow> Inr (Inl UnknownBlockSpec)
      | Some spec \<Rightarrow>
          (case get_block_env (host_blob h) (block_header b) of
             None \<Rightarrow> Inr (Inl MissingHeaderData)
           | Some blk \<Rightarrow>
               (case block_txs b of
                  Full ts \<Rightarrow>
                    (case get_tx_envs ts of
                       Inl p \<Rightarrow> Inl p
                     | Inr (Inl e) \<Rightarrow> Inr (Inl (PevmInvalidTransaction e))
                     | Inr (Inr envs) \<Rightarrow> Inr (Inr (spec, blk, envs)))
                | _ \<Rightarrow> Inr (Inl MissingTransactionData))))"

definition run_sequentially :: "bool \<Rightarrow> tx_env list \<Rightarrow> header \<Rightarrow> bool" where
  "run_sequentially force envs hdr \<longleftrightarrow> force \<or> length envs < 4 \<or> hd_gas_used hdr \<le> 650000"

inductive execute :: "'s host \<Rightarrow> storage_ops \<Rightarrow> u64 \<Rightarrow> block \<Rightarrow> nat \<Rightarrow> bool \<Rightarrow> pevm_result panics \<Rightarrow> bool"
  for h st chain b concurrency force where
  parse_panic: "block_inputs h b = Inl p \<Longrightarrow> execute h st chain b concurrency force (Inl p)"
| invalid: "block_inputs h b = Inr (Inl e) \<Longrightarrow> execute h st chain b concurrency force (Inr (Inl e))"
| sequential: "block_inputs h b = Inr (Inr (spec, blk, envs)) \<Longrightarrow>
    run_sequentially force envs (block_header b) \<Longrightarrow>
    execute h st chain b concurrency force (execute_revm_sequential h st chain spec blk envs)"
| parallel: "block_inputs h b = Inr (Inr (spec, blk, envs)) \<Longrightarrow>
    \<not> run_sequentially force envs (block_header b) \<Longrightarrow>
    execute_revm h st chain spec blk envs concurrency r \<Longrightarrow>
    execute h st chain b concurrency force r"

section \<open>The start of a parallel execution\<close>

lemma pp_ok_initial:
  assumes "pp_ok n n pp"
  shows "initial_scheduler n (scheduler_new n (pp_status pp) (pp_dependents pp) (pp_dependencies pp))"
  using pp_ok_scheduler[OF assms] pp_okD(3)[OF assms]
  by (auto simp: initial_scheduler_def scheduler_new_def)

lemma preprocess_initial:
  assumes "preprocess_dependencies b ts = Inr (Some (s0, limit))"
  shows "initial_scheduler (length ts) s0" and "2 \<le> limit" and "min_validation_idx s0 = length ts"
proof -
  obtain r where r: "preprocess_loop b (length ts) 0 ts (preprocess_init (length ts)) = Inr r"
    "\<forall>pp'. r = Some pp' \<longrightarrow> pp_ok (length ts) (length ts) pp'"
    using preprocess_loop_ok[OF pp_ok_init, of ts "length ts" b] by auto
  then obtain pp where pp: "r = Some pp"
    "s0 = scheduler_new (length ts) (pp_status pp) (pp_dependents pp) (pp_dependencies pp)"
    "limit = max_concurrency_level (length ts) (length (pp_dependencies pp))"
    using assms by (auto simp: preprocess_dependencies_def Let_def)
  then show "initial_scheduler (length ts) s0" using r(2) pp_ok_initial by simp
  show "2 \<le> limit" by (simp add: pp(3) max_concurrency_level_def Let_def)
  show "min_validation_idx s0 = length ts" by (simp add: pp(2) scheduler_new_def)
qed

lemma preprocess_returns: "\<exists>r. preprocess_dependencies b ts = Inr r"
  using preprocess_loop_ok[OF pp_ok_init, of ts "length ts" b]
  by (auto simp: preprocess_dependencies_def Let_def)

definition host_ok :: "'s host \<Rightarrow> bool" where
  "host_ok h \<longleftrightarrow> kinds_apart (host_hash h) \<and>
     (\<forall>chain spec blk tx. propagates (host_transact h chain spec blk tx False))"

lemma host_machine: "host_ok h \<Longrightarrow> machine_ok (host_transact h) (block_vm h st chain spec blk ts)"
  by (simp add: machine_ok_def host_ok_def block_vm_def vm_wf_new)

lemma block_vm_simps [simp]:
  "txs (block_vm h st chain spec blk ts) = ts"
  "hash_one (block_vm h st chain spec blk ts) = host_hash h"
  "beneficiary_location_hash (block_vm h st chain spec blk ts) = host_hash h (LocBasic (coinbase blk))"
  "vm_storage (block_vm h st chain spec blk ts) = st"
  by (simp_all add: block_vm_def vm_new_def)

section \<open>The work after the workers returns\<close>

lemma cumulate_returns:
  "\<forall>r \<in> set rs. r \<noteq> None \<Longrightarrow>
   \<exists>rs'. cumulate c rs = Inr rs' \<and> length rs' = length rs"
  by (induction c rs rule: cumulate.induct) (fastforce simp: Let_def)+

text \<open>An entry that evaluation can handle: the value of an account.\<close>

fun account_entry :: "memory_entry \<Rightarrow> bool" where
  "account_entry (Data n (ValStorage x)) = False"
| "account_entry (Data n _) = True"
| "account_entry Estimate = False"

lemma eval_entry_returns: "account_entry e \<Longrightarrow> \<exists>acc'. eval_entry e acc = Inr acc'"
  by (cases e rule: account_entry.cases) auto

lemma eval_history_returns:
  "\<forall>(i, e) \<in> set es. i < length rs \<and> account_entry e \<Longrightarrow>
   \<exists>rs'. eval_history a es acc rs = Inr rs' \<and> length rs' = length rs"
proof (induction a es acc rs rule: eval_history.induct)
  case (2 a i e es acc rs)
  then have "account_entry e" by auto
  then obtain acc' where acc': "eval_entry e acc = Inr acc'" using eval_entry_returns by blast
  show ?case using 2(1)[OF acc', of "rs ! i"] 2(2) acc' by auto
qed simp

definition accounts_evaluable :: "(memory_location \<Rightarrow> memory_location_hash) \<Rightarrow> nat \<Rightarrow> mv_memory \<Rightarrow> bool" where
  "accounts_evaluable hash n m \<longleftrightarrow>
     (\<forall>a es i e. mv_data m (hash (LocBasic a)) = Some es \<longrightarrow> (i, e) \<in> set es \<longrightarrow> i < n \<and> account_entry e)"

lemma eval_addresses_returns:
  "accounts_evaluable hash (length rs) m \<Longrightarrow>
   \<exists>rs'. eval_addresses hash st as m rs = Inr rs' \<and> length rs' = length rs"
proof (induction hash st as m rs rule: eval_addresses.induct)
  case (2 hash st a as m rs)
  let ?m = "m\<lparr>mv_data := (mv_data m)(hash (LocBasic a) := None)\<rparr>"
  have ev: "accounts_evaluable hash (length rs) ?m"
    using "2.prems" by (auto simp: accounts_evaluable_def)
  show ?case
  proof (cases "mv_data m (hash (LocBasic a))")
    case None
    then have c: "consume_location (hash (LocBasic a)) m = (None, ?m)"
      by (auto simp: consume_location_def fun_eq_iff)
    show ?thesis using "2.IH"(1)[OF c[symmetric] refl ev] c by simp
  next
    case (Some es)
    then have c: "consume_location (hash (LocBasic a)) m = (Some es, ?m)"
      by (simp add: consume_location_def)
    have "\<forall>(i, e) \<in> set es. i < length rs \<and> account_entry e"
      using "2.prems" Some by (auto simp: accounts_evaluable_def)
    then obtain rs' where rs': "eval_history a es (current_account st a) rs = Inr rs'"
      "length rs' = length rs" using eval_history_returns by blast
    show ?thesis using "2.IH"(2)[OF c[symmetric] refl rs'(1)] ev rs' c by simp
  qed
qed simp

lemma final_evaluable:
  assumes ok: "sys_ok rv transact vm s H" and fin: "all_stopped s" and wf: "vm_wf vm"
    and err: "execution_error (sys_shared s) = None"
  shows "accounts_evaluable (hash_one vm) (length (txs vm)) (sh_memory (sys_shared s))"
  unfolding accounts_evaluable_def
proof (intro allI impI)
  fix a es i e
  let ?m = "sh_memory (sys_shared s)" and ?l = "hash_one vm (LocBasic a)"
  assume es: "mv_data ?m ?l = Some es" and e: "(i, e) \<in> set es"
  have c: "core_inv rv transact vm (sys_shared s) (roles (sys_workers s)) H"
    using ok by (simp add: sys_ok_def)
  note HD = hist_invD[OF core_invD(3)[OF c]] and n = core_invD(1)[OF c]
  have "btree_inv es" using mv_invD(1)[OF HD(1)] es by (auto simp: trees_ok_def)
  then have get: "mv_get ?m ?l i = Some e" using es e by (simp add: mv_get_def btree_get_iff)
  then have i: "i < length (txs vm)"
    using mv_invD(3)[OF HD(1)] HD(2,11) n by (cases e) auto
  obtain r where r: "mv_get ?m ?l i = map_option (Data (inc (sh_scheduler (sys_shared s)) i))
      (map_of (rev (rec_writes r)) ?l)" "replayable rv transact vm (history_values H) i r"
    using sys_ok_executed[OF ok fin err i] by metis
  then have "map_option (Data (inc (sh_scheduler (sys_shared s)) i)) (map_of (rev (rec_writes r)) ?l) = Some e"
    using get by simp
  then obtain k x where x: "e = Data k x" "map_of (rev (rec_writes r)) ?l = Some x" by auto
  then have "(?l, x) \<in> set (rec_writes r)" using map_of_SomeD by fastforce
  then have "\<nexists>y. x = ValStorage y"
    using r(2) wf unfolding replayable_def slots_apart_def vm_wf_def kinds_apart_def by metis
  then show "i < length (txs vm) \<and> account_entry e" using i x(1) by (cases x) auto
qed

lemma finish_block_returns:
  assumes ok: "sys_ok rv transact vm s H" and fin: "all_stopped s" and wf: "vm_wf vm"
    and err: "execution_error (sys_shared s) = None" and hash: "hash_one vm = host_hash h"
  shows "\<exists>rs. finish_block h st b lazy (sys_shared s) = Inr (Inr rs) \<and> length rs = length (txs vm)"
proof -
  have c: "core_inv rv transact vm (sys_shared s) (roles (sys_workers s)) H"
    using ok by (simp add: sys_ok_def)
  have len: "length (execution_results (sys_shared s)) = length (txs vm)"
    using hist_invD(3)[OF core_invD(3)[OF c]] core_invD(1)[OF c] by simp
  have "r \<noteq> None" if mem: "r \<in> set (execution_results (sys_shared s))" for r
  proof -
    obtain j where j: "j < length (txs vm)" "execution_results (sys_shared s) ! j = r"
      using mem[unfolded in_set_conv_nth] unfolding len by blast
    show ?thesis by (rule sys_ok_executed[OF ok fin err j(1)]) (use j(2) in auto)
  qed
  then obtain rs where rs: "cumulate 0 (execution_results (sys_shared s)) = Inr rs"
    "length rs = length (txs vm)"
    using cumulate_returns[of "execution_results (sys_shared s)" 0] len by auto
  then obtain rs' where "eval_addresses (host_hash h) st (lazy @ [b]) (sh_memory (sys_shared s)) rs = Inr rs'"
    "length rs' = length rs"
    using eval_addresses_returns[of "host_hash h" rs "sh_memory (sys_shared s)" st "lazy @ [b]"]
      final_evaluable[OF ok fin wf err] hash by auto
  then show ?thesis using rs err by (simp add: finish_block_def)
qed

end
