(* ===== verification/Examples.thy ===== *)
theory Examples
  imports Pevm
begin

text \<open>
  A concrete machine to run blocks on: a \<open>revm\<close> that moves value between accounts, a storage, and
  blocks of a few transfers. \<open>run_workers\<close> runs the system along a given sequence of workers; every
  state it returns is reachable. The definitions here serve the concrete instances of the
  theorems.
\<close>

section \<open>A machine that transfers value\<close>

definition ex_revm :: revm where
  "ex_revm =
     \<lparr>bytecode_default = LegacyAnalyzed [] 0 [], bytecode_is_empty = (\<lambda>b. case b of
        LegacyRaw bs \<Rightarrow> bs = [] | LegacyAnalyzed bs n jt \<Rightarrow> n = 0 | Eof bs \<Rightarrow> False),
      hash_slow = (\<lambda>b. 0), new_analyzed = LegacyAnalyzed, new_raw = LegacyRaw,
      to_analysed = (\<lambda>bs. (bs, length bs, [])),
      info_default = \<lparr>info_balance = 0, info_nonce = 0, info_code_hash = 0, info_code = None\<rparr>,
      info_from_balance = (\<lambda>b. \<lparr>info_balance = b, info_nonce = 0, info_code_hash = 0, info_code = None\<rparr>),
      info_eq = (\<lambda>i j. info_balance i = info_balance j \<and> info_nonce i = info_nonce j \<and>
        info_code_hash i = info_code_hash j),
      is_empty_code_hash = (\<lambda>i. info_code_hash i = 0),
      is_enabled_in = (\<lambda>a b. a = CANCUN \<or> a = b),
      keccak256 = (\<lambda>bs. of_nat (length bs)), u256_to_string = (\<lambda>n. [])\<rparr>"

definition ex_touched :: "account_info \<Rightarrow> account" where
  "ex_touched i = \<lparr>info = i, slots = [], is_selfdestructed = False, is_touched = True, account_is_empty = False\<rparr>"

definition ex_info :: "account_info option \<Rightarrow> account_info" where
  "ex_info r = (case r of Some i \<Rightarrow> i | None \<Rightarrow> info_default ex_revm)"

text \<open>Read the sender and the recipient, move the value, raise the sender's nonce.\<close>

definition ex_transfer :: "address \<Rightarrow> address \<Rightarrow> u256 \<Rightarrow> ('e, 'e evm_error + result_and_state) evm" where
  "ex_transfer a b v =
     Evm_Basic a False (\<lambda>x. case x of
       Inl e \<Rightarrow> Evm_Done (Inl (EVM_Database e))
     | Inr from \<Rightarrow> Evm_Basic b False (\<lambda>y. case y of
         Inl e \<Rightarrow> Evm_Done (Inl (EVM_Database e))
       | Inr to \<Rightarrow> Evm_Done (Inr
           \<lparr>is_success = True, gas_used = 21000, into_logs = [],
            rs_state = [(a, ex_touched ((ex_info from)\<lparr>info_balance := info_balance (ex_info from) - v,
                             info_nonce := info_nonce (ex_info from) + 1\<rparr>)),
                        (b, ex_touched ((ex_info to)\<lparr>info_balance := info_balance (ex_info to) + v\<rparr>))]\<rparr>)))"

text \<open>
  A transaction with input data calls a contract: one byte of input makes it look at a third account
  first, two bytes make it forward the value to account 2.
\<close>

definition ex_transact :: "'e transact" where
  "ex_transact chain spec blk tx reward =
     (case transact_to tx of
        Create \<Rightarrow> Evm_Done (Inl (EVM_Other ''create''))
      | Call b \<Rightarrow>
          if tx_data tx = [] then ex_transfer (caller tx) b (tx_value tx)
          else if length (tx_data tx) = 1 then Evm_Basic 7 False (\<lambda>x. case x of
            Inl e \<Rightarrow> Evm_Done (Inl (EVM_Database e))
          | Inr _ \<Rightarrow> ex_transfer (caller tx) b (tx_value tx))
          else ex_transfer (caller tx) 2 (tx_value tx))"

lemma ex_transfer_propagates: "propagates (ex_transfer a b v)"
  by (simp add: ex_transfer_def split: sum.splits)

lemma ex_transact_propagates: "propagates (ex_transact chain spec blk tx reward)"
  by (simp add: ex_transact_def ex_transfer_propagates split: transact_to.splits sum.splits)

text \<open>A hash that keeps accounts and slots apart by its lowest bit.\<close>

fun ex_hash :: "memory_location \<Rightarrow> memory_location_hash" where
  "ex_hash (LocBasic a) = 2 * ucast a"
| "ex_hash (LocStorage a k) = 2 * (ucast a + ucast k) + 1"

lemma ex_hash_apart: "kinds_apart ex_hash"
proof -
  have "even (2 * x)" "odd (2 * y + 1)" for x y :: u64 by simp_all
  then show ?thesis unfolding kinds_apart_def by (metis ex_hash.simps)
qed

section \<open>Running the workers\<close>

fun run_workers ::
  "revm \<Rightarrow> read_error transact \<Rightarrow> vm \<Rightarrow> nat list \<Rightarrow> system \<Rightarrow> system option" where
  "run_workers rv transact vm [] s = Some s"
| "run_workers rv transact vm (w # ws) s =
     (if w < length (sys_workers s) then
        (case sys_workers s ! w of
           Stopped \<Rightarrow> None
         | k \<Rightarrow> (case worker_step rv transact vm k (sys_shared s) of
                  Inl p \<Rightarrow> None
                | Inr (k', sh) \<Rightarrow>
                    run_workers rv transact vm ws
                      \<lparr>sys_shared = sh, sys_workers = (sys_workers s)[w := k']\<rparr>))
      else None)"

lemma run_workers_steps:
  "run_workers rv transact vm ws s = Some s' \<Longrightarrow> (sys_step rv transact vm)\<^sup>*\<^sup>* s s'"
proof (induction ws arbitrary: s)
  case (Cons w ws)
  then have w: "w < length (sys_workers s)" "sys_workers s ! w \<noteq> Stopped"
    by (auto split: if_splits worker.splits)
  then obtain k sh where st: "worker_step rv transact vm (sys_workers s ! w) (sys_shared s) = Inr (k, sh)"
    "run_workers rv transact vm ws \<lparr>sys_shared = sh, sys_workers = (sys_workers s)[w := k]\<rparr> = Some s'"
    using Cons.prems by (cases "sys_workers s ! w") (auto split: sum.splits)
  show ?case
    using sys_step.worker[OF w st(1)] Cons.IH[OF st(2)] by (rule converse_rtranclp_into_rtranclp)
qed simp

lemma run_workers_reachable:
  "run_workers rv transact vm ws (sys_init vm s0 c) = Some s \<Longrightarrow> reachable rv transact vm s0 c s"
  using run_workers_steps by (simp add: reachable_def)

section \<open>Blocks\<close>

definition ex_tx :: "address \<Rightarrow> address \<Rightarrow> u256 \<Rightarrow> tx_env" where
  "ex_tx a b v =
     \<lparr>caller = a, gas_limit = 21000, gas_price = 1, gas_priority_fee = None, transact_to = Call b,
      tx_value = v, tx_data = [], tx_nonce = None, tx_chain_id = None, access_list = [],
      blob_hashes = [], max_fee_per_blob_gas = None\<rparr>"

definition ex_block :: block_env where
  "ex_block =
     \<lparr>blk_number = 1, coinbase = 9, blk_timestamp = 0, blk_gas_limit = 0, basefee = 0,
      difficulty = 0, prevrandao = None, blob_excess = None\<rparr>"

definition ex_contract :: evm_account where
  "ex_contract = evm_account_of_basic (account_basic_default
     \<lparr>code := Some \<lparr>bytecode_bytes = [0], original_len = 1, jump_table = []\<rparr>, code_hash := Some 0\<rparr>)"

definition ex_storage :: storage_ops where
  "ex_storage = in_memory_ops ex_revm (in_memory_new
     [(1, with_balance 100), (2, with_balance 100),
      (8, ex_contract)] [])"

definition ex_vm :: "tx_env list \<Rightarrow> vm" where
  "ex_vm ts = vm_new ex_hash ex_storage 1 CANCUN ex_block ts"

text \<open>
  Three transfers of which the second looks at a third account, so that validation starts with it;
  and three plain transfers, of which the last sends from the account the first two send to.
\<close>

definition ex_checked :: "tx_env list" where
  "ex_checked = [ex_tx 1 2 10, (ex_tx 3 2 5)\<lparr>tx_data := [1]\<rparr>, ex_tx 2 4 1]"

definition ex_race :: "tx_env list" where
  "ex_race = [ex_tx 1 2 10, ex_tx 3 2 5, ex_tx 2 4 1]"

text \<open>Three transfers of which the last spends from the account that the first one pays.\<close>

definition ex_chain :: "tx_env list" where
  "ex_chain = [ex_tx 1 2 10, ex_tx 3 4 5, ex_tx 2 5 1]"

text \<open>The first transaction calls contract 8, which forwards its value to the sender of the second.\<close>

definition ex_forward :: "tx_env list" where
  "ex_forward = [(ex_tx 1 8 10)\<lparr>tx_data := [0, 0]\<rparr>, ex_tx 2 4 1]"

text \<open>The system of two workers on a block, after its preprocessing.\<close>

definition ex_start :: "tx_env list \<Rightarrow> scheduler" where
  "ex_start ts = (case preprocess_dependencies 9 ts of Inr (Some (s, _)) \<Rightarrow> s | _ \<Rightarrow> scheduler_new 0 [] [] [])"

definition ex_run :: "tx_env list \<Rightarrow> nat list \<Rightarrow> system option" where
  "ex_run ts ws = run_workers ex_revm ex_transact (ex_vm ts) ws (sys_init (ex_vm ts) (ex_start ts) 2)"

lemma ex_machine_ok: "machine_ok ex_transact (ex_vm ts)"
  by (simp add: machine_ok_def ex_vm_def ex_transact_propagates vm_wf_new ex_hash_apart)

lemma ex_vm_txs [simp]: "txs (ex_vm ts) = ts"
  by (simp add: ex_vm_def vm_new_def)

lemma ex_lengths [simp]: "length ex_checked = 3" "length ex_race = 3" "length ex_chain = 3" "length ex_forward = 2"
  by (simp_all add: ex_checked_def ex_race_def ex_chain_def ex_forward_def)

lemma ex_initial:
  "initial_scheduler (length (txs (ex_vm ex_checked))) (ex_start ex_checked)"
  "initial_scheduler (length (txs (ex_vm ex_race))) (ex_start ex_race)"
  "initial_scheduler (length (txs (ex_vm ex_chain))) (ex_start ex_chain)"
  "initial_scheduler (length (txs (ex_vm ex_forward))) (ex_start ex_forward)"
proof -
  have start: "initial_scheduler (length (txs (ex_vm ts))) (ex_start ts)"
    if "case preprocess_dependencies 9 ts of Inr (Some x) \<Rightarrow> True | _ \<Rightarrow> False" for ts
    using that preprocess_initial(1)[of 9 ts] by (auto simp: ex_start_def split: sum.splits option.splits)
  show "initial_scheduler (length (txs (ex_vm ex_checked))) (ex_start ex_checked)" by (rule start) code_simp
  show "initial_scheduler (length (txs (ex_vm ex_race))) (ex_start ex_race)" by (rule start) code_simp
  show "initial_scheduler (length (txs (ex_vm ex_chain))) (ex_start ex_chain)" by (rule start) code_simp
  show "initial_scheduler (length (txs (ex_vm ex_forward))) (ex_start ex_forward)" by (rule start) code_simp
qed

text \<open>
  Complete runs of the first and the third block, and runs of the other two in which the workers
  race.
\<close>

definition ex_final :: system where
  "ex_final = the (ex_run ex_checked (replicate 33 0 @ [1]))"

definition ex_lost :: system where
  "ex_lost = the (ex_run ex_race ([0] @ replicate 16 1 @ replicate 8 0 @ [1]))"

definition ex_chained :: system where
  "ex_chained = the (ex_run ex_chain (concat (replicate 8 [0, 1]) @ [0] @ [1] @ replicate 8 0))"

definition ex_skipped :: system where
  "ex_skipped = the (ex_run ex_forward ([0] @ replicate 8 1 @ replicate 8 0 @ [1]))"

lemma ex_run_reachable:
  "ex_run ts ws = Some s \<Longrightarrow> reachable ex_revm ex_transact (ex_vm ts) (ex_start ts) 2 s"
  unfolding ex_run_def by (rule run_workers_reachable)

lemma ex_final:
  "reachable ex_revm ex_transact (ex_vm ex_checked) (ex_start ex_checked) 2 ex_final"
  "all_stopped ex_final" "execution_error (sys_shared ex_final) = None"
  "min_validation_idx (sh_scheduler (sys_shared ex_final)) = 1" "reads_now (sh_memory (sys_shared ex_final)) 0"
proof -
  have run: "case ex_run ex_checked (replicate 33 0 @ [1]) of None \<Rightarrow> False | Some s \<Rightarrow>
      all_stopped s \<and> execution_error (sys_shared s) = None \<and>
      min_validation_idx (sh_scheduler (sys_shared s)) = 1 \<and> reads_now (sh_memory (sys_shared s)) 0"
    by code_simp
  then have s: "ex_run ex_checked (replicate 33 0 @ [1]) = Some ex_final"
    unfolding ex_final_def by (simp split: option.splits)
  show "reachable ex_revm ex_transact (ex_vm ex_checked) (ex_start ex_checked) 2 ex_final"
    by (rule ex_run_reachable[OF s])
  show "all_stopped ex_final" "execution_error (sys_shared ex_final) = None"
    "min_validation_idx (sh_scheduler (sys_shared ex_final)) = 1" "reads_now (sh_memory (sys_shared ex_final)) 0"
    using run[unfolded s] by simp_all
qed

lemma ex_chained:
  "reachable ex_revm ex_transact (ex_vm ex_chain) (ex_start ex_chain) 2 ex_chained"
  "all_stopped ex_chained" "execution_error (sys_shared ex_chained) = None"
proof -
  have run: "case ex_run ex_chain (concat (replicate 8 [0, 1]) @ [0] @ [1] @ replicate 8 0) of None \<Rightarrow> False
    | Some s \<Rightarrow> all_stopped s \<and> execution_error (sys_shared s) = None"
    by code_simp
  then have s: "ex_run ex_chain (concat (replicate 8 [0, 1]) @ [0] @ [1] @ replicate 8 0) = Some ex_chained"
    unfolding ex_chained_def by (simp only: split: option.splits) simp
  show "reachable ex_revm ex_transact (ex_vm ex_chain) (ex_start ex_chain) 2 ex_chained"
    by (rule ex_run_reachable[OF s])
  show "all_stopped ex_chained" "execution_error (sys_shared ex_chained) = None"
    using run[unfolded s] by simp_all
qed

end
