(* ===== verification/Footprint.thy ===== *)
theory Footprint
  imports Vm_Replay
begin

text \<open>
  Which locations an execution touches, as far as the database keeps track of it: as long as the
  flag \<open>only_read_from_and_to\<close> is set, every location in the read set belongs to the sender or, unless
  it is paid lazily, to the recipient.
\<close>

section \<open>Executions depend on lower entries only\<close>

lemma vm_basic_cong:
  "(\<And>l. walk m' l (db_tx_idx db) = walk m l (db_tx_idx db)) \<Longrightarrow>
   vm_basic rv vm m' a pre db = vm_basic rv vm m a pre db"
  unfolding vm_basic_def using read_basic_cong[of m' _ "db_tx_idx db" m] by presburger

lemma vm_storage_cong:
  "(\<And>l. walk m' l (db_tx_idx db) = walk m l (db_tx_idx db)) \<Longrightarrow>
   vm_storage_read vm m' a k db = vm_storage_read vm m a k db"
  unfolding vm_storage_read_def using read_slot_cong[of m' _ "db_tx_idx db" m] by presburger

lemma call_keeps_idx:
  "vm_basic rv vm m a pre db = (x, db') \<Longrightarrow> db_tx_idx db' = db_tx_idx db"
  "vm_storage_read vm m a k db = (y, db') \<Longrightarrow> db_tx_idx db' = db_tx_idx db"
  by (auto simp: vm_basic_def vm_storage_read_def Let_def split: if_splits sum.splits prod.splits)

lemma run_evm_cong:
  assumes "\<And>l. walk m' l i = walk m l i"
  shows "db_tx_idx db = i \<Longrightarrow> run_evm (vm_database rv vm m') t db = run_evm (vm_database rv vm m) t db"
proof (induction t arbitrary: db)
  case (Evm_Basic a pre k)
  obtain x db' where x: "vm_basic rv vm m a pre db = (x, db')" by fastforce
  have "vm_basic rv vm m' a pre db = (x, db')" using vm_basic_cong[of m' db m] assms Evm_Basic.prems x by simp
  then show ?case using Evm_Basic.IH[of "k x" db'] call_keeps_idx(1)[OF x] Evm_Basic.prems x
    by (simp add: vm_database_def)
next
  case (Evm_Storage a j k)
  obtain x db' where x: "vm_storage_read vm m a j db = (x, db')" by fastforce
  have "vm_storage_read vm m' a j db = (x, db')"
    using vm_storage_cong[of m' db m] assms Evm_Storage.prems x by simp
  then show ?case using Evm_Storage.IH[of "k x" db'] call_keeps_idx(2)[OF x] Evm_Storage.prems x
    by (simp add: vm_database_def)
qed (auto simp: vm_database_def vm_code_by_hash_def vm_has_storage_def vm_block_hash_def)

lemma vm_execute_cong:
  assumes "\<And>l. walk m' l i = walk m l i"
  shows "vm_execute rv transact vm m' i = vm_execute rv transact vm m i"
proof (cases "vm_start vm i")
  case (Inr db)
  then have "db_tx_idx db = i"
    by (auto simp: vm_start_def vm_db_new_def vec_get_eq_Inr_iff split: sum.splits)
  then show ?thesis using run_evm_cong[OF assms, of db rv vm "tx_run transact vm i"] Inr
    by (simp add: vm_execute_def execute_tx_def Let_def)
qed (simp add: vm_execute_def)

section \<open>What an execution touches\<close>

text \<open>What every call of the database keeps holds at the end of an execution.\<close>

lemma run_evm_keeps:
  assumes basic: "\<And>a pre db x db'. P db \<Longrightarrow> vm_basic rv vm m a pre db = (x, db') \<Longrightarrow> P db'"
    and slot: "\<And>a k db x db'. P db \<Longrightarrow> vm_storage_read vm m a k db = (x, db') \<Longrightarrow> P db'"
  shows "P db \<Longrightarrow> run_evm (vm_database rv vm m) t db = (r, db') \<Longrightarrow> P db'"
proof (induction t arbitrary: db)
  case (Evm_Basic a pre k)
  obtain x db1 where x: "vm_basic rv vm m a pre db = (x, db1)" by fastforce
  then show ?case using Evm_Basic.IH[of "k x" db1] basic[OF Evm_Basic.prems(1) x] Evm_Basic.prems(2)
    by (simp add: vm_database_def)
next
  case (Evm_Storage a j k)
  obtain x db1 where x: "vm_storage_read vm m a j db = (x, db1)" by fastforce
  then show ?case using Evm_Storage.IH[of "k x" db1] slot[OF Evm_Storage.prems(1) x] Evm_Storage.prems(2)
    by (simp add: vm_database_def)
qed (auto simp: vm_database_def vm_code_by_hash_def vm_has_storage_def vm_block_hash_def)

text \<open>
  The locations of the sender and of the recipient of a transaction, and those of them it reads:
  a recipient that is paid lazily is not read.
\<close>

definition endpoints :: "vm \<Rightarrow> tx_env \<Rightarrow> memory_location_hash set" where
  "endpoints vm tx = insert (vm_get_address_hash vm (caller tx)) (vm_get_address_hash vm ` set_option (tx_to tx))"

definition read_points :: "vm \<Rightarrow> tx_env \<Rightarrow> memory_location_hash set" where
  "read_points vm tx = insert (vm_get_address_hash vm (caller tx))
     (if maybe_lazy (vm_storage vm) tx = Inr True then {} else vm_get_address_hash vm ` set_option (tx_to tx))"

definition local_db :: "vm \<Rightarrow> tx_idx \<Rightarrow> tx_env \<Rightarrow> vm_db \<Rightarrow> bool" where
  "local_db vm i tx db \<longleftrightarrow> db_tx_idx db = i \<and> db_from db = caller tx \<and> db_to db = tx_to tx \<and>
     db_from_hash db = vm_get_address_hash vm (caller tx) \<and>
     db_to_hash db = map_option (vm_get_address_hash vm) (tx_to tx) \<and>
     (is_maybe_lazy db \<longleftrightarrow> maybe_lazy (vm_storage vm) tx = Inr True) \<and>
     (only_read_from_and_to db \<longrightarrow> fst ` set (locations (db_read_set db)) \<subseteq> read_points vm tx)"

lemma local_db_start: "vm_start vm i = Inr db \<Longrightarrow> local_db vm i (txs vm ! i) db"
  by (auto simp: vm_start_def vm_db_new_def vec_get_eq_Inr_iff read_set_default_def local_db_def split: sum.splits)

lemma read_point_hash:
  "local_db vm i tx db \<Longrightarrow> a = db_from db \<or> Some a = db_to db \<and> \<not> is_maybe_lazy db \<Longrightarrow>
   db_get_address_hash vm db a \<in> read_points vm tx"
  by (cases "tx_to tx") (auto simp: local_db_def db_get_address_hash_def read_points_def)

lemma hm_insert_keys: "fst ` set (hm_insert k v xs) = insert k (fst ` set xs)"
  using dom_update[of k v xs] by (simp add: dom_map_of_conv_image_fst)

text \<open>A read of an account adds its location to the read set, and clears the flag for other accounts.\<close>

lemma vm_basic_effect:
  assumes "vm_basic rv vm m a pre db = (x, db')" and "db' \<noteq> db"
  shows "\<not> (is_maybe_lazy db \<and> Some a = db_to db)" and "db_tx_idx db' = db_tx_idx db \<and> db_from db' = db_from db \<and> db_to db' = db_to db \<and>
      db_from_hash db' = db_from_hash db \<and> db_to_hash db' = db_to_hash db \<and>
      is_maybe_lazy db' = is_maybe_lazy db \<and>
      (only_read_from_and_to db' \<longrightarrow> only_read_from_and_to db \<and> (a = db_from db \<or> Some a = db_to db)) \<and>
      fst ` set (locations (db_read_set db')) =
        insert (db_get_address_hash vm db a) (fst ` set (locations (db_read_set db)))"
proof -
  have pre: "\<not> pre" using assms by (intro notI) (simp add: vm_basic_def)
  show lazy: "\<not> (is_maybe_lazy db \<and> Some a = db_to db)"
  proof
    assume c: "is_maybe_lazy db \<and> Some a = db_to db"
    show False using assms unfolding vm_basic_def if_not_P[OF pre] if_P[OF c] by simp
  qed
  let ?l = "db_get_address_hash vm db a"
  let ?prev = "case hm_get (locations (db_read_set db)) ?l of Some os \<Rightarrow> os | None \<Rightarrow> []"
  show "db_tx_idx db' = db_tx_idx db \<and> db_from db' = db_from db \<and> db_to db' = db_to db \<and>
      db_from_hash db' = db_from_hash db \<and> db_to_hash db' = db_to_hash db \<and>
      is_maybe_lazy db' = is_maybe_lazy db \<and>
      (only_read_from_and_to db' \<longrightarrow> only_read_from_and_to db \<and> (a = db_from db \<or> Some a = db_to db)) \<and>
      fst ` set (locations (db_read_set db')) =
        insert ?l (fst ` set (locations (db_read_set db)))"
  proof (cases "read_basic rv vm m (db_tx_idx db) a ?l ?prev")
    case (Inl e)
    then show ?thesis using assms(1) unfolding vm_basic_def if_not_P[OF pre] if_not_P[OF lazy]
      by (clarsimp simp: Let_def hm_insert_keys)
  next
    case (Inr y)
    obtain r os where y: "y = (r, os)" by fastforce
    show ?thesis using assms(1) Inr unfolding vm_basic_def if_not_P[OF pre] if_not_P[OF lazy]
      by (cases r) (clarsimp simp: y Let_def hm_insert_keys)+
  qed
qed

lemma local_db_basic:
  assumes ok: "local_db vm i tx db" and run: "vm_basic rv vm m a pre db = (x, db')"
  shows "local_db vm i tx db'"
proof (cases "db' = db")
  case False
  note E = vm_basic_effect[OF run False]
  have "only_read_from_and_to db' \<Longrightarrow> db_get_address_hash vm db a \<in> read_points vm tx"
    using read_point_hash[OF ok, of a] E by blast
  then show ?thesis using ok E(2) by (simp add: local_db_def)
qed (use ok in simp)

lemma local_db_storage:
  "local_db vm i tx db \<Longrightarrow> vm_storage_read vm m a k db = (x, db') \<Longrightarrow> local_db vm i tx db'"
  by (auto simp: vm_storage_read_def Let_def local_db_def split: sum.splits)

lemma local_db_call:
  "local_db vm i tx db \<Longrightarrow> evm_step (vm_database rv vm m) t db = (t', db') \<Longrightarrow> local_db vm i tx db'"
  by (cases t) (auto simp: vm_database_def vm_code_by_hash_def vm_has_storage_def vm_block_hash_def
      split: prod.splits intro: local_db_basic local_db_storage)

lemma execute_local:
  assumes "vm_execute rv transact vm m i = Inr (VmOk res reads ws nxt)"
  shows "\<exists>db' r. local_db vm i (txs vm ! i) db' \<and>
    vm_finish rv vm (txs vm ! i) db' r = Inr (VmOk res reads ws nxt)"
proof -
  obtain db where st: "vm_start vm i = Inr db" using assms by (auto simp: vm_execute_def split: sum.splits)
  obtain r db' where r: "run_evm (vm_database rv vm m) (tx_run transact vm i) db = (r, db')" by fastforce
  have "local_db vm i (txs vm ! i) db'"
    by (rule run_evm_keeps[where P = "local_db vm i (txs vm ! i)", OF _ _ local_db_start[OF st] r])
      (rule local_db_basic local_db_storage; assumption)+
  moreover have "vm_finish rv vm (txs vm ! i) db' r = Inr (VmOk res reads ws nxt)"
    using assms st r by (simp add: vm_execute_def execute_tx_def)
  ultimately show ?thesis by blast
qed

text \<open>What the validation index says of the reads and the writes.\<close>

lemma finish_local:
  assumes ok: "local_db vm i tx db" and fin: "vm_finish rv vm tx db r = Inr (VmOk res reads ws nxt)"
  shows "nxt \<in> {None, Some i, Some (i + 1)}" and "reads = locations (db_read_set db)"
    and "0 < i \<Longrightarrow> nxt \<noteq> Some i \<Longrightarrow> only_read_from_and_to db"
    and "0 < i \<Longrightarrow> nxt \<noteq> Some i \<Longrightarrow> fst ` set reads \<subseteq> read_points vm tx"
    and "0 < i \<Longrightarrow> nxt = None \<Longrightarrow> transact_to tx \<noteq> Create"
    and "0 < i \<Longrightarrow> nxt = None \<Longrightarrow> fst ` set ws \<subseteq> insert (beneficiary_location_hash vm) (endpoints vm tx)"
    and "i = 0 \<Longrightarrow> nxt = None"
proof -
  have L: "db_tx_idx db = i" "db_to db = tx_to tx" "db_from_hash db = vm_get_address_hash vm (caller tx)"
    "db_to_hash db = map_option (vm_get_address_hash vm) (tx_to tx)"
    "only_read_from_and_to db \<Longrightarrow> fst ` set (locations (db_read_set db)) \<subseteq> read_points vm tx"
    using ok by (auto simp: local_db_def)
  show reads: "reads = locations (db_read_set db)" using fin by (auto elim: vm_finish_Ok)
  have nxt: "nxt = next_validation_idx vm i db ws" using fin L(1) by (auto elim: vm_finish_Ok)
  show "nxt \<in> {None, Some i, Some (i + 1)}" unfolding nxt next_validation_idx_def by auto
  show flag: "0 < i \<Longrightarrow> nxt \<noteq> Some i \<Longrightarrow> only_read_from_and_to db"
    unfolding nxt next_validation_idx_def by (auto split: if_splits)
  show "0 < i \<Longrightarrow> nxt \<noteq> Some i \<Longrightarrow> fst ` set reads \<subseteq> read_points vm tx" using flag L(5) reads by simp
  show "0 < i \<Longrightarrow> nxt = None \<Longrightarrow> transact_to tx \<noteq> Create"
    unfolding nxt next_validation_idx_def L(2) by (auto simp: tx_to_def split: if_splits transact_to.splits)
  show "0 < i \<Longrightarrow> nxt = None \<Longrightarrow> fst ` set ws \<subseteq> insert (beneficiary_location_hash vm) (endpoints vm tx)"
    using L(2-4) unfolding nxt next_validation_idx_def
    by (fastforce simp: list_ex_iff endpoints_def split: if_splits)
  show "i = 0 \<Longrightarrow> nxt = None" unfolding nxt next_validation_idx_def by simp
qed

end
