(* ===== verification/Fresh_Run.thy ===== *)
theory Fresh_Run
  imports Footprint
begin

text \<open>
  An execution from start to end on one memory. What it reads is valid when it is read and stays
  so, hence it never ends in an inconsistent read; and when all lower transactions have written,
  no read is blocked.
\<close>

section \<open>A read is valid when it is made\<close>

lemma eval_lazy_valid:
  "eval_lazy c i prev xs cur new add = Inr (r, new', add') \<Longrightarrow> prev = [] \<Longrightarrow>
   \<exists>os. new' = new @ os \<and> validate_origins xs (os @ storage_end r)"
proof (induction c i prev xs cur new add rule: eval_lazy.induct)
  case (3 c i prev closest n val rest cur new add)
  let ?o = "OriginMvMemory \<lparr>ver_idx = closest, ver_incarnation = n\<rparr>"
  have c: "\<not> (c \<and> closest \<noteq> cur - 1)" using "3.prems"(1) by (auto split: if_splits)
  show ?case
  proof (cases val)
    case (LazyBalanceAddition b)
    have "eval_lazy c i prev rest closest (new @ [?o]) (add + b) = Inr (r, new', add')"
      using "3.prems" LazyBalanceAddition by (auto simp: Let_def split: if_splits)
    from "3.IH"[OF c _ refl _ LazyBalanceAddition this "3.prems"(2)] "3.prems"(2)
    obtain os where "new' = (new @ [?o]) @ os" "validate_origins rest (os @ storage_end r)" by auto
    then show ?thesis by (intro exI[of _ "?o # os"]) simp
  next
    case (ValBasic acc)
    then show ?thesis using "3.prems" by (auto simp: Let_def split: if_splits)
  next
    case (ValStorage x)
    then show ?thesis using "3.prems" by (auto simp: Let_def split: if_splits)
  qed
qed (auto split: if_splits)

lemma read_basic_valid:
  assumes "read_basic rv vm m i a l [] = Inr (r, os)"
  shows "validate_origins (walk m l i) os"
proof -
  obtain x ps add where e: "eval_lazy (l = beneficiary_location_hash vm) i [] (walk m l i) i [] 0 = Inr (x, ps, add)"
    using assms by (auto simp: read_basic_def read_mv_basic_walk split: sum.splits)
  have "os = ps @ storage_end x"
    using assms e by (cases x) (auto simp: read_basic_def read_mv_basic_walk split: sum.splits)
  then show ?thesis using eval_lazy_valid[OF e refl] by simp
qed

lemma db_reads_valid:
  "db_ok vm i G db \<Longrightarrow> reads_valid m i (locations (db_read_set db)) \<longleftrightarrow>
     (\<forall>(l, os) \<in> db_reads db. validate_origins (walk m l i) os)"
  unfolding reads_valid_def list_all_iff db_ok_def location_ok_def
  by (intro ball_cong refl) (auto simp: validate_location_walk)

lemma reads_valid_insert:
  assumes "db_ok vm i G db" and "db_ok vm i G db'" and "reads_valid m i (locations (db_read_set db))"
    and "locations (db_read_set db') = hm_insert l os (locations (db_read_set db))"
    and "validate_origins (walk m l i) os"
  shows "reads_valid m i (locations (db_read_set db'))"
proof -
  have "distinct (map fst (locations (db_read_set db)))" using assms(1) by (simp add: db_ok_def)
  then have "\<forall>(k, os) \<in> db_reads db'. validate_origins (walk m k i) os"
    using assms(3,5) unfolding db_reads_valid[OF assms(1)] assms(4) by (auto simp: set_hm_insert)
  then show ?thesis unfolding db_reads_valid[OF assms(2)] .
qed

lemma basic_reads_valid:
  assumes ok: "db_ok vm i G db" "db_ok vm i G db'" and valid: "reads_valid m i (locations (db_read_set db))"
    and run: "vm_basic rv vm m a pre db = (Inr b, db')"
  shows "reads_valid m i (locations (db_read_set db'))"
proof (cases "db' = db")
  case False
  have full: "\<not> pre" "\<not> (is_maybe_lazy db \<and> Some a = db_to db)"
    using vm_basic_effect(1)[OF run False] run False by (auto simp: vm_basic_def)
  let ?l = "db_get_address_hash vm db a"
  let ?prev = "case hm_get (locations (db_read_set db)) ?l of Some os \<Rightarrow> os | None \<Rightarrow> []"
  have i: "db_tx_idx db = i" using ok(1) by (simp add: db_ok_def)
  obtain r os where r: "read_basic rv vm m i a ?l ?prev = Inr (r, os)"
    using run unfolding vm_basic_def if_not_P[OF full(1)] if_not_P[OF full(2)]
    by (auto simp: Let_def i split: sum.splits)
  have loc: "locations (db_read_set db') = hm_insert ?l (if ?prev = [] then os else ?prev) (locations (db_read_set db))"
    using run r unfolding vm_basic_def if_not_P[OF full(1)] if_not_P[OF full(2)]
    by (auto simp: Let_def i split: option.splits)
  have "validate_origins (walk m ?l i) (if ?prev = [] then os else ?prev)"
  proof (cases "?prev = []")
    case True
    then show ?thesis using read_basic_valid r by simp
  next
    case False
    then have "(?l, ?prev) \<in> db_reads db" by (auto split: option.splits dest: map_of_SomeD)
    then show ?thesis using valid False unfolding db_reads_valid[OF ok(1)] by auto
  qed
  from reads_valid_insert[OF ok valid loc this] show ?thesis .
qed (use valid in simp)

lemma read_slot_valid:
  assumes "read_slot vm m i a k l None = Inr (x, origin)"
  shows "validate_origins (walk m l i) [origin]"
  using assms unfolding read_slot_walk
  by (auto simp: slot_fallback_def Let_def split: list.splits prod.splits memory_entry.splits
      memory_value.splits sum.splits)

lemma storage_reads_valid:
  assumes ok: "db_ok vm i G db" "db_ok vm i G db'" and valid: "reads_valid m i (locations (db_read_set db))"
    and run: "vm_storage_read vm m a k db = (Inr b, db')"
  shows "reads_valid m i (locations (db_read_set db'))"
proof -
  let ?l = "hash_one vm (LocStorage a k)"
  let ?prev = "case hm_get (locations (db_read_set db)) ?l of Some os \<Rightarrow> os | None \<Rightarrow> []"
  have i: "db_tx_idx db = i" using ok(1) by (simp add: db_ok_def)
  obtain x where r: "read_slot vm m i a k ?l (last_opt ?prev) = Inr (b, x)"
    using run by (auto simp: vm_storage_read_def Let_def i split: sum.splits)
  have loc: "locations (db_read_set db') =
      hm_insert ?l (if ?prev = [] then [x] else ?prev) (locations (db_read_set db))"
    using run r by (auto simp: vm_storage_read_def Let_def i)
  have "validate_origins (walk m ?l i) (if ?prev = [] then [x] else ?prev)"
  proof (cases "?prev = []")
    case True
    then show ?thesis using read_slot_valid r by (simp add: last_opt_def)
  next
    case False
    then have "(?l, ?prev) \<in> db_reads db" by (auto split: option.splits dest: map_of_SomeD)
    then show ?thesis using valid False unfolding db_reads_valid[OF ok(1)] by auto
  qed
  from reads_valid_insert[OF ok valid loc this] show ?thesis .
qed

text \<open>A call that succeeds keeps the read set valid.\<close>

lemma evm_step_reads_valid:
  assumes wf: "vm_wf vm" and m: "mv_inv m" "mv_values G m" and ok: "db_ok vm i G db" and pr: "propagates t"
    and step: "evm_step (vm_database rv vm m) t db = (t', db')"
    and succ: "\<And>e. t' \<noteq> Evm_Done (Inl (EVM_Database e))"
    and valid: "reads_valid m i (locations (db_read_set db))"
  shows "reads_valid m i (locations (db_read_set db'))"
proof -
  have ok': "db_ok vm i G db'"
    using evm_step_repeatable[OF wf ok m pr step] succ by (auto simp: repeatable_def)
  show ?thesis
  proof (cases t)
    case (Evm_Basic a pre k)
    then obtain x where x: "vm_basic rv vm m a pre db = (x, db')" "t' = k x"
      using step by (auto simp: vm_database_def split: prod.splits)
    then obtain b where "x = Inr b" using pr succ Evm_Basic by (cases x) auto
    then show ?thesis using basic_reads_valid[OF ok ok' valid] x(1) by simp
  next
    case (Evm_Storage a j k)
    then obtain x where x: "vm_storage_read vm m a j db = (x, db')" "t' = k x"
      using step by (auto simp: vm_database_def split: prod.splits)
    then obtain b where "x = Inr b" using pr succ Evm_Storage by (cases x) auto
    then show ?thesis using storage_reads_valid[OF ok ok' valid] x(1) by simp
  qed (use step valid in \<open>auto simp: vm_database_def vm_code_by_hash_def vm_has_storage_def vm_block_hash_def\<close>)
qed

section \<open>On a complete memory\<close>

text \<open>
  All transactions below \<open>i\<close> have written: no entry is an estimate, and each has an entry for the
  beneficiary.
\<close>

definition complete :: "vm \<Rightarrow> mv_memory \<Rightarrow> tx_idx \<Rightarrow> bool" where
  "complete vm m i \<longleftrightarrow> (\<forall>j < i. (\<forall>l. mv_get m l j \<noteq> Some Estimate) \<and> mv_get m (beneficiary_location_hash vm) j \<noteq> None)"

fun transient :: "read_error \<Rightarrow> bool" where
  "transient InconsistentRead \<longleftrightarrow> True"
| "transient (BlockingIndex b) \<longleftrightarrow> True"
| "transient _ \<longleftrightarrow> False"

lemma walk_complete:
  assumes "mv_inv m" and "complete vm m i"
  shows "\<forall>p \<in> set (walk m l i). snd p \<noteq> Estimate"
    and "map fst (walk m (beneficiary_location_hash vm) i) = rev [0..<i]"
proof -
  show "\<forall>p \<in> set (walk m l i). snd p \<noteq> Estimate"
    using assms walk_set[OF assms(1)] by (fastforce simp: complete_def)
  let ?w = "map fst (walk m (beneficiary_location_hash vm) i)"
  have "j \<in> fst ` set (walk m (beneficiary_location_hash vm) i) \<longleftrightarrow> j < i" for j
  proof
    assume "j < i"
    then obtain e where "(j, e) \<in> set (walk m (beneficiary_location_hash vm) i)"
      using assms(2) walk_set[OF assms(1)] by (auto simp: complete_def)
    then show "j \<in> fst ` set (walk m (beneficiary_location_hash vm) i)" by (rule rev_image_eqI) simp
  qed (auto simp: walk_set[OF assms(1)])
  then have "set (rev ?w) = set [0..<i]" by (auto simp: set_eq_iff)
  moreover have "sorted_wrt (<) (rev ?w)" using walk_desc[OF assms(1)] by (simp add: sorted_wrt_rev)
  ultimately have "rev ?w = [0..<i]" by (intro strict_sorted_equal) (auto simp: strict_sorted_iff)
  then show "?w = rev [0..<i]" by (metis rev_rev_ident)
qed

lemma eval_lazy_complete:
  "eval_lazy c i prev xs cur new add = Inl e \<Longrightarrow> prev = [] \<Longrightarrow> \<forall>p \<in> set xs. snd p \<noteq> Estimate \<Longrightarrow>
   c \<Longrightarrow> map fst xs = rev [0..<cur] \<Longrightarrow> \<not> transient e"
proof (induction c i prev xs cur new add rule: eval_lazy.induct)
  case (3 c i prev closest n val rest cur new add)
  obtain cur' where cur: "cur = Suc cur'" "closest = cur'" "map fst rest = rev [0..<cur']"
    using "3.prems"(5) by (cases cur) auto
  then show ?case using 3 by (cases val) (auto simp: Let_def)
qed auto

lemma eval_lazy_complete_other:
  "eval_lazy c i prev xs cur new add = Inl e \<Longrightarrow> prev = [] \<Longrightarrow> \<forall>p \<in> set xs. snd p \<noteq> Estimate \<Longrightarrow>
   \<not> c \<Longrightarrow> \<not> transient e"
proof (induction c i prev xs cur new add rule: eval_lazy.induct)
  case (3 c i prev closest n val rest cur new add)
  then show ?case by (cases val) (auto simp: Let_def)
qed auto

lemma read_basic_complete:
  assumes m: "mv_inv m" "complete vm m i" and g: "walk_values g (walk m l i)"
    and prev: "prev = [] \<or> basic_origins vm i l g prev \<and> validate_origins (walk m l i) prev"
    and run: "read_basic rv vm m i a l prev = Inl e"
  shows "\<not> transient e"
proof -
  let ?c = "l = beneficiary_location_hash vm"
  have storage: "read_storage_basic rv vm a add = Inl e \<Longrightarrow> \<not> transient e" for add
    by (auto simp: read_storage_basic_def split: sum.splits option.splits)
  show ?thesis
  proof (cases "prev = []")
    case True
    show ?thesis
    proof (cases "eval_lazy ?c i [] (walk m l i) i [] 0")
      case (Inl e')
      then have "e' = e" using run True by (simp add: read_basic_def read_mv_basic_walk)
      then show ?thesis
        using Inl eval_lazy_complete[OF Inl refl walk_complete(1)[OF m]] walk_complete(2)[OF m]
          eval_lazy_complete_other[OF Inl refl walk_complete(1)[OF m]] by blast
    next
      case (Inr x)
      obtain y ps add where "x = (y, ps, add)" by (cases x)
      then show ?thesis using Inr run True storage
        by (cases y) (auto simp: read_basic_def read_mv_basic_walk split: sum.splits)
    qed
  next
    case False
    then obtain x add where x: "eval_origins ?c g i prev 0 = Some (x, add)" "validate_origins (walk m l i) prev"
      using prev by auto
    from eval_lazy_replay[OF this g, of prev "[]" i] obtain ps where
      "prev = ps @ storage_end x" "eval_lazy ?c i prev (walk m l i) i [] 0 = Inr (x, ps, add)" by auto
    then show ?thesis using run storage
      by (cases x) (auto simp: read_basic_def read_mv_basic_walk split: sum.splits)
  qed
qed

lemma read_slot_complete:
  assumes m: "mv_inv m" "complete vm m i"
    and prev: "prev = [] \<or> slot_origins g prev \<and> validate_origins (walk m l i) prev"
    and run: "read_slot vm m i a k l (last_opt prev) = Inl e"
  shows "\<not> transient e"
  using prev run walk_complete(1)[OF m, of l] unfolding read_slot_walk
  by (auto simp: slot_fallback_def last_opt_def slot_origins_def Let_def split: list.splits prod.splits
      memory_entry.splits memory_value.splits sum.splits if_splits)

text \<open>The origins stored for a location of a valid read set.\<close>

lemma stored_valid:
  assumes ok: "db_ok vm i G db" and valid: "reads_valid m i (locations (db_read_set db))"
    and ne: "stored_origins db l \<noteq> []"
  shows "location_ok vm i G (l, stored_origins db l)" and "validate_origins (walk m l i) (stored_origins db l)"
proof -
  show "location_ok vm i G (l, stored_origins db l)" by (rule stored_origins_ok(2)[OF ok ne])
  have "(l, stored_origins db l) \<in> db_reads db"
    using ne by (auto simp: stored_origins_def split: option.splits dest: map_of_SomeD)
  then show "validate_origins (walk m l i) (stored_origins db l)"
    using valid unfolding db_reads_valid[OF ok] by auto
qed

lemma vm_basic_complete:
  assumes wf: "vm_wf vm" and m: "mv_inv m" "mv_values G m" "complete vm m i" and ok: "db_ok vm i G db"
    and valid: "reads_valid m i (locations (db_read_set db))" and run: "vm_basic rv vm m a pre db = (Inl e, db')"
  shows "\<not> transient e"
proof -
  let ?l = "hash_one vm (LocBasic a)"
  have l: "db_get_address_hash vm db a = ?l" and i: "db_tx_idx db = i"
    using db_address_hash[OF wf ok] ok by (simp_all add: db_ok_def)
  have "\<not> pre" "\<not> (is_maybe_lazy db \<and> Some a = db_to db)" using run by (auto simp: vm_basic_def split: if_splits)
  then have "read_basic rv vm m i a ?l (stored_origins db ?l) = Inl e"
    using run unfolding vm_basic_def by (auto simp: Let_def l i stored_origins_def split: sum.splits)
  then show ?thesis
    by (rule read_basic_complete[OF m(1,3) mv_values_walk[OF m(1,2)], rotated])
      (use stored_valid[OF ok valid, of ?l] in \<open>auto simp: location_ok_def\<close>)
qed

lemma vm_storage_complete:
  assumes m: "mv_inv m" "complete vm m i" and ok: "db_ok vm i G db"
    and valid: "reads_valid m i (locations (db_read_set db))" and run: "vm_storage_read vm m a k db = (Inl e, db')"
  shows "\<not> transient e"
proof -
  let ?l = "hash_one vm (LocStorage a k)"
  have "db_tx_idx db = i" using ok by (simp add: db_ok_def)
  then have "read_slot vm m i a k ?l (last_opt (stored_origins db ?l)) = Inl e"
    using run by (auto simp: vm_storage_read_def Let_def stored_origins_def split: sum.splits)
  then show ?thesis
    by (rule read_slot_complete[OF m, rotated])
      (use stored_valid[OF ok valid, of ?l] in \<open>auto simp: location_ok_def\<close>)
qed

lemma propagated:
  assumes "\<forall>e. k (Inl e) = Evm_Done (Inl (EVM_Database e))" and "\<forall>x. propagates (k (Inr x))"
    and "k x = Evm_Done (Inl (EVM_Database e))"
  shows "x = Inl e"
proof (cases x)
  case (Inr b)
  then have "propagates (k x)" using assms(2) by simp
  then show ?thesis using assms(3) by simp
qed (use assms(1,3) in simp)

lemma evm_step_complete:
  assumes wf: "vm_wf vm" and m: "mv_inv m" "mv_values G m" "complete vm m i" and ok: "db_ok vm i G db"
    and pr: "propagates t" and valid: "reads_valid m i (locations (db_read_set db))"
    and step: "evm_step (vm_database rv vm m) t db = (Evm_Done (Inl (EVM_Database e)), db')"
  shows "\<not> transient e"
proof (cases t)
  case (Evm_Basic a pre k)
  then obtain x where x: "vm_basic rv vm m a pre db = (x, db')" "k x = Evm_Done (Inl (EVM_Database e))"
    using step by (auto simp: vm_database_def split: prod.splits)
  then show ?thesis using propagated[of k x e] pr Evm_Basic vm_basic_complete[OF wf m ok valid] by auto
next
  case (Evm_Storage a j k)
  then obtain x where x: "vm_storage_read vm m a j db = (x, db')" "k x = Evm_Done (Inl (EVM_Database e))"
    using step by (auto simp: vm_database_def split: prod.splits)
  then show ?thesis using propagated[of k x e] pr Evm_Storage vm_storage_complete[OF m(1,3) ok valid] by auto
next
  case (Evm_Code_By_Hash h k)
  then obtain x where x: "vm_code_by_hash rv vm h db = (x, db')" "k x = Evm_Done (Inl (EVM_Database e))"
    using step by (auto simp: vm_database_def split: prod.splits)
  then show ?thesis using propagated[of k x e] pr Evm_Code_By_Hash
    by (auto simp: vm_code_by_hash_def map_sum_def split: sum.splits)
next
  case (Evm_Has_Storage a k)
  then obtain x where x: "vm_has_storage vm a db = (x, db')" "k x = Evm_Done (Inl (EVM_Database e))"
    using step by (auto simp: vm_database_def split: prod.splits)
  then show ?thesis using propagated[of k x e] pr Evm_Has_Storage
    by (auto simp: vm_has_storage_def map_sum_def split: sum.splits)
next
  case (Evm_Block_Hash n k)
  then obtain x where x: "vm_block_hash vm n db = (x, db')" "k x = Evm_Done (Inl (EVM_Database e))"
    using step by (auto simp: vm_database_def split: prod.splits)
  then show ?thesis using propagated[of k x e] pr Evm_Block_Hash
    by (auto simp: vm_block_hash_def map_sum_def split: sum.splits)
qed (use pr step in auto)

text \<open>The whole run: it ends with a valid read set, or with an error that another run would meet too.\<close>

lemma run_evm_complete:
  assumes wf: "vm_wf vm" and m: "mv_inv m" "mv_values G m" "complete vm m i"
  shows "db_ok vm i G db \<Longrightarrow> propagates t \<Longrightarrow> reads_valid m i (locations (db_read_set db)) \<Longrightarrow>
    run_evm (vm_database rv vm m) t db = (r, db') \<Longrightarrow>
    (\<exists>e. r = Inl (EVM_Database e) \<and> \<not> transient e) \<or>
    (\<forall>e. r \<noteq> Inl (EVM_Database e)) \<and> reads_valid m i (locations (db_read_set db'))"
proof (induction t arbitrary: db)
  let ?goal = "(\<exists>e. r = Inl (EVM_Database e) \<and> \<not> transient e) \<or>
    (\<forall>e. r \<noteq> Inl (EVM_Database e)) \<and> reads_valid m i (locations (db_read_set db'))"
  have call: ?goal
    if "db_ok vm i G db" "propagates t" "reads_valid m i (locations (db_read_set db))"
      and run: "run_evm (vm_database rv vm m) t db = (r, db')"
      and br: "\<exists>x db1. evm_step (vm_database rv vm m) t db = (k x, db1)"
      and IH: "\<And>x db. db_ok vm i G db \<Longrightarrow> propagates (k x) \<Longrightarrow> reads_valid m i (locations (db_read_set db)) \<Longrightarrow>
        run_evm (vm_database rv vm m) (k x) db = (r, db') \<Longrightarrow> ?goal"
    for t db and k :: "'c \<Rightarrow> (read_error, read_error evm_error + 'a) evm"
  proof -
    obtain x db1 where st: "evm_step (vm_database rv vm m) t db = (k x, db1)" using br by blast
    then have rest: "run_evm (vm_database rv vm m) (k x) db1 = (r, db')"
      using run by (simp add: run_evm_step[of _ t])
    show ?thesis
    proof (cases "\<exists>e. k x = Evm_Done (Inl (EVM_Database e))")
      case True
      then show ?thesis using evm_step_complete[OF wf m that(1-3)] st rest by auto
    next
      case False
      then have "propagates (k x)" "db_ok vm i G db1"
        using evm_step_repeatable[OF wf that(1) m(1,2) that(2) st] by (auto simp: repeatable_def)
      moreover have "reads_valid m i (locations (db_read_set db1))"
        by (rule evm_step_reads_valid[OF wf m(1,2) that(1,2) st _ that(3)]) (use False in blast)
      ultimately show ?thesis using IH rest by blast
    qed
  qed
  { case (Evm_Done x) then show ?case by auto }
  { case (Evm_Basic a pre k)
    show ?case by (rule call[OF Evm_Basic.prems evm_step_branch(1)]) (use Evm_Basic.IH in blast) }
  { case (Evm_Code_By_Hash h k)
    show ?case by (rule call[OF Evm_Code_By_Hash.prems evm_step_branch(2)])
        (use Evm_Code_By_Hash.IH in blast) }
  { case (Evm_Has_Storage a k)
    show ?case by (rule call[OF Evm_Has_Storage.prems evm_step_branch(3)])
        (use Evm_Has_Storage.IH in blast) }
  { case (Evm_Storage a j k)
    show ?case by (rule call[OF Evm_Storage.prems evm_step_branch(4)]) (use Evm_Storage.IH in blast) }
  { case (Evm_Block_Hash n k)
    show ?case by (rule call[OF Evm_Block_Hash.prems evm_step_branch(5)])
        (use Evm_Block_Hash.IH in blast) }
qed

text \<open>The EVM rejects the transaction because its sender lacks the funds for the maximal fee.\<close>

definition runs_short :: "revm \<Rightarrow> read_error transact \<Rightarrow> vm \<Rightarrow> mv_memory \<Rightarrow> tx_idx \<Rightarrow> bool" where
  "runs_short rv transact vm m i \<longleftrightarrow>
     (\<exists>db f c. vm_start vm i = Inr db \<and>
        fst (run_evm (vm_database rv vm m) (tx_run transact vm i) db) = Inl (EVM_Transaction (LackOfFundForMaxFee f c)))"

text \<open>
  The execution of a transaction on a complete memory succeeds with valid reads, ends with an error,
  or lacks funds and asks to wait for the transaction before it.
\<close>

lemma vm_execute_complete:
  assumes wf: "vm_wf vm" and pr: "propagates (tx_run transact vm i)" and m: "mv_inv m" "mv_values G m" "complete vm m i"
    and run: "vm_execute rv transact vm m i = Inr x"
  shows "(\<exists>res reads ws nxt. x = VmOk res reads ws nxt \<and> reads_valid m i reads) \<or>
    (\<exists>e. x = VmExecutionError e) \<or> 0 < i \<and> x = VmReadError (i - 1) \<and> runs_short rv transact vm m i"
proof -
  obtain db where st: "vm_start vm i = Inr db" using run by (auto simp: vm_execute_def split: sum.splits)
  obtain r db' where r: "run_evm (vm_database rv vm m) (tx_run transact vm i) db = (r, db')" by fastforce
  have fin: "vm_finish rv vm (txs vm ! i) db' r = Inr x" using run st r by (simp add: vm_execute_def execute_tx_def)
  have db: "db_ok vm i G db" "reads_valid m i (locations (db_read_set db))"
    using vm_start_ok[OF wf st] by (simp_all add: reads_valid_def)
  note out = run_evm_complete[OF wf m db(1) pr db(2) r]
  show ?thesis
  proof (cases x)
    case (VmOk res reads ws nxt)
    then show ?thesis using vm_finish_Ok[OF fin[unfolded VmOk]] out by auto
  next
    case VmRetry
    then have "r = Inl (EVM_Database InconsistentRead)" using fin
      by (cases "(rv, vm, txs vm ! i, db', r)" rule: vm_finish.cases)
        (auto split: sum.splits evm_error.splits invalid_transaction.splits if_splits)
    then show ?thesis using out by auto
  next
    case (VmReadError b)
    have "db_tx_idx db' = i"
      by (rule run_evm_keeps[OF _ _ _ r, where P = "\<lambda>db. db_tx_idx db = i"])
        (use call_keeps_idx db(1) in \<open>auto simp: db_ok_def\<close>)
    then show ?thesis
      using vm_finish_ReadError[OF fin[unfolded VmReadError]] out VmReadError st r by (auto simp: runs_short_def)
  qed simp
qed

end
