(* ===== verification/Unvalidated.thy ===== *)
theory Unvalidated
  imports Serializability Fresh_Run
begin

text \<open>
  Transactions that are never validated. When every conflict between the accounts of two
  transactions is covered by the dependencies known before execution, what an unvalidated
  transaction has read stays valid until the end of the block: it runs only after all lower
  transactions that could still change its sender or its recipient.
\<close>

section \<open>What the scheduler keeps\<close>

text \<open>
  No validation from \<open>t\<close> on has been asked for, and no worker is about to.
\<close>

definition unwatched :: "scheduler \<Rightarrow> (nat \<Rightarrow> role) \<Rightarrow> tx_idx \<Rightarrow> bool" where
  "unwatched s R t \<longleftrightarrow> t < min_validation_idx s \<and>
     (\<forall>w v new k. R w = Finishing v new (Some k) \<longrightarrow> t < k)"

text \<open>
  What every step but a record and a conversion keeps: it wakes no transaction that waits for one
  that is not done, undoes no transaction below the validation index, and changes no writes.
\<close>

definition frame :: "scheduler \<Rightarrow> (nat \<Rightarrow> role) \<Rightarrow> scheduler \<Rightarrow> (nat \<Rightarrow> role) \<Rightarrow> bool" where
  "frame s R s' R' \<longleftrightarrow> block_size s' = block_size s \<and> min_validation_idx s' \<le> min_validation_idx s \<and>
     (\<forall>t. unwatched s' R' t \<longrightarrow> unwatched s R t) \<and>
     (\<forall>p. p < min_validation_idx s' \<longrightarrow> is_done (stat s p) \<longrightarrow> is_done (stat s' p)) \<and>
     (\<forall>p < block_size s. \<forall>t \<in> set (transactions_dependents s ! p).
        is_done (stat s' p) \<or> t \<in> set (transactions_dependents s' ! p)) \<and>
     (\<forall>i. live s' R' i \<longleftrightarrow> live s R i)"

fun asks :: "role \<Rightarrow> tx_idx option" where
  "asks (Finishing v new nxt) = nxt"
| "asks _ = None"

lemma unwatched_asks: "unwatched s R t \<longleftrightarrow> t < min_validation_idx s \<and> (\<forall>w k. asks (R w) = Some k \<longrightarrow> t < k)"
proof -
  have "asks r = Some k \<longleftrightarrow> (\<exists>v new. r = Finishing v new (Some k))" for r k by (cases r) auto
  then show ?thesis unfolding unwatched_def by metis
qed

lemma unwatched_update:
  assumes "unwatched s' (R(w := r)) t" and "min_validation_idx s' \<le> min_validation_idx s"
    and "\<And>k. asks (R w) = Some k \<Longrightarrow> min_validation_idx s' \<le> k"
  shows "unwatched s R t"
proof -
  have "t < k" if "asks (R w') = Some k" for w' k
    using assms that unfolding unwatched_asks by (cases "w' = w") (auto dest: spec[of _ w'])
  then show ?thesis using assms(1,2) unfolding unwatched_asks by auto
qed

lemma unwatched_finishing: "unwatched s (R(w := Finishing v new nxt)) t \<Longrightarrow> nxt = Some k \<Longrightarrow> t < k"
  unfolding unwatched_asks by (metis asks.simps(1) fun_upd_same)

text \<open>A role that neither holds a record nor asks for a validation may change freely.\<close>

lemma live_update:
  assumes "single_owners R" and "holds_data (R w) = None" and "holds_data r = None"
  shows "some_role holds_data (R(w := r)) i \<longleftrightarrow> some_role holds_data R i"
  using assms(2,3) unfolding some_role_def fun_upd_def by (metis option.distinct(1))

lemma frameI:
  assumes "single_owners R" and "holds_data (R w) = None" and "holds_data r = None"
    and "block_size s' = block_size s" and "min_validation_idx s' = min_validation_idx s"
    and "\<And>p. is_done (stat s' p) \<longleftrightarrow> is_done (stat s p)"
    and "\<And>p t. p < block_size s \<Longrightarrow> t \<in> set (transactions_dependents s ! p) \<Longrightarrow>
      t \<in> set (transactions_dependents s' ! p)"
  shows "frame s R s' (R(w := r))"
proof -
  have "asks (R w) = None" using assms(2) by (cases "R w") auto
  then show ?thesis
    using assms unwatched_update[of s' R w r _ s] live_update[OF assms(1-3)] unfolding frame_def live_def by auto
qed

lemma frame_roles:
  "single_owners R \<Longrightarrow> holds_data (R w) = None \<Longrightarrow> holds_data r = None \<Longrightarrow> frame s R s (R(w := r))"
  by (rule frameI) auto

lemma task_role_data [simp]: "holds_data (task_role r) = None"
  by (cases r rule: task_role.cases) auto

lemma frame_next_task:
  assumes own: "own_inv err s R" and R: "R w = Free" and run: "next_task_iter s = Inr (r, s')"
  shows "frame s R s' (R(w := (case r of Return t \<Rightarrow> task_role (Some t) | _ \<Rightarrow> Free)))"
proof -
  have c: "case r of Break \<Rightarrow> s' = s | Continue \<Rightarrow> skipped s s'
     | Return (Execution v) \<Rightarrow> picked s v s' | Return (Validation v) \<Rightarrow> claimed s v s'"
    using next_task_iter_ok[OF own_invD(1)[OF own]] run by (auto split: round_result.splits task.splits)
  have len: "length (transactions_status s) = block_size s" by (rule base_lengths(1)[OF inv_base[OF own_invD(1)[OF own]]])
  consider "s' = s" | "skipped s s'" | (exec) v where "picked s v s'" | v where "claimed s v s'"
    using c by (cases r rule: round_result.exhaust) (auto split: task.splits)
  then have f: "block_size s' = block_size s \<and> min_validation_idx s' = min_validation_idx s \<and>
      transactions_dependents s' = transactions_dependents s \<and> (\<forall>p. is_done (stat s' p) \<longleftrightarrow> is_done (stat s p))"
  proof cases
    case (exec v)
    note P = pickedD[OF exec len]
    have "is_done (stat s' p) \<longleftrightarrow> is_done (stat s p)" for p unfolding P(7)[of p] using P(2) by simp
    moreover have "transactions_dependents s' = transactions_dependents s" using exec by (auto simp: picked_def set_status_def)
    ultimately show ?thesis using P(4,5) by simp
  qed (auto simp: skipped_def claimed_def)
  have "holds_data (case r of Return t \<Rightarrow> task_role (Some t) | _ \<Rightarrow> Free) = None"
    by (simp split: round_result.splits)
  then show ?thesis by (intro frameI[OF own_invD(2)[OF own]]) (use f R in simp_all)
qed

lemma add_dependency_dependents:
  "add_dependency t b s = Inr (added, s') \<Longrightarrow> u \<in> set (transactions_dependents s ! p) \<Longrightarrow>
   u \<in> set (transactions_dependents s' ! p)"
  by (auto simp: add_dependency_def Let_def set_status_def vec_get_eq_Inr_iff nth_list_update
      split: sum.splits if_splits option.splits)

lemma frame_add_dependency:
  assumes own: "own_inv err s R" and R: "R w = Pre v" and b: "b < ver_idx v"
    and run: "add_dependency (ver_idx v) b s = Inr (added, s')" and r: "holds_data r = None"
  shows "frame s R s' (R(w := r))"
proof -
  have inv: "sched_inv (aborted R) s" by (rule own_invD(1)[OF own])
  have v: "ver_idx v < block_size s" "stat s (ver_idx v) = Executing" using own_invD(3)[OF own, of w] R by simp_all
  then have vl: "ver_idx v < length (transactions_status s)" using base_lengths(1)[OF inv_base[OF inv]] by simp
  have a: "\<not> added \<longrightarrow> s' = s" "added \<longrightarrow> transactions_status s' = transactions_status (set_status (ver_idx v) Aborting s) \<and>
      block_size s' = block_size s \<and> min_validation_idx s' = min_validation_idx s"
    using add_dependency_ok[OF inv b v] run by auto
  have "is_done (stat s' p) \<longleftrightarrow> is_done (stat s p)" for p
    using a stat_set_status[OF vl, of Aborting p] v(2) by (cases added) auto
  then show ?thesis
    by (intro frameI[OF own_invD(2)[OF own]])
      (use a R r add_dependency_dependents[OF run] in \<open>auto simp: set_status_def\<close>)
qed

lemma frame_finish_execution:
  assumes own: "own_inv err s R" and R: "R w = Finishing v new nxt"
    and run: "finish_execution v new nxt s = Inr (r, s')"
  shows "frame s R s' (R(w := task_role r))"
proof -
  obtain s1 where s1: "resume_effect (ver_idx v) s s1" "sched_inv (aborted R) s1"
    "schedule_validation v new nxt s1 = (r, s')"
    using own_finish_execution(2)[OF own R run] by blast
  note E = resume_effectD[OF s1(1)] and V = schedule_validation_ok[OF s1(2,3)]
  have v: "ver_idx v < block_size s" using own_invD(3)[OF own, of w] R by simp
  have st: "is_done (stat s' p) \<longleftrightarrow> p = ver_idx v \<or> is_done (stat s p)" for p
    using E(10)[of p] resumed_waiting(1)[OF inv_base[OF own_invD(1)[OF own]] v, of p] unfolding V(2) by auto
  have min: "min_validation_idx s' \<le> min_validation_idx s" "\<And>k. nxt = Some k \<Longrightarrow> min_validation_idx s' \<le> k"
    unfolding V(6) lowered_min_def E(3) by (auto split: option.splits)
  have "live s' (R(w := task_role r)) i \<longleftrightarrow> live s R i" for i
  proof -
    have "some_role holds_data R (ver_idx v)" unfolding some_role_def by (rule exI[of _ w]) (simp add: R)
    then show ?thesis
      using R st[of i] role_updates(1)[OF own_invD(2)[OF own], of w "ver_idx v" "task_role r" i]
      by (cases "i = ver_idx v") (simp_all add: live_def)
  qed
  moreover have "unwatched s' (R(w := task_role r)) t \<Longrightarrow> unwatched s R t" for t
    using unwatched_update[OF _ min(1), of R w] min(2) R by simp
  moreover have "is_done (stat s' p) \<or> t \<in> set (transactions_dependents s' ! p)"
    if "t \<in> set (transactions_dependents s ! p)" for p t
    using that st[of p] by (cases "p = ver_idx v") (auto simp: V(4) E(6))
  ultimately show ?thesis unfolding frame_def using V(3) E(1) min(1) st by auto
qed

lemma frame_try_abort:
  assumes own: "own_inv err s R" and R: "R w = Checking v" and run: "try_validation_abort v s = Inr (b, s')"
  shows "frame s R s' (R(w := (if b then Converting v else Confirming v)))"
proof -
  have inv: "sched_inv (aborted R) s" by (rule own_invD(1)[OF own])
  have v: "ver_idx v < block_size s" "min_validation_idx s \<le> ver_idx v"
    using own_invD(3)[OF own, of w] R by simp_all
  then have vl: "ver_idx v < length (transactions_status s)" using base_lengths(1)[OF inv_base[OF inv]] by simp
  have a: "\<not> b \<longrightarrow> s' = s" "b \<longleftrightarrow> is_done (stat s (ver_idx v))"
    "b \<longrightarrow> (\<exists>n. s' = (set_status (ver_idx v) Aborting s)\<lparr>num_validated := n\<rparr>)"
    using try_validation_abort_ok[OF inv v(1)] run by auto
  show ?thesis
  proof (cases b)
    case True
    then obtain n where s': "s' = (set_status (ver_idx v) Aborting s)\<lparr>num_validated := n\<rparr>" using a(3) by blast
    have st: "stat s' j = (if j = ver_idx v then Aborting else stat s j)" for j
      using stat_set_status[OF vl, of Aborting j] by (simp add: s')
    have f: "block_size s' = block_size s" "min_validation_idx s' = min_validation_idx s"
      "transactions_dependents s' = transactions_dependents s" by (simp_all add: s' set_status_def)
    have "unwatched s' (R(w := Converting v)) t \<Longrightarrow> unwatched s R t" for t
      using unwatched_update[of s' R w _ t s] f(2) R by simp
    moreover have "live s' (R(w := Converting v)) i \<longleftrightarrow> live s R i" for i
      using R a(2) True role_updates(3)[of R w "Converting v" i] by (auto simp: live_def st)
    ultimately show ?thesis using True f v(2) by (auto simp: frame_def st)
  next
    case False
    then show ?thesis using a(1) frame_roles[OF own_invD(2)[OF own], of w "Confirming v" s] R by simp
  qed
qed

lemma frame_finish_validation:
  assumes own: "own_inv err s R" and R: "R w = (if ab then Rescheduling v else Confirming v)"
    and run: "finish_validation v ab s = Inr (r, s')"
  shows "frame s R s' (R(w := task_role r))"
proof -
  have len: "length (transactions_status s) = block_size s"
    by (rule base_lengths(1)[OF inv_base[OF own_invD(1)[OF own]]])
  have v: "ver_idx v < length (transactions_status s)" using own_invD(3)[OF own, of w] R len by (auto split: if_splits)
  have hd: "holds_data (R w) = None" using R by simp
  show ?thesis
  proof (cases ab)
    case False
    then have "R w = Confirming v" "finish_validation v False s = Inr (r, s')" using R run by simp_all
    note V = own_validated(3)[OF own this]
    show ?thesis
      by (rule frameI[OF own_invD(2)[OF own] hd])
        (use stat_set_status[OF v, of Validated] in \<open>auto simp: V set_status_def\<close>)
  next
    case True
    then have Rw: "R w = Rescheduling v" and fv: "finish_validation v True s = Inr (r, s')" using R run by simp_all
    have "ver_idx v \<in> aborted R" unfolding aborted_iff by (rule exI[of _ w]) (simp add: Rw)
    then have ab: "stat s (ver_idx v) = Aborting"
      using sched_baseD(6)[OF inv_base[OF own_invD(1)[OF own]]] by simp
    obtain s1 where s1: "s1 = s\<lparr>transactions_status := (transactions_status s)
           [ver_idx v := \<lparr>incarnation = inc s (ver_idx v) + 1, status = ReadyToExecute\<rparr>],
         validation_idx := min (validation_idx s) (ver_idx v + 1)\<rparr>"
      and c: "r = None \<and> s' = s1 \<or> (\<exists>u. r = Some (Execution u) \<and> ver_idx u = ver_idx v \<and> picked s1 u s')"
      using own_reschedule(2)[OF own Rw fv] by blast
    have st1: "is_done (stat s1 p) \<longleftrightarrow> is_done (stat s p)" for p
      using v ab by (cases "p = ver_idx v") (simp_all add: s1)
    have len1: "length (transactions_status s1) = block_size s1" using len by (simp add: s1)
    have "is_done (stat s' p) \<longleftrightarrow> is_done (stat s p)" for p
      using c
    proof (elim disjE exE conjE)
      fix u assume "ver_idx u = ver_idx v" "picked s1 u s'"
      then show ?thesis using pickedD(7)[OF _ len1, of u s' p] st1[of p] ab by (cases "p = ver_idx v") simp_all
    qed (use st1[of p] in simp)
    moreover have "block_size s' = block_size s \<and> min_validation_idx s' = min_validation_idx s \<and>
        transactions_dependents s' = transactions_dependents s"
      using c by (auto simp: s1 picked_def set_status_def)
    ultimately show ?thesis by (intro frameI[OF own_invD(2)[OF own] hd]) auto
  qed
qed

section \<open>Waiting for the dependencies known before execution\<close>

text \<open>The relation between a transaction and those that wait for it.\<close>

definition wait_rel :: "nat \<Rightarrow> scheduler \<Rightarrow> (tx_idx \<times> tx_idx) set" where
  "wait_rel n s = {(j, t). j < n \<and> t < n \<and> t \<in> set (transactions_dependents s ! j)}"

definition waits_inv :: "(tx_idx \<times> tx_idx) set \<Rightarrow> scheduler \<Rightarrow> bool" where
  "waits_inv W s \<longleftrightarrow>
     (\<forall>(p, t) \<in> W. p < t \<and> t < block_size s \<and>
        (t < min_validation_idx s \<longrightarrow> is_done (stat s p) \<or> t \<in> set (transactions_dependents s ! p)))"

lemma waits_start: "sched_inv A s \<Longrightarrow> waits_inv (wait_rel (block_size s) s) s"
  using sched_baseD(3)[OF inv_base, of A s] by (auto simp: waits_inv_def wait_rel_def blockers_ok_def)

lemma waits_invD:
  "waits_inv W s \<Longrightarrow> (p, t) \<in> W \<Longrightarrow> p < t \<and> t < block_size s"
  "waits_inv W s \<Longrightarrow> (p, t) \<in> W \<Longrightarrow> t < min_validation_idx s \<Longrightarrow>
     is_done (stat s p) \<or> t \<in> set (transactions_dependents s ! p)"
  by (auto simp: waits_inv_def)

lemma waits_frame:
  assumes "waits_inv W s" and "frame s R s' R'"
  shows "waits_inv W s'"
  unfolding waits_inv_def
proof (clarify, intro conjI impI)
  fix p t assume pt: "(p, t) \<in> W"
  note w = waits_invD[OF assms(1) pt]
  show "p < t" "t < block_size s'" using w(1) assms(2) by (auto simp: frame_def)
  assume t: "t < min_validation_idx s'"
  then have "p < min_validation_idx s'" "t < min_validation_idx s" using w(1) assms(2) by (auto simp: frame_def)
  then show "is_done (stat s' p) \<or> t \<in> set (transactions_dependents s' ! p)"
    using w assms(2) unfolding frame_def by (meson less_trans)
qed

lemma waits_direct:
  assumes inv: "sched_inv A s" and waits: "waits_inv W s" and "(p, t) \<in> W"
    and "t < min_validation_idx s" and st: "stat s t \<noteq> Aborting"
  shows "is_done (stat s p)"
proof (rule ccontr)
  assume "\<not> is_done (stat s p)"
  then have t: "t \<in> set (transactions_dependents s ! p)" using waits_invD(2)[OF waits] assms(3,4) by blast
  have "0 < pending s t"
    using pending_member[OF _ t] waits_invD(1)[OF waits assms(3)] base_lengths(2)[OF inv_base[OF inv]] by simp
  then show False using deps_okD(2)[OF sched_baseD(2)[OF inv_base[OF inv]]] st by auto
qed

lemma waits_done:
  assumes inv: "sched_inv A s" and waits: "waits_inv W s" and "(p, t) \<in> W\<^sup>+"
  shows "t < min_validation_idx s \<Longrightarrow> stat s t \<noteq> Aborting \<Longrightarrow> is_done (stat s p)"
  using assms(3)
proof (induction rule: trancl_induct)
  case (base y)
  then show ?case using waits_direct[OF inv waits] by blast
next
  case (step y z)
  then have "is_done (stat s y)" "y < min_validation_idx s"
    using waits_direct[OF inv waits step.hyps(2)] waits_invD(1)[OF waits step.hyps(2)] by auto
  then show ?case using step.IH by auto
qed

section \<open>Reads that stay valid\<close>

definition clean :: "vm \<Rightarrow> mv_memory \<Rightarrow> tx_idx \<Rightarrow> read_locations \<Rightarrow> bool" where
  "clean vm m t reads \<longleftrightarrow> reads_valid m t reads \<and>
     (0 < t \<longrightarrow> fst ` set reads \<subseteq> read_points vm (txs vm ! t))"

fun failed :: "vm_run \<Rightarrow> bool" where
  "failed (Evm_Done (Inl e)) \<longleftrightarrow> True"
| "failed _ \<longleftrightarrow> False"

text \<open>The read set a worker carries for a transaction that will not ask for its own validation.\<close>

fun carried :: "worker \<Rightarrow> (tx_idx \<times> read_locations) option" where
  "carried (RunEvm v t db) =
     (if failed t \<or> 0 < ver_idx v \<and> \<not> only_read_from_and_to db then None
      else Some (ver_idx v, locations (db_read_set db)))"
| "carried (Record v res reads ws nxt) = (if nxt = Some (ver_idx v) then None else Some (ver_idx v, reads))"
| "carried _ = None"

text \<open>What a worker knows of the locations it touches.\<close>

fun local_worker :: "vm \<Rightarrow> worker \<Rightarrow> bool" where
  "local_worker vm (RunEvm v t db) \<longleftrightarrow> local_db vm (ver_idx v) (txs vm ! ver_idx v) db"
| "local_worker vm (Record v res reads ws nxt) \<longleftrightarrow>
     nxt \<in> {None, Some (ver_idx v), Some (ver_idx v + 1)} \<and>
     (0 < ver_idx v \<longrightarrow> nxt = None \<longrightarrow>
        fst ` set ws \<subseteq> insert (beneficiary_location_hash vm) (endpoints vm (txs vm ! ver_idx v)))"
| "local_worker vm _ \<longleftrightarrow> True"

definition worker_clean :: "vm \<Rightarrow> scheduler \<Rightarrow> mv_memory \<Rightarrow> (nat \<Rightarrow> role) \<Rightarrow> worker \<Rightarrow> bool" where
  "worker_clean vm s m R k \<longleftrightarrow> local_worker vm k \<and>
     (\<forall>i reads. carried k = Some (i, reads) \<longrightarrow> i = 0 \<or> unwatched s R i \<longrightarrow> clean vm m i reads)"

lemma worker_clean_idle [simp]: "worker_clean vm s m R (begin_task t)" "worker_clean vm s m R NextTask"
  "worker_clean vm s m R Stopped"
  by (cases t) (auto simp: worker_clean_def)

lemma worker_clean_frame: "worker_clean vm s m R k \<Longrightarrow> frame s R s' R' \<Longrightarrow> worker_clean vm s' m R' k"
  by (auto simp: worker_clean_def frame_def)

lemma evm_step_flag:
  assumes "evm_step (vm_database rv vm m) t db = (t', db')" and "only_read_from_and_to db'"
  shows "only_read_from_and_to db"
proof (cases t)
  case (Evm_Basic a pre k)
  then obtain x where x: "vm_basic rv vm m a pre db = (x, db')"
    using assms(1) by (auto simp: vm_database_def split: prod.splits)
  show ?thesis using vm_basic_effect(2)[OF x] assms(2) by (cases "db' = db") auto
qed (use assms in \<open>auto simp: vm_database_def vm_code_by_hash_def vm_has_storage_def vm_block_hash_def
    vm_storage_read_def Let_def split: sum.splits prod.splits\<close>)

section \<open>Steps that leave the memory alone\<close>

lemma holds_data_roles [simp]: "holds_data (role_of NextTask) = None" "holds_data (role_of (begin_task t)) = None"
  by (cases t) auto

lemma step_frame:
  assumes core: "core_inv rv transact vm sh R H" and R: "R w = role_of k"
    and ok: "worker_ok rv transact vm (history_values H) k"
    and run: "worker_step rv transact vm k sh = Inr (k', sh')"
    and k: "\<And>v res reads ws nxt. k \<noteq> Record v res reads ws nxt" "\<And>v. k \<noteq> ConvertWrites v"
  shows "sh_memory sh' = sh_memory sh \<and> frame (sh_scheduler sh) R (sh_scheduler sh') (R(w := role_of k'))"
proof -
  note own = core_invD(2)[OF core]
  let ?s = "sh_scheduler sh"
  have same: ?thesis if "sh_memory sh' = sh_memory sh" "sh_scheduler sh' = ?s" "holds_data (R w) = None" "holds_data (role_of k') = None"
    using frame_roles[OF own_invD(2)[OF own] that(3,4)] that(1,2) by simp
  show ?thesis
  proof (cases k)
    case NextTask
    then obtain r s' where r: "next_task_iter ?s = Inr (r, s')" "sh_scheduler sh' = s'" "sh_memory sh' = sh_memory sh"
      "role_of k' = (case r of Return t \<Rightarrow> task_role (Some t) | _ \<Rightarrow> Free)"
      using run by (auto simp: next_task_step_def split: sum.splits round_result.splits)
    from frame_next_task[OF own _ r(1)] show ?thesis using R NextTask r(2-4) by simp
  next
    case (StartExecution v)
    then show ?thesis using run R by (intro same) (auto split: sum.splits)
  next
    case (RunEvm v t db)
    have "holds_data (role_of (after_execute v x)) = None" for x by (cases x) auto
    then have "sh' = sh \<and> holds_data (role_of k') = None"
      using run RunEvm by (auto elim!: run_evm_step.elims split: sum.splits prod.splits)
    then show ?thesis using R RunEvm by (intro same) auto
  next
    case (AddDependency v b)
    then obtain added s' where a: "add_dependency (ver_idx v) b ?s = Inr (added, s')" "sh_scheduler sh' = s'"
      "sh_memory sh' = sh_memory sh" "holds_data (role_of k') = None"
      using run by (auto simp: add_dependency_step_def split: sum.splits)
    from frame_add_dependency[OF own _ _ a(1,4)] show ?thesis using R AddDependency ok a(2,3) by simp
  next
    case (SetError v e)
    then show ?thesis using run R by (intro same) (auto simp: set_error_step_def split: option.splits)
  next
    case (FinishExecution v new nxt)
    then obtain r s' where r: "finish_execution v new nxt ?s = Inr (r, s')" "sh_scheduler sh' = s'"
      "sh_memory sh' = sh_memory sh" "k' = CheckError r"
      using run by (auto simp: finish_execution_step_def split: sum.splits)
    from frame_finish_execution[OF own _ r(1)] show ?thesis using R FinishExecution r(2-4) by simp
  next
    case (Validate v)
    then show ?thesis using run R by (intro same) (auto simp: validate_step_def split: sum.splits if_splits)
  next
    case (TryAbort v)
    then obtain b s' where a: "try_validation_abort v ?s = Inr (b, s')" "sh_scheduler sh' = s'"
      "sh_memory sh' = sh_memory sh" "k' = (if b then ConvertWrites v else FinishValidation v False)"
      using run by (auto simp: try_abort_step_def split: sum.splits)
    from frame_try_abort[OF own _ a(1)] show ?thesis using R TryAbort a(2-4) by (simp split: if_splits)
  next
    case (FinishValidation v ab)
    then obtain r s' where r: "finish_validation v ab ?s = Inr (r, s')" "sh_scheduler sh' = s'"
      "sh_memory sh' = sh_memory sh" "k' = CheckError r"
      using run by (auto simp: finish_validation_step_def split: sum.splits)
    from frame_finish_validation[OF own _ r(1)] show ?thesis using R FinishValidation r(2-4) by simp
  next
    case (CheckError r)
    then show ?thesis using run R
      by (intro same) (auto simp: check_error_step_def split: option.splits if_splits)
  next
    case Stopped
    then show ?thesis using run R by (intro same) auto
  qed (use k in auto)
qed

text \<open>What a worker carries after its step is clean, if it was before.\<close>

lemma run_step_clean:
  assumes wf: "vm_wf vm" and m: "mv_inv m" "mv_values G m" and nd: "\<forall>r. t \<noteq> Evm_Done r"
    and ok: "run_ok rv transact vm G (ver_idx v) t db" and clean: "worker_clean vm s m R (RunEvm v t db)"
    and step: "evm_step (vm_database rv vm m) t db = (t', db')"
  shows "worker_clean vm s m R (RunEvm v t' db')"
proof -
  let ?i = "ver_idx v"
  have loc: "local_db vm ?i (txs vm ! ?i) db'"
    using local_db_call[OF _ step] clean by (simp add: worker_clean_def)
  have nf: "\<not> failed t" using nd by (cases t rule: failed.cases) auto
  have "clean vm m ?i (locations (db_read_set db'))"
    if c: "\<not> failed t'" "?i = 0 \<or> only_read_from_and_to db'" and u: "?i = 0 \<or> unwatched s R ?i"
  proof -
    have "?i = 0 \<or> only_read_from_and_to db" using c(2) evm_step_flag[OF step] by blast
    then have "reads_valid m ?i (locations (db_read_set db))"
      using clean nf u by (auto simp: worker_clean_def clean_def)
    moreover have "db_ok vm ?i G db" "propagates t" using ok nd by (auto simp: run_ok_def)
    moreover have "t' \<noteq> Evm_Done (Inl (EVM_Database e))" for e using c(1) by auto
    ultimately have "reads_valid m ?i (locations (db_read_set db'))"
      using evm_step_reads_valid[OF wf m _ _ step] c(2) by blast
    then show ?thesis using loc c(2) by (auto simp: clean_def local_db_def)
  qed
  then show ?thesis using loc by (auto simp: worker_clean_def split: if_splits)
qed

lemma finish_clean:
  assumes clean: "worker_clean vm s m R (RunEvm v (Evm_Done r) db)"
    and fin: "vm_finish rv vm (txs vm ! ver_idx v) db r = Inr x"
  shows "worker_clean vm s m R (after_execute v x)"
proof (cases x)
  case (VmOk res reads ws nxt)
  let ?i = "ver_idx v"
  have loc: "local_db vm ?i (txs vm ! ?i) db" using clean by (simp add: worker_clean_def)
  note F = finish_local[OF loc fin[unfolded VmOk]]
  obtain rs where "r = Inr rs" using fin[unfolded VmOk] by (rule vm_finish_Ok)
  then have nf: "\<not> failed (Evm_Done r)" by simp
  have "clean vm m ?i reads" if "nxt \<noteq> Some ?i" "?i = 0 \<or> unwatched s R ?i"
  proof -
    have "?i = 0 \<or> only_read_from_and_to db" using F(3) that(1) by auto
    then show ?thesis using clean nf that(2) F(2) by (auto simp: worker_clean_def)
  qed
  then show ?thesis using F(1,6) by (auto simp: VmOk worker_clean_def split: if_splits)
qed (auto simp: worker_clean_def)

lemma step_worker_clean:
  assumes mach: "vm_wf vm" and core: "core_inv rv transact vm sh R H"
    and ok: "worker_ok rv transact vm (history_values H) k"
    and clean: "worker_clean vm (sh_scheduler sh) (sh_memory sh) R k"
    and run: "worker_step rv transact vm k sh = Inr (k', sh')"
    and k: "\<And>v res reads ws nxt. k \<noteq> Record v res reads ws nxt" "\<And>v. k \<noteq> ConvertWrites v"
  shows "worker_clean vm (sh_scheduler sh) (sh_memory sh) R k'"
proof (cases k)
  case (StartExecution v)
  then obtain db where st: "vm_start vm (ver_idx v) = Inr db" "k' = RunEvm v (tx_run transact vm (ver_idx v)) db"
    using run by (auto split: sum.splits)
  have "locations (db_read_set db) = []" using vm_start_ok(3)[OF mach st(1)] by simp
  then show ?thesis using local_db_start[OF st(1)] unfolding st(2)
    by (simp add: worker_clean_def clean_def reads_valid_def)
next
  case (RunEvm v t db)
  have m: "mv_inv (sh_memory sh)" "mv_values (history_values H) (sh_memory sh)"
    using hist_invD(1)[OF core_invD(3)[OF core]] hist_values[OF core_invD(3)[OF core]] by auto
  show ?thesis
  proof (cases "\<exists>r. t = Evm_Done r")
    case True
    then obtain r x where "t = Evm_Done r" "vm_finish rv vm (txs vm ! ver_idx v) db r = Inr x" "k' = after_execute v x"
      using run RunEvm by (auto split: sum.splits)
    then show ?thesis using finish_clean clean RunEvm by blast
  next
    case False
    then obtain t' db' where "evm_step (vm_database rv vm (sh_memory sh)) t db = (t', db')" "k' = RunEvm v t' db'"
      using run RunEvm by (cases t) (auto split: prod.splits)
    then show ?thesis using run_step_clean[OF mach m _ _ clean[unfolded RunEvm]] ok RunEvm False by auto
  qed
next
  case NextTask
  then show ?thesis using run by (auto simp: next_task_step_def split: sum.splits round_result.splits)
next
  case (CheckError r)
  then show ?thesis using run by (auto simp: check_error_step_def split: option.splits if_splits)
qed (use run k in \<open>auto simp: add_dependency_step_def set_error_step_def finish_execution_step_def
    validate_step_def try_abort_step_def finish_validation_step_def worker_clean_def
    split: sum.splits option.splits if_splits\<close>)

section \<open>Recording and converting\<close>

text \<open>
  What is asked of the block. Whenever a transaction can write an account that a later one reads,
  the later one waits for it; the beneficiary is exempt, since its readers wait for every lower
  transaction. And the first transaction, which never asks for validation, writes no
  other account or slot than its sender, its recipient and the beneficiary.
\<close>

definition conflicts_wait :: "vm \<Rightarrow> (tx_idx \<times> tx_idx) set \<Rightarrow> bool" where
  "conflicts_wait vm W \<longleftrightarrow>
     (\<forall>t < length (txs vm). \<forall>p < t.
        endpoints vm (txs vm ! p) \<inter> read_points vm (txs vm ! t) \<subseteq> {beneficiary_location_hash vm} \<or> (p, t) \<in> W\<^sup>+)"

definition first_local :: "revm \<Rightarrow> read_error transact \<Rightarrow> vm \<Rightarrow> bool" where
  "first_local rv transact vm \<longleftrightarrow>
     (case vm_execute rv transact vm (mv_new (length (txs vm)) []) 0 of
        Inr (VmOk res reads ws nxt) \<Rightarrow> fst ` set ws \<subseteq> insert (beneficiary_location_hash vm) (endpoints vm (txs vm ! 0))
      | _ \<Rightarrow> True)"

definition memory_clean :: "vm \<Rightarrow> scheduler \<Rightarrow> mv_memory \<Rightarrow> (nat \<Rightarrow> role) \<Rightarrow> bool" where
  "memory_clean vm s m R \<longleftrightarrow>
     (\<forall>i < block_size s. \<not> live s R i \<longrightarrow> mv_get m (beneficiary_location_hash vm) i = Some Estimate) \<and>
     (\<forall>i < block_size s. live s R i \<longrightarrow> unwatched s R i \<longrightarrow> clean vm m i (last_read (mv_last m ! i)))"

lemma memory_clean_frame: "memory_clean vm s m R \<Longrightarrow> frame s R s' R' \<Longrightarrow> memory_clean vm s' m R'"
  by (auto simp: memory_clean_def frame_def)

lemma reads_valid_walks:
  assumes "\<And>l os. (l, os) \<in> set rs \<Longrightarrow> origins_ok os"
  shows "reads_valid m t rs \<longleftrightarrow> (\<forall>(l, os) \<in> set rs. validate_origins (walk m l t) os)"
  unfolding reads_valid_def list_all_iff using assms by (fastforce simp: validate_location_walk)

lemma record_writes_local:
  assumes core: "core_inv rv transact vm sh R H" and first: "first_local rv transact vm"
    and ok: "worker_ok rv transact vm (history_values H) (Record v res reads ws None)"
    and clean: "worker_clean vm (sh_scheduler sh) (sh_memory sh) R (Record v res reads ws None)"
  shows "fst ` set ws \<subseteq> insert (beneficiary_location_hash vm) (endpoints vm (txs vm ! ver_idx v))"
proof (cases "ver_idx v = 0")
  case False
  then show ?thesis using clean by (simp add: worker_clean_def)
next
  case True
  let ?m = "sh_memory sh"
  note hist = core_invD(3)[OF core]
  have "reads_valid ?m 0 reads" using clean True by (simp add: worker_clean_def clean_def)
  then have "vm_execute rv transact vm ?m 0 = Inr (VmOk res reads ws None)"
    using ok True hist_invD(1)[OF hist] hist_values[OF hist] values_extend_refl[of "history_values H"]
    unfolding worker_ok.simps replayable_def recorded.simps by metis
  moreover have "vm_execute rv transact vm (mv_new (length (txs vm)) []) 0 = vm_execute rv transact vm ?m 0"
    by (rule vm_execute_cong) simp
  ultimately show ?thesis using first True by (simp add: first_local_def)
qed

text \<open>The entries below an unvalidated transaction that a record can change are estimates.\<close>

lemma record_keeps_entry:
  assumes core: "core_inv rv transact vm sh R H" and R: "R w = Pre v"
    and mem: "memory_clean vm (sh_scheduler sh) (sh_memory sh) R"
    and waits: "waits_inv W (sh_scheduler sh)" and conf: "conflicts_wait vm W"
    and ws: "fst ` set ws \<subseteq> insert (beneficiary_location_hash vm) (endpoints vm (txs vm ! ver_idx v))"
    and t: "ver_idx v < t" "t < length (txs vm)" "t < min_validation_idx (sh_scheduler sh)"
      "stat (sh_scheduler sh) t \<noteq> Aborting"
    and l: "l \<in> read_points vm (txs vm ! t)"
    and e: "mv_get (sh_memory sh) l (ver_idx v) \<noteq> Some Estimate"
  shows "recorded_entry v ws (sh_memory sh) l = mv_get (sh_memory sh) l (ver_idx v)"
proof -
  let ?s = "sh_scheduler sh" and ?m = "sh_memory sh" and ?p = "ver_idx v"
  note D = core_invD[OF core]
  note fresh = hist_record_fresh[OF D(2,3) R]
  have ex: "stat ?s ?p = Executing" using own_invD(3)[OF D(2), of w] R by simp
  have "l \<noteq> beneficiary_location_hash vm" using e mem fresh(1,3) by (auto simp: memory_clean_def)
  moreover have "(?p, t) \<notin> W\<^sup>+"
    using waits_done[OF own_invD(1)[OF D(2)] waits _ t(3,4)] ex by fastforce
  then have "l \<notin> endpoints vm (txs vm ! ?p)"
    using conf t(1,2) l \<open>l \<noteq> beneficiary_location_hash vm\<close> unfolding conflicts_wait_def by blast
  ultimately have "map_of (rev ws) l = None" using ws map_of_rev_dom[of ws l] by blast
  moreover have "last_write (mv_last ?m ! ?p) = []"
    using hist_invD(10)[OF D(3) fresh(1,3)] t(1,3) by fastforce
  ultimately show ?thesis by (simp add: recorded_entry_def)
qed

lemma record_keeps:
  assumes core: "core_inv rv transact vm sh R H" and R: "R w = Pre v"
    and mem: "memory_clean vm (sh_scheduler sh) (sh_memory sh) R"
    and waits: "waits_inv W (sh_scheduler sh)" and conf: "conflicts_wait vm W" and first: "first_local rv transact vm"
    and ok: "worker_ok rv transact vm (history_values H) (Record v res reads ws nxt)"
    and own: "worker_clean vm (sh_scheduler sh) (sh_memory sh) R (Record v res reads ws nxt)"
    and rec: "mv_record v reads ws (sh_memory sh) = Inr (new, m')"
    and t: "t < length (txs vm)" "t = 0 \<or> unwatched (sh_scheduler sh) (R(w := Finishing v new nxt)) t"
      "t = 0 \<or> stat (sh_scheduler sh) t \<noteq> Aborting"
    and rs: "\<And>l os. (l, os) \<in> set rs \<Longrightarrow> origins_ok os" "clean vm (sh_memory sh) t rs"
  shows "clean vm m' t rs"
proof -
  let ?s = "sh_scheduler sh" and ?m = "sh_memory sh" and ?p = "ver_idx v"
  note D = core_invD[OF core]
  have pl: "?p < length (mv_last ?m)" using hist_record_fresh(1)[OF D(2,3) R] hist_invD(2)[OF D(3)] by simp
  have m': "mv_inv m'" "\<And>l j. mv_get m' l j = (if j = ?p then recorded_entry v ws ?m l else mv_get ?m l j)"
    using mv_record_ok[OF hist_invD(1)[OF D(3)] pl, of reads ws] rec by auto
  have val: "reads_valid x j rs \<longleftrightarrow> (\<forall>(l, os) \<in> set rs. validate_origins (walk x l j) os)" for x j
    using rs(1) by (rule reads_valid_walks)
  have "validate_origins (walk m' l t) os" if los: "(l, os) \<in> set rs" for l os
  proof (rule validate_walk_stable[OF hist_invD(1)[OF D(3)] m'(1)])
    show "validate_origins (walk ?m l t) os"
      using val[of ?m t] rs(2) los by (auto simp: clean_def)
    fix j assume j: "j < t" "mv_get ?m l j \<noteq> Some Estimate"
    show "mv_get m' l j = mv_get ?m l j"
    proof (cases "j = ?p")
      case True
      have u: "unwatched ?s (R(w := Finishing v new nxt)) t" "stat ?s t \<noteq> Aborting" using t(2,3) j(1) by auto
      have "nxt = None"
        using own unwatched_finishing[OF u(1)] True j(1) by (auto simp: worker_clean_def)
      then have "fst ` set ws \<subseteq> insert (beneficiary_location_hash vm) (endpoints vm (txs vm ! ?p))"
        using record_writes_local[OF core first] ok own by simp
      moreover have "l \<in> read_points vm (txs vm ! t)" using rs(2) los j(1) by (force simp: clean_def)
      ultimately show ?thesis
        using record_keeps_entry[OF core R mem waits conf _ _ t(1) _ u(2)] u(1) True j m'(2)
        by (simp add: unwatched_def)
    qed (simp add: m'(2))
  qed
  then show ?thesis using rs(2) by (auto simp: clean_def val)
qed

text \<open>What a worker carries has proper origins and belongs to a transaction in execution.\<close>

lemma carried_ok:
  assumes "worker_ok rv transact vm G k" and "carried k = Some (i, rs)"
  shows "(l, os) \<in> set rs \<Longrightarrow> origins_ok os" and "\<exists>v. role_of k = Pre v \<and> ver_idx v = i"
proof -
  show "\<exists>v. role_of k = Pre v \<and> ver_idx v = i" using assms(2) by (cases k) (auto split: if_splits)
  show "(l, os) \<in> set rs \<Longrightarrow> origins_ok os"
  proof (cases k)
    case (RunEvm v t db)
    then have "\<not> failed t" "rs = locations (db_read_set db)" using assms(2) by (auto split: if_splits)
    moreover from this have "db_ok vm (ver_idx v) G db" using assms(1) RunEvm by (auto simp: run_ok_def)
    ultimately show "(l, os) \<in> set rs \<Longrightarrow> origins_ok os" by (auto simp: db_ok_def location_ok_def)
  next
    case (Record v res reads ws nxt)
    then show "(l, os) \<in> set rs \<Longrightarrow> origins_ok os" using assms by (auto simp: replayable_def split: if_splits)
  qed (use assms(2) in auto)
qed

lemma live_ok:
  assumes core: "core_inv rv transact vm sh R H" and i: "i < block_size (sh_scheduler sh)" "live (sh_scheduler sh) R i"
  shows "(l, os) \<in> set (last_read (mv_last (sh_memory sh) ! i)) \<Longrightarrow> origins_ok os"
    and "i < min_validation_idx (sh_scheduler sh) \<Longrightarrow> stat (sh_scheduler sh) i \<noteq> Aborting"
proof -
  note D = core_invD[OF core]
  show "origins_ok os" if "(l, os) \<in> set (last_read (mv_last (sh_memory sh) ! i))"
    using hist_invD(7)[OF D(3) i(1) live_current[OF i(2)]] hist_invD(5)[OF D(3)] that by (fastforce simp: replayable_def)
  assume "i < min_validation_idx (sh_scheduler sh)"
  moreover have "stat (sh_scheduler sh) i = Executing \<or> min_validation_idx (sh_scheduler sh) \<le> i"
    if "holds_data (R w) = Some i" for w
    using own_invD(3)[OF D(2), of w] that by (cases "R w") auto
  ultimately show "stat (sh_scheduler sh) i \<noteq> Aborting" using i(2) by (auto simp: live_def some_role_def)
qed

lemma record_roles:
  assumes core: "core_inv rv transact vm sh R H" and R: "R w = Pre v"
  shows "live (sh_scheduler sh) (R(w := Finishing v new nxt)) i \<longleftrightarrow> i = ver_idx v \<or> live (sh_scheduler sh) R i"
    and "unwatched (sh_scheduler sh) (R(w := Finishing v new nxt)) i \<Longrightarrow> unwatched (sh_scheduler sh) R i"
    and "unwatched (sh_scheduler sh) (R(w := Finishing v new nxt)) i \<Longrightarrow> nxt \<noteq> Some i"
proof -
  show "live (sh_scheduler sh) (R(w := Finishing v new nxt)) i \<longleftrightarrow> i = ver_idx v \<or> live (sh_scheduler sh) R i"
    using role_updates(1)[OF own_invD(2)[OF core_invD(2)[OF core]], of w "ver_idx v" "Finishing v new nxt" i] R
    by (auto simp: live_def)
  show "unwatched (sh_scheduler sh) (R(w := Finishing v new nxt)) i \<Longrightarrow> unwatched (sh_scheduler sh) R i"
    by (rule unwatched_update) (use R in auto)
  show "unwatched (sh_scheduler sh) (R(w := Finishing v new nxt)) i \<Longrightarrow> nxt \<noteq> Some i"
    using unwatched_finishing by blast
qed

definition calm :: "vm \<Rightarrow> (tx_idx \<times> tx_idx) set \<Rightarrow> shared \<Rightarrow> worker list \<Rightarrow> bool" where
  "calm vm W sh ks \<longleftrightarrow> waits_inv W (sh_scheduler sh) \<and>
     memory_clean vm (sh_scheduler sh) (sh_memory sh) (roles ks) \<and>
     (\<forall>k \<in> set ks. worker_clean vm (sh_scheduler sh) (sh_memory sh) (roles ks) k)"

lemma record_memory_clean:
  assumes core: "core_inv rv transact vm sh R H" and R: "R w = Pre v"
    and mem: "memory_clean vm (sh_scheduler sh) (sh_memory sh) R"
    and waits: "waits_inv W (sh_scheduler sh)" and conf: "conflicts_wait vm W" and first: "first_local rv transact vm"
    and ok: "worker_ok rv transact vm (history_values H) (Record v res reads ws nxt)"
    and own: "worker_clean vm (sh_scheduler sh) (sh_memory sh) R (Record v res reads ws nxt)"
    and rec: "mv_record v reads ws (sh_memory sh) = Inr (new, m')"
  shows "memory_clean vm (sh_scheduler sh) m' (R(w := Finishing v new nxt))"
  unfolding memory_clean_def
proof (intro conjI allI impI)
  let ?s = "sh_scheduler sh" and ?m = "sh_memory sh" and ?R' = "R(w := Finishing v new nxt)" and ?p = "ver_idx v"
  note D = core_invD[OF core] and keep = record_keeps[OF core R mem waits conf first ok own rec]
    and roles' = record_roles[OF core R, of new nxt]
  have pl: "?p < length (mv_last ?m)" using hist_record_fresh(1)[OF D(2,3) R] hist_invD(2)[OF D(3)] by simp
  have last': "mv_last m' ! i = (if i = ?p then \<lparr>last_read = reads, last_write = map fst ws\<rparr> else mv_last ?m ! i)"
    and get': "i \<noteq> ?p \<Longrightarrow> mv_get m' l i = mv_get ?m l i" for i l
    using mv_record_ok[OF hist_invD(1)[OF D(3)] pl, of reads ws] rec pl by (auto simp: nth_list_update)
  show "mv_get m' (beneficiary_location_hash vm) i = Some Estimate" if "i < block_size ?s" "\<not> live ?s ?R' i" for i
    using that mem get'[of i] roles'(1)[of i] by (simp add: memory_clean_def)
  fix i assume i: "i < block_size ?s" "live ?s ?R' i" "unwatched ?s ?R' i"
  show "clean vm m' i (last_read (mv_last m' ! i))"
  proof (cases "i = ?p")
    case True
    have "clean vm ?m i reads" using own roles'(2,3)[OF i(3)] True by (simp add: worker_clean_def)
    then have "clean vm m' i reads"
      by (intro keep) (use i True D(1) own_invD(3)[OF D(2), of w] R ok in \<open>auto simp: replayable_def\<close>)
    then show ?thesis using True last' by simp
  next
    case False
    then have l: "live ?s R i" using i(2) roles'(1) by simp
    have "clean vm m' i (last_read (mv_last ?m ! i))"
      by (intro keep) (use i(1,3) l D(1) mem roles'(2)[OF i(3)] live_ok[OF core i(1) l] in
          \<open>auto simp: memory_clean_def unwatched_def\<close>)
    then show ?thesis using False last' by simp
  qed
qed

lemma calm_record:
  assumes core: "core_inv rv transact vm sh (roles ks) H" and ok: "\<forall>k \<in> set ks. worker_ok rv transact vm (history_values H) k"
    and calm: "calm vm W sh ks" and conf: "conflicts_wait vm W" and first: "first_local rv transact vm"
    and w: "w < length ks" "ks ! w = Record v res reads ws nxt" and run: "record_step v res reads ws nxt sh = Inr (k', sh')"
  shows "calm vm W sh' (ks[w := k'])"
proof -
  let ?s = "sh_scheduler sh" and ?m = "sh_memory sh" and ?R = "roles ks"
  note D = core_invD[OF core]
  obtain new m' where rec: "mv_record v reads ws ?m = Inr (new, m')" and sh': "sh_scheduler sh' = ?s" "sh_memory sh' = m'"
    and k': "k' = FinishExecution v new nxt"
    using run by (auto simp: record_step_def split: sum.splits)
  have R: "?R w = Pre v" using w by (simp add: roles_def)
  have R': "roles (ks[w := k']) = ?R(w := Finishing v new nxt)" using roles_update[OF w(1)] k' by simp
  have mem: "memory_clean vm ?s ?m ?R" and waits: "waits_inv W ?s"
    and cl: "\<And>k. k \<in> set ks \<Longrightarrow> worker_clean vm ?s ?m ?R k" using calm by (auto simp: calm_def)
  have own: "worker_clean vm ?s ?m ?R (Record v res reads ws nxt)"
    and rok: "worker_ok rv transact vm (history_values H) (Record v res reads ws nxt)"
    using cl ok w nth_mem[OF w(1)] by (metis, metis)
  have "worker_clean vm ?s m' (?R(w := Finishing v new nxt)) k" if k: "k \<in> set ks" for k
  proof -
    have "clean vm m' i rs" if c: "carried k = Some (i, rs)"
      and i: "i = 0 \<or> unwatched ?s (?R(w := Finishing v new nxt)) i" for i rs
    proof (rule record_keeps[OF core R mem waits conf first rok own rec])
      note C = carried_ok[OF ok[rule_format, OF k] c]
      obtain j where j: "?R j = role_of k" using k unfolding in_set_conv_nth roles_def by metis
      show "i < length (txs vm)" "i = 0 \<or> stat ?s i \<noteq> Aborting"
        using own_invD(3)[OF D(2), of j] j C(2) D(1) by auto
      show "clean vm ?m i rs" using cl[OF k] c i record_roles(2)[OF core R] by (auto simp: worker_clean_def)
      show "(l, os) \<in> set rs \<Longrightarrow> origins_ok os" for l os by (rule C(1))
    qed (rule i)
    then show ?thesis using cl[OF k] by (auto simp: worker_clean_def)
  qed
  moreover have "worker_clean vm ?s m' (?R(w := Finishing v new nxt)) k'" by (simp add: k' worker_clean_def)
  ultimately have "\<forall>k \<in> set (ks[w := k']). worker_clean vm ?s m' (?R(w := Finishing v new nxt)) k"
    using set_update_subset_insert[of ks w k'] by blast
  then show ?thesis
    using record_memory_clean[OF core R mem waits conf first rok own rec] waits by (simp add: calm_def sh' R')
qed

lemma live_beneficiary:
  assumes core: "core_inv rv transact vm sh R H" and i: "i < block_size (sh_scheduler sh)" "live (sh_scheduler sh) R i"
  shows "beneficiary_location_hash vm \<in> set (last_write (mv_last (sh_memory sh) ! i))"
proof -
  note hist = core_invD(3)[OF core]
  obtain r where r: "H \<lparr>ver_idx = i, ver_incarnation = inc (sh_scheduler sh) i\<rparr> = Some r"
    "mv_last (sh_memory sh) ! i = \<lparr>last_read = rec_reads r, last_write = map fst (rec_writes r)\<rparr>"
    using hist_invD(7)[OF hist i(1) live_current[OF i(2)]] by blast
  from hist_invD(5)[OF hist r(1)] show ?thesis by (simp add: replayable_def r(2))
qed

text \<open>A conversion concerns a transaction that is validated, so it lies above the unvalidated ones.\<close>

lemma convert_keeps:
  assumes core: "core_inv rv transact vm sh R H" and R: "R w = Converting v"
    and run: "convert_writes_to_estimates (ver_idx v) (sh_memory sh) = Inr m'"
    and t: "t = 0 \<or> unwatched (sh_scheduler sh) R t"
    and rs: "\<And>l os. (l, os) \<in> set rs \<Longrightarrow> origins_ok os" "clean vm (sh_memory sh) t rs"
  shows "clean vm m' t rs"
proof -
  note D = core_invD[OF core]
  have v: "ver_idx v < block_size (sh_scheduler sh)" "min_validation_idx (sh_scheduler sh) \<le> ver_idx v"
    using own_invD(3)[OF D(2), of w] R by simp_all
  then have vl: "ver_idx v < length (mv_last (sh_memory sh))" using hist_invD(2)[OF D(3)] by simp
  have m': "mv_inv m'" "\<And>l j. j \<noteq> ver_idx v \<Longrightarrow> mv_get m' l j = mv_get (sh_memory sh) l j"
    using convert_writes_to_estimates_ok[OF hist_invD(1)[OF D(3)] vl] run by auto
  have "walk m' l t = walk (sh_memory sh) l t" for l
    by (rule walk_cong[OF hist_invD(1)[OF D(3)] m'(1)], rule m'(2)) (use t v(2) in \<open>auto simp: unwatched_def\<close>)
  moreover have "reads_valid x t rs \<longleftrightarrow> (\<forall>(l, os) \<in> set rs. validate_origins (walk x l t) os)" for x
    using rs(1) by (rule reads_valid_walks)
  ultimately show ?thesis using rs(2) by (simp add: clean_def)
qed

lemma calm_convert:
  assumes core: "core_inv rv transact vm sh (roles ks) H" and ok: "\<forall>k \<in> set ks. worker_ok rv transact vm (history_values H) k"
    and calm: "calm vm W sh ks" and w: "w < length ks" "ks ! w = ConvertWrites v"
    and run: "convert_step v sh = Inr (k', sh')"
  shows "calm vm W sh' (ks[w := k'])"
proof -
  let ?s = "sh_scheduler sh" and ?m = "sh_memory sh" and ?R = "roles ks" and ?p = "ver_idx v"
  note D = core_invD[OF core]
  obtain m' where conv: "convert_writes_to_estimates ?p ?m = Inr m'" and sh': "sh_scheduler sh' = ?s" "sh_memory sh' = m'"
    and k': "k' = FinishValidation v True"
    using run by (auto simp: convert_step_def split: sum.splits)
  have R: "?R w = Converting v" using w by (simp add: roles_def)
  have R': "roles (ks[w := k']) = ?R(w := Rescheduling v)" using roles_update[OF w(1)] k' by simp
  have v: "?p < block_size ?s" "min_validation_idx ?s \<le> ?p" using own_invD(3)[OF D(2), of w] R by simp_all
  then have vl: "?p < length (mv_last ?m)" using hist_invD(2)[OF D(3)] by simp
  have m': "mv_last m' = mv_last ?m"
    "\<And>l j. mv_get m' l j = (if j = ?p \<and> l \<in> set (last_write (mv_last ?m ! ?p)) then Some Estimate else mv_get ?m l j)"
    using convert_writes_to_estimates_ok[OF hist_invD(1)[OF D(3)] vl] conv by auto
  have live': "live ?s (?R(w := Rescheduling v)) i \<Longrightarrow> live ?s ?R i"
    and dead: "\<not> live ?s (?R(w := Rescheduling v)) i \<Longrightarrow> i \<noteq> ?p \<Longrightarrow> \<not> live ?s ?R i"
    and u: "unwatched ?s (?R(w := Rescheduling v)) i \<Longrightarrow> unwatched ?s ?R i" for i
    using role_updates(1)[OF own_invD(2)[OF D(2)], of w ?p "Rescheduling v" i] R
      unwatched_update[of ?s ?R w "Rescheduling v" i ?s] by (auto simp: live_def)
  have lp: "live ?s ?R ?p" unfolding live_def some_role_def by (rule disjI2, rule exI[of _ w]) (simp add: R)
  note ben = live_beneficiary[OF core v(1) lp]
  have mem: "memory_clean vm ?s ?m ?R" and cl: "\<And>k. k \<in> set ks \<Longrightarrow> worker_clean vm ?s ?m ?R k"
    using calm by (auto simp: calm_def)
  note keep = convert_keeps[OF core R conv]
  have "memory_clean vm ?s m' (?R(w := Rescheduling v))"
    unfolding memory_clean_def
  proof (intro conjI allI impI)
    fix i assume i: "i < block_size ?s" "\<not> live ?s (?R(w := Rescheduling v)) i"
    then show "mv_get m' (beneficiary_location_hash vm) i = Some Estimate"
      using mem dead[of i] ben by (cases "i = ?p") (auto simp: memory_clean_def m'(2))
  next
    fix i assume i: "i < block_size ?s" "live ?s (?R(w := Rescheduling v)) i" "unwatched ?s (?R(w := Rescheduling v)) i"
    show "clean vm m' i (last_read (mv_last m' ! i))" unfolding m'(1)
      by (intro keep) (use i(1) live'[OF i(2)] u[OF i(3)] mem live_ok(1)[OF core i(1) live'[OF i(2)]] in
          \<open>auto simp: memory_clean_def\<close>)
  qed
  moreover have "worker_clean vm ?s m' (?R(w := Rescheduling v)) k" if "k \<in> set (ks[w := k'])" for k
  proof (cases "k = k'")
    case False
    then have k: "k \<in> set ks" using that set_update_subset_insert[of ks w k'] by blast
    have "clean vm m' i rs" if "carried k = Some (i, rs)" "i = 0 \<or> unwatched ?s (?R(w := Rescheduling v)) i" for i rs
      by (rule keep) (use that u[of i] cl[OF k] carried_ok(1)[OF ok[rule_format, OF k] that(1)] in
          \<open>auto simp: worker_clean_def\<close>)
    then show ?thesis using cl[OF k] by (auto simp: worker_clean_def)
  qed (simp add: k' worker_clean_def)
  ultimately show ?thesis using calm unfolding calm_def sh' R' by blast
qed

section \<open>The system\<close>

lemma calm_frame:
  assumes calm: "calm vm W sh ks" and w: "w < length ks"
    and mem: "sh_memory sh' = sh_memory sh" and fr: "frame (sh_scheduler sh) (roles ks) (sh_scheduler sh') (roles (ks[w := k']))"
    and k': "worker_clean vm (sh_scheduler sh) (sh_memory sh) (roles ks) k'"
  shows "calm vm W sh' (ks[w := k'])"
  unfolding calm_def mem
proof (intro conjI ballI)
  show "waits_inv W (sh_scheduler sh')" using waits_frame[OF _ fr] calm by (simp add: calm_def)
  show "memory_clean vm (sh_scheduler sh') (sh_memory sh) (roles (ks[w := k']))"
    using memory_clean_frame[OF _ fr] calm by (simp add: calm_def)
  fix k assume "k \<in> set (ks[w := k'])"
  then have "k = k' \<or> k \<in> set ks" using set_update_subset_insert[of ks w k'] by blast
  then show "worker_clean vm (sh_scheduler sh') (sh_memory sh) (roles (ks[w := k'])) k"
    using worker_clean_frame[OF _ fr] calm k' by (auto simp: calm_def)
qed

lemma calm_step:
  assumes mach: "machine_ok transact vm" and first: "first_local rv transact vm" and conf: "conflicts_wait vm W"
    and H: "sys_ok rv transact vm s H" and calm: "calm vm W (sys_shared s) (sys_workers s)"
    and step: "sys_step rv transact vm s s'"
  shows "calm vm W (sys_shared s') (sys_workers s')"
proof -
  obtain w k sh where s': "s' = \<lparr>sys_shared = sh, sys_workers = (sys_workers s)[w := k]\<rparr>"
    and w: "w < length (sys_workers s)"
    and run: "worker_step rv transact vm (sys_workers s ! w) (sys_shared s) = Inr (k, sh)"
    using step by (auto elim: sys_stepE)
  have core: "core_inv rv transact vm (sys_shared s) (roles (sys_workers s)) H"
    and ok: "\<forall>k \<in> set (sys_workers s). worker_ok rv transact vm (history_values H) k"
    using H by (auto simp: sys_ok_def)
  have R: "roles (sys_workers s) w = role_of (sys_workers s ! w)" using w by (simp add: roles_def)
  have wf: "vm_wf vm" using mach by (simp add: machine_ok_def)
  have "calm vm W sh ((sys_workers s)[w := k])"
  proof (cases "\<exists>v res reads ws nxt. sys_workers s ! w = Record v res reads ws nxt")
    case True
    then show ?thesis using calm_record[OF core ok calm conf first w] run by auto
  next
    case nr: False
    show ?thesis
    proof (cases "\<exists>v. sys_workers s ! w = ConvertWrites v")
      case True
      then show ?thesis using calm_convert[OF core ok calm w] run by auto
    next
      case nc: False
      have okw: "worker_ok rv transact vm (history_values H) (sys_workers s ! w)"
        and cw: "worker_clean vm (sh_scheduler (sys_shared s)) (sh_memory (sys_shared s)) (roles (sys_workers s)) (sys_workers s ! w)"
        using ok calm w by (auto simp: calm_def)
      note F = step_frame[OF core R okw run] and C = step_worker_clean[OF wf core okw cw run]
      show ?thesis using calm_frame[OF calm w] F C nr nc roles_update[OF w] by auto
    qed
  qed
  then show ?thesis by (simp add: s')
qed

lemma calm_init:
  assumes s0: "initial_scheduler (length (txs vm)) s0"
  shows "calm vm (wait_rel (length (txs vm)) s0) (sys_shared (sys_init vm s0 c)) (sys_workers (sys_init vm s0 c))"
proof -
  have inv: "sched_inv {} s0" and n: "block_size s0 = length (txs vm)"
    and st: "\<And>t. t < length (txs vm) \<Longrightarrow> stat s0 t = ReadyToExecute \<or> stat s0 t = Aborting"
    using s0 by (auto simp: initial_scheduler_def)
  have R: "roles (replicate c NextTask) = (\<lambda>w. Free)" by (auto simp: roles_def fun_eq_iff)
  have "\<not> live s0 (\<lambda>w. Free) i" if "i < length (txs vm)" for i
    using st[OF that] by (auto simp: live_def some_role_def)
  then show ?thesis
    using waits_start[OF inv] n by (auto simp: calm_def sys_init_def Let_def R memory_clean_def mv_new_estimates)
qed

text \<open>The assumptions on the machine and the block, and the states they describe.\<close>

definition block_ok :: "revm \<Rightarrow> read_error transact \<Rightarrow> vm \<Rightarrow> (tx_idx \<times> tx_idx) set \<Rightarrow> bool" where
  "block_ok rv transact vm W \<longleftrightarrow> machine_ok transact vm \<and> first_local rv transact vm \<and> conflicts_wait vm W"

interpretation unvalidated: invariant_system
  "\<lambda>s. block_ok rv transact vm W \<and>
     (\<exists>s0 c. initial_scheduler (length (txs vm)) s0 \<and> W = wait_rel (length (txs vm)) s0 \<and> 0 < c \<and> s = sys_init vm s0 c)"
  "sys_step rv transact vm"
  "\<lambda>s. block_ok rv transact vm W \<and> (\<exists>H. sys_ok rv transact vm s H) \<and> calm vm W (sys_shared s) (sys_workers s)"
  for rv transact vm W
proof unfold_locales
  fix s assume "block_ok rv transact vm W \<and>
     (\<exists>s0 c. initial_scheduler (length (txs vm)) s0 \<and> W = wait_rel (length (txs vm)) s0 \<and> 0 < c \<and> s = sys_init vm s0 c)"
  then show "block_ok rv transact vm W \<and> (\<exists>H. sys_ok rv transact vm s H) \<and> calm vm W (sys_shared s) (sys_workers s)"
    using sys_ok_init calm_init by blast
next
  fix s s' assume inv: "block_ok rv transact vm W \<and> (\<exists>H. sys_ok rv transact vm s H) \<and> calm vm W (sys_shared s) (sys_workers s)"
    and step: "sys_step rv transact vm s s'"
  then obtain H where "sys_ok rv transact vm s H" by blast
  with inv step show "block_ok rv transact vm W \<and> (\<exists>H. sys_ok rv transact vm s' H) \<and> calm vm W (sys_shared s') (sys_workers s')"
    unfolding block_ok_def using sys_ok_step[OF _ _ step] calm_step[OF _ _ _ _ _ step] by blast
qed

lemma reachable_calm:
  assumes "machine_ok transact vm" and "first_local rv transact vm" and "initial_scheduler (length (txs vm)) s0"
    and "conflicts_wait vm (wait_rel (length (txs vm)) s0)" and "0 < c" and "reachable rv transact vm s0 c s"
  obtains H where "sys_ok rv transact vm s H" and "calm vm (wait_rel (length (txs vm)) s0) (sys_shared s) (sys_workers s)"
proof -
  have "block_ok rv transact vm (wait_rel (length (txs vm)) s0)" using assms(1,2,4) by (simp add: block_ok_def)
  with unvalidated.inv_reachable assms(3,5,6) that show ?thesis unfolding reachable_def by blast
qed

text \<open>At the end, what the unvalidated transactions have read is still what a read would find.\<close>

lemma unvalidated_reads:
  assumes ok: "sys_ok rv transact vm s H" and calm: "calm vm W (sys_shared s) (sys_workers s)"
    and fin: "all_stopped s" and err: "execution_error (sys_shared s) = None"
    and j: "j < length (txs vm)" "j < min_validation_idx (sh_scheduler (sys_shared s))"
  shows "reads_now (sh_memory (sys_shared s)) j"
proof -
  have R: "roles (sys_workers s) = (\<lambda>w. Free)"
    using fin nth_mem[of _ "sys_workers s"] by (fastforce simp: roles_def all_stopped_iff fun_eq_iff)
  have n: "block_size (sh_scheduler (sys_shared s)) = length (txs vm)"
    using ok core_invD(1) by (auto simp: sys_ok_def)
  have "live (sh_scheduler (sys_shared s)) (roles (sys_workers s)) j"
    using sys_ok_final(1)[OF ok fin err j(1)] by (simp add: live_def)
  moreover have "unwatched (sh_scheduler (sys_shared s)) (roles (sys_workers s)) j"
    using j(2) by (simp add: unwatched_def R)
  ultimately show ?thesis
    using calm j(1) n by (auto simp: calm_def memory_clean_def clean_def reads_now_def)
qed

end
