(* ===== verification/Waiting.thy ===== *)
theory Waiting
  imports Preprocess Unvalidated
begin

text \<open>
  What the dependencies registered by \<open>preprocess_dependencies\<close> amount to: which transaction waits for
  which, directly or through others. Transactions of one sender wait for each other in the order of
  the block, and a sender waits for the payments it receives when it is paid at most once
  between two of its transactions. For such blocks of plain transfers every conflict between an
  unvalidated read and an earlier write is covered.
\<close>

section \<open>The last transaction of an address\<close>

text \<open>Whom a transaction is from, and whom it pays, as the two maps of the preprocessing see it.\<close>

definition sends :: "tx_env \<Rightarrow> address option" where
  "sends tx = Some (caller tx)"

definition pays :: "tx_env \<Rightarrow> address option" where
  "pays tx = (if tx_value tx > 0 then tx_to tx else None)"

definition latest :: "(tx_env \<Rightarrow> address option) \<Rightarrow> tx_env list \<Rightarrow> nat \<Rightarrow> address \<Rightarrow> tx_idx \<Rightarrow> bool" where
  "latest f ts i a j \<longleftrightarrow> j < i \<and> f (ts ! j) = Some a \<and> (\<forall>k. j < k \<and> k < i \<longrightarrow> f (ts ! k) \<noteq> Some a)"

definition last_ok :: "(tx_env \<Rightarrow> address option) \<Rightarrow> tx_env list \<Rightarrow> nat \<Rightarrow> (address, tx_idx) hashmap \<Rightarrow> bool" where
  "last_ok f ts i m \<longleftrightarrow> (\<forall>a j. hm_get m a = Some j \<longleftrightarrow> latest f ts i a j)"

lemma last_okD: "last_ok f ts i m \<Longrightarrow> latest f ts i a j \<Longrightarrow> hm_get m a = Some j"
  by (simp add: last_ok_def)

lemma latest_Suc:
  "latest f ts (Suc i) a j \<longleftrightarrow> (if f (ts ! i) = Some a then j = i else latest f ts i a j)"
  by (auto simp: latest_def less_Suc_eq)

lemma last_ok_insert: "last_ok f ts i m \<Longrightarrow> f (ts ! i) = Some a \<Longrightarrow> last_ok f ts (Suc i) (hm_insert a i m)"
  by (auto simp: last_ok_def latest_Suc hm_get_insert)

lemma last_ok_skip: "last_ok f ts i m \<Longrightarrow> f (ts ! i) = None \<Longrightarrow> last_ok f ts (Suc i) m"
  by (simp add: last_ok_def latest_Suc)

lemma latest_exists:
  assumes "f (ts ! j) = Some a" and "j < (t :: nat)"
  obtains k where "j \<le> k" and "latest f ts t a k"
proof -
  let ?S = "{k. k < t \<and> f (ts ! k) = Some a}"
  have fin: "finite ?S" "j \<in> ?S" using assms by auto
  define k where "k = Max ?S"
  have k: "j \<le> k" "k \<in> ?S" "\<And>i. i \<in> ?S \<Longrightarrow> i \<le> k"
    unfolding k_def using Max_ge[OF fin(1)] Max_in[of ?S] fin by blast+
  then have "latest f ts t a k" by (fastforce simp: latest_def)
  with k(1) show thesis by (rule that)
qed

section \<open>What is registered\<close>

abbreviation touches :: "address \<Rightarrow> tx_env \<Rightarrow> bool" where
  "touches b tx \<equiv> caller tx = b \<or> transact_to tx = Call b"

text \<open>
  What \<open>t\<close> must wait for: everything since the last transaction of the beneficiary, if it touches
  the beneficiary, else the last transaction of its sender and the last payment to its sender.
\<close>

definition must_wait :: "address \<Rightarrow> tx_env list \<Rightarrow> nat \<Rightarrow> nat \<Rightarrow> bool" where
  "must_wait b ts j t \<longleftrightarrow>
     (if touches b (ts ! t) then j < t \<and> (\<forall>k. j < k \<and> k < t \<longrightarrow> caller (ts ! k) \<noteq> b)
      else latest sends ts t (caller (ts ! t)) j \<or> latest pays ts t (caller (ts ! t)) j)"

definition waits_ok :: "address \<Rightarrow> tx_env list \<Rightarrow> nat \<Rightarrow> tx_idx list list \<Rightarrow> bool" where
  "waits_ok b ts i deps \<longleftrightarrow> (\<forall>t < i. \<forall>j. must_wait b ts j t \<longrightarrow> t \<in> set (deps ! j))"

definition maps_ok :: "tx_env list \<Rightarrow> nat \<Rightarrow> preprocess \<Rightarrow> bool" where
  "maps_ok ts i pp \<longleftrightarrow> last_ok sends ts i (last_tx_idx_by_sender pp) \<and> last_ok pays ts i (last_tx_idx_by_recipient pp)"

lemma must_wait_below: "must_wait b ts j t \<Longrightarrow> j < t"
  by (auto simp: must_wait_def latest_def split: if_splits)

lemma must_wait_registered:
  assumes ok: "maps_ok ts i pp" and wait: "must_wait b ts j i"
  shows "j \<in> set (tx_dependencies b i (ts ! i) pp)"
proof (cases "touches b (ts ! i)")
  case True
  then have j: "j < i" "\<forall>k. j < k \<and> k < i \<longrightarrow> caller (ts ! k) \<noteq> b" using wait by (auto simp: must_wait_def)
  have "s \<le> j" if "hm_get (last_tx_idx_by_sender pp) b = Some s" for s
  proof -
    have "latest sends ts i b s" using ok that by (simp add: maps_ok_def last_ok_def)
    then have "s < i" "caller (ts ! s) = b" by (simp_all add: latest_def sends_def)
    then show ?thesis using j(2) leI by blast
  qed
  then show ?thesis using True j(1) by (auto simp: tx_dependencies_def split: option.splits)
next
  case False
  then show ?thesis
    using must_wait_below[OF wait] wait ok
    by (auto simp: must_wait_def tx_dependencies_def Let_def maps_ok_def last_okD split: option.split dest!: last_okD)
qed

lemma register_dependency_waits:
  assumes ok: "pp_ok n i pp" and i: "i < n" and reg: "register_dependency i ds pp = Inr pp'"
    and ds: "\<forall>d \<in> set ds. d < i"
  shows "last_tx_idx_by_sender pp' = last_tx_idx_by_sender pp"
    and "last_tx_idx_by_recipient pp' = last_tx_idx_by_recipient pp"
    and "j < n \<Longrightarrow> set (pp_dependents pp' ! j) = set (pp_dependents pp ! j) \<union> (if j \<in> set ds then {i} else {})"
proof -
  have len: "length (pp_dependents pp) = n" using pp_okD(2)[OF ok] .
  obtain deps where deps: "push_dependents i ds (pp_dependents pp) = Inr deps"
    "\<forall>j < n. set (deps ! j) = set (pp_dependents pp ! j) \<union> (if j \<in> set ds then {i} else {})"
    using push_dependents_ok[of ds "pp_dependents pp" i] ds i len by fastforce
  then have "pp_dependents pp' = deps" and maps: "last_tx_idx_by_sender pp' = last_tx_idx_by_sender pp"
    "last_tx_idx_by_recipient pp' = last_tx_idx_by_recipient pp"
    using reg by (auto simp: register_dependency_def split: sum.splits)
  then show "j < n \<Longrightarrow> set (pp_dependents pp' ! j) = set (pp_dependents pp ! j) \<union> (if j \<in> set ds then {i} else {})"
    using deps(2) by auto
  show "last_tx_idx_by_sender pp' = last_tx_idx_by_sender pp"
    "last_tx_idx_by_recipient pp' = last_tx_idx_by_recipient pp" by (fact maps)+
qed

lemma preprocess_tx_waits:
  assumes ok: "pp_ok n i pp" and i: "i < n" and run: "preprocess_tx b n i (ts ! i) pp = Inr (Some pp')"
    and s: "maps_ok ts i pp" and w: "waits_ok b ts i (pp_dependents pp)"
  shows "maps_ok ts (Suc i) pp'" and "waits_ok b ts (Suc i) (pp_dependents pp')"
proof -
  let ?ds = "tx_dependencies b i (ts ! i) pp"
  obtain pp1 where pp1: "(if ?ds = [] then Inr pp else register_dependency i ?ds pp) = Inr pp1"
    using run by (auto simp: preprocess_tx_def Let_def split: sum.splits)
  have p1: "last_tx_idx_by_sender pp1 = last_tx_idx_by_sender pp" "last_tx_idx_by_recipient pp1 = last_tx_idx_by_recipient pp"
    "j < n \<Longrightarrow> set (pp_dependents pp1 ! j) = set (pp_dependents pp ! j) \<union> (if j \<in> set ?ds then {i} else {})" for j
    using pp1 register_dependency_waits[OF ok i, of ?ds pp1] tx_dependencies_below[OF ok, of _ b "ts ! i"]
    by (auto split: if_splits)
  have p': "last_tx_idx_by_sender pp' = hm_insert (caller (ts ! i)) i (last_tx_idx_by_sender pp)"
    "last_tx_idx_by_recipient pp' =
       (case pays (ts ! i) of Some a \<Rightarrow> hm_insert a i (last_tx_idx_by_recipient pp) | None \<Rightarrow> last_tx_idx_by_recipient pp)"
    "pp_dependents pp' = pp_dependents pp1"
    using run p1(1,2) unfolding preprocess_tx_def Let_def pp1
    by (auto simp: pays_def tx_to_def split: if_splits transact_to.splits)
  show "maps_ok ts (Suc i) pp'"
    using s last_ok_insert last_ok_skip by (auto simp: maps_ok_def p' sends_def split: option.splits)
  have "t \<in> set (pp_dependents pp1 ! j)" if "t < Suc i" "must_wait b ts j t" for t j
  proof -
    have "j < n" using that i must_wait_below[OF that(2)] by simp
    then show ?thesis using that w must_wait_registered[OF s] p1(3)[of j]
      by (cases "t = i") (auto simp: waits_ok_def less_Suc_eq)
  qed
  then show "waits_ok b ts (Suc i) (pp_dependents pp')" using p'(3) by (auto simp: waits_ok_def)
qed

lemma preprocess_loop_waits:
  assumes "pp_ok n i pp" and "i + length us = n" and "drop i ts = us" and "length ts = n"
    and "maps_ok ts i pp" and "waits_ok b ts i (pp_dependents pp)"
    and "preprocess_loop b n i us pp = Inr (Some pp')"
  shows "waits_ok b ts n (pp_dependents pp')"
  using assms
proof (induction us arbitrary: i pp)
  case Nil
  then show ?case by simp
next
  case (Cons tx us)
  have i: "i < n" using Cons.prems by simp
  have tx: "tx = ts ! i" using Cons.prems(3,4) i by (metis Cons_nth_drop_Suc list.inject)
  obtain pp1 where pp1: "preprocess_tx b n i tx pp = Inr (Some pp1)" "preprocess_loop b n (i + 1) us pp1 = Inr (Some pp')"
    using Cons.prems(7) by (auto split: sum.splits option.splits)
  have "pp_ok n (i + 1) pp1" using preprocess_tx_ok[OF Cons.prems(1) i, of b tx] pp1(1) by auto
  moreover have "drop (i + 1) ts = us" using Cons.prems(3) by (metis drop_Suc drop_tl list.sel(3) Suc_eq_plus1)
  ultimately show ?case
    using Cons.IH[of "i + 1" pp1] Cons.prems(2,4) pp1
      preprocess_tx_waits[OF Cons.prems(1) i pp1(1)[unfolded tx] Cons.prems(5,6)] by simp
qed

lemma preprocess_waits:
  assumes "preprocess_dependencies b ts = Inr (Some (s0, limit))"
  shows "waits_ok b ts (length ts) (transactions_dependents s0)"
proof -
  let ?n = "length ts"
  obtain pp where pp: "preprocess_loop b ?n 0 ts (preprocess_init ?n) = Inr (Some pp)"
    "transactions_dependents s0 = pp_dependents pp"
    using assms by (auto simp: preprocess_dependencies_def Let_def map_sum_def scheduler_new_def split: sum.splits)
  have "maps_ok ts 0 (preprocess_init ?n)" "waits_ok b ts 0 (pp_dependents (preprocess_init ?n))"
    by (simp_all add: maps_ok_def last_ok_def latest_def waits_ok_def preprocess_init_def)
  from preprocess_loop_waits[OF pp_ok_init _ _ refl this pp(1)] show ?thesis by (simp add: pp(2))
qed

section \<open>Waiting through others\<close>

lemma beneficiary_waits:
  assumes w: "waits_ok b ts n (transactions_dependents s)" and "j < t" "t < n" "touches b (ts ! t)"
  shows "(j, t) \<in> (wait_rel n s)\<^sup>+"
  using assms(2-)
proof (induction t rule: less_induct)
  case (less t)
  have direct: "(k, t) \<in> wait_rel n s" if "k < t" "\<forall>i. k < i \<and> i < t \<longrightarrow> caller (ts ! i) \<noteq> b" for k
    using w that less.prems by (auto simp: wait_rel_def waits_ok_def must_wait_def)
  show ?case
  proof (cases "\<exists>k. j < k \<and> k < t \<and> caller (ts ! k) = b")
    case False
    then show ?thesis using direct[of j] less.prems by auto
  next
    case True
    then obtain k0 where "j < k0" "k0 < t" "sends (ts ! k0) = Some b" by (auto simp: sends_def)
    then obtain k where k: "j < k" "latest sends ts t b k" by (meson latest_exists less_le_trans)
    then have "(j, k) \<in> (wait_rel n s)\<^sup>+" using less.IH[of k] less.prems by (simp add: latest_def sends_def)
    moreover have "(k, t) \<in> wait_rel n s" by (rule direct) (use k(2) in \<open>auto simp: latest_def sends_def\<close>)
    ultimately show ?thesis by (rule trancl_into_trancl)
  qed
qed

text \<open>The last transaction of the sender, and the last payment to it, come first.\<close>

lemma latest_waits:
  assumes "waits_ok b ts n (transactions_dependents s)" and "t < n"
    and "latest sends ts t (caller (ts ! t)) k \<or> latest pays ts t (caller (ts ! t)) k"
  shows "(k, t) \<in> (wait_rel n s)\<^sup>+"
proof (cases "touches b (ts ! t)")
  case True
  then show ?thesis using beneficiary_waits[OF assms(1) _ assms(2)] assms(3) by (auto simp: latest_def)
next
  case False
  then have "must_wait b ts k t" using assms(3) by (simp add: must_wait_def)
  then show ?thesis using assms(1,2) must_wait_below[of b ts k t] by (intro r_into_trancl) (auto simp: wait_rel_def waits_ok_def)
qed

lemma sender_waits:
  assumes w: "waits_ok b ts n (transactions_dependents s)" and "j < t" and "t < n" and "caller (ts ! j) = caller (ts ! t)"
  shows "(j, t) \<in> (wait_rel n s)\<^sup>+"
  using assms(2-)
proof (induction t rule: less_induct)
  case (less t)
  obtain k where k: "j \<le> k" "latest sends ts t (caller (ts ! t)) k"
    by (rule latest_exists[of sends ts j "caller (ts ! t)" t]) (use less.prems in \<open>auto simp: sends_def\<close>)
  have kt: "(k, t) \<in> (wait_rel n s)\<^sup>+" using latest_waits[OF w less.prems(2)] k(2) by blast
  show ?case
  proof (cases "j = k")
    case False
    then have "(j, k) \<in> (wait_rel n s)\<^sup>+"
      using less.IH[of k] less.prems k by (simp add: latest_def sends_def)
    then show ?thesis using kt by (rule trancl_trans)
  qed (use kt in simp)
qed

text \<open>Between two payments to a sender, and before its transaction, it has another transaction.\<close>

definition paid_once :: "tx_env list \<Rightarrow> bool" where
  "paid_once ts \<longleftrightarrow> (\<forall>t < length ts. \<forall>q < t. \<forall>p < q.
     pays (ts ! p) = Some (caller (ts ! t)) \<and> pays (ts ! q) = Some (caller (ts ! t)) \<longrightarrow>
     (\<exists>k \<in> {p<..<t}. caller (ts ! k) = caller (ts ! t)))"

lemma payment_waits:
  assumes w: "waits_ok b ts (length ts) (transactions_dependents s)" and once: "paid_once ts"
    and "p < t" and "t < length ts" and "pays (ts ! p) = Some (caller (ts ! t))"
  shows "(p, t) \<in> (wait_rel (length ts) s)\<^sup>+"
  using assms(3-)
proof (induction t rule: less_induct)
  case (less t)
  obtain q where q: "p \<le> q" "latest pays ts t (caller (ts ! t)) q"
    by (rule latest_exists[of pays ts p, OF less.prems(3,1)])
  show ?case
  proof (cases "p = q")
    case True
    then show ?thesis using latest_waits[OF w less.prems(2)] q(2) by blast
  next
    case False
    then obtain k where k: "p < k" "k < t" "caller (ts ! k) = caller (ts ! t)"
      using once q less.prems unfolding paid_once_def latest_def by (metis greaterThanLessThan_iff le_neq_implies_less)
    have "(p, k) \<in> (wait_rel (length ts) s)\<^sup>+" using less.IH[of k] less.prems k by simp
    then show ?thesis using sender_waits[OF w k(2) less.prems(2) k(3)] by (rule trancl_trans)
  qed
qed

section \<open>Blocks of plain transfers\<close>

text \<open>
  Every transaction pays a positive value to another account, not a contract in the storage; no
  account is paid twice before it sends; and the locations of the addresses differ.
\<close>

definition plain_transfers :: "vm \<Rightarrow> bool" where
  "plain_transfers vm \<longleftrightarrow>
     (\<forall>tx \<in> set (txs vm). maybe_lazy (vm_storage vm) tx = Inr True \<and> tx_value tx > 0) \<and> paid_once (txs vm) \<and>
     inj_on (vm_get_address_hash vm) (\<Union>tx \<in> set (txs vm). insert (caller tx) (set_option (tx_to tx)))"

lemma plain_transfers_covered:
  assumes plain: "plain_transfers vm" and w: "waits_ok b (txs vm) (length (txs vm)) (transactions_dependents s)"
  shows "conflicts_wait vm (wait_rel (length (txs vm)) s)"
  unfolding conflicts_wait_def
proof (intro allI impI disjCI)
  fix t p assume t: "t < length (txs vm)" "p < t" and nw: "(p, t) \<notin> (wait_rel (length (txs vm)) s)\<^sup>+"
  let ?p = "txs vm ! p" and ?t = "txs vm ! t"
  have mem: "?p \<in> set (txs vm)" "?t \<in> set (txs vm)" using t by simp_all
  have "caller ?p \<noteq> caller ?t" using sender_waits[OF w t(2,1)] nw by blast
  moreover have "tx_to ?p \<noteq> Some (caller ?t)"
    using payment_waits[OF w _ t(2,1)] nw plain mem(1) by (auto simp: plain_transfers_def pays_def)
  moreover have "read_points vm ?t = {vm_get_address_hash vm (caller ?t)}"
    using plain mem(2) by (simp add: plain_transfers_def read_points_def)
  moreover have "vm_get_address_hash vm a \<noteq> vm_get_address_hash vm (caller ?t)"
    if "a \<in> insert (caller ?p) (set_option (tx_to ?p))" "a \<noteq> caller ?t" for a
    using plain that mem unfolding plain_transfers_def inj_on_def by blast
  ultimately show "endpoints vm ?p \<inter> read_points vm ?t \<subseteq> {beneficiary_location_hash vm}"
    unfolding endpoints_def by (cases "tx_to ?p") auto
qed

end
