(* ===== verification/Scheduler_Props.thy ===== *)
theory Scheduler_Props
  imports Scheduler_Inv
begin

text \<open>
  What the scheduler promises its callers, method by method, and the exit condition of the
  worker loop. A small block serves as the concrete instance of each statement.
\<close>

section \<open>A concrete scheduler\<close>

definition small_sched :: "incarnation_status \<Rightarrow> nat \<Rightarrow> nat \<Rightarrow> nat \<Rightarrow> scheduler" where
  "small_sched st exec val m =
     \<lparr>execution_idx = exec, validation_idx = val,
      transactions_status = [\<lparr>incarnation = 0, status = st\<rparr>, \<lparr>incarnation = 0, status = Aborting\<rparr>],
      block_size = 2, min_validation_idx = m, num_validated = (if st = Validated then 1 else 0),
      transactions_dependents = [if is_done st then [] else [1], []],
      transactions_dependencies_num = [(1, if is_done st then 0 else 1)]\<rparr>"

lemma lt_two: "(t::nat) < 2 \<longleftrightarrow> t = 0 \<or> t = 1"
  by auto

lemma small_sched_inv:
  assumes "\<not> is_done st" "st \<noteq> Aborting" "m \<le> val" "m \<le> 2" "st = ReadyToExecute \<longrightarrow> exec = 0"
  shows "sched_inv {} (small_sched st exec val m)"
  unfolding sched_inv_def
proof
  have pend: "pending (small_sched st exec val m) t = (if t = 1 then 1 else 0)" for t
    using assms(1) by (auto simp: pending_def small_sched_def)
  show "sched_base {} (small_sched st exec val m)"
  proof (rule sched_baseI)
    show "deps_ok (pending (small_sched st exec val m)) (small_sched st exec val m)"
      using assms(1) unfolding deps_ok_def pend by (auto simp: small_sched_def)
  qed (use assms in \<open>auto simp: pending_def sizes_ok_def blockers_ok_def validated_count_def small_sched_def lt_two\<close>)
  show "ready_ok {} (small_sched st exec val m)"
    using assms by (auto simp: ready_ok_def small_sched_def lt_two)
qed

section \<open>The methods\<close>

text \<open>The search of \<open>try_execute\<close>, from the transaction the counter has just been moved past.\<close>

lemma try_execute_search:
  assumes "length (transactions_status s) = block_size s" and "execution_idx s = Suc tx"
  shows "(\<exists>t. tx \<le> t \<and> t < block_size s \<and> stat s t = ReadyToExecute \<and> (\<forall>k. tx \<le> k \<and> k < t \<longrightarrow> stat s k \<noteq> ReadyToExecute) \<and>
      try_execute tx s = Inr (Some \<lparr>ver_idx = t, ver_incarnation = inc s t\<rparr>,
        set_status t Executing (s\<lparr>execution_idx := Suc t\<rparr>))) \<or>
    ((\<forall>t. tx \<le> t \<and> t < block_size s \<longrightarrow> stat s t \<noteq> ReadyToExecute) \<and>
      try_execute tx s = Inr (None, s\<lparr>execution_idx := Suc (max tx (block_size s))\<rparr>))"
  using assms
proof (induction tx s rule: try_execute.induct)
  case (1 tx s)
  have same: "s\<lparr>execution_idx := Suc tx\<rparr> = s" using "1.prems"(2) by simp
  show ?case
  proof (cases "tx < block_size s \<and> stat s tx \<noteq> ReadyToExecute")
    case False
    then show ?thesis using "1.prems" by (auto simp: try_execute.simps[of tx s] max_def same)
  next
    case True
    then have step: "try_execute tx s = try_execute (Suc tx) (s\<lparr>execution_idx := Suc (Suc tx)\<rparr>)"
      using "1.prems" by (simp add: try_execute.simps[of tx s])
    have max: "max (Suc tx) (block_size s) = max tx (block_size s)" using True by simp
    have low: "tx \<le> k \<longleftrightarrow> k = tx \<or> Suc tx \<le> k" for k by auto
    show ?thesis
      using "1.IH"[of "transactions_status s ! tx"] True "1.prems"
      unfolding step low by (auto simp: max)
  qed
qed

lemma counter_moved:
  "s\<lparr>execution_idx := e\<rparr> = s \<longleftrightarrow> execution_idx s = e" "s\<lparr>validation_idx := e\<rparr> = s \<longleftrightarrow> validation_idx s = e"
  by (cases s, auto)+

text \<open>The lowest transaction of the block that is ready.\<close>

definition lowest_ready :: "scheduler \<Rightarrow> tx_idx \<Rightarrow> bool" where
  "lowest_ready s t \<longleftrightarrow> t < block_size s \<and> stat s t = ReadyToExecute \<and> (\<forall>k < t. stat s k \<noteq> ReadyToExecute)"

lemma execution_round:
  assumes inv: "sched_inv A s" and exec: "execution_idx s \<le> validation_idx s" "execution_idx s < block_size s"
  shows "(\<exists>t. (\<forall>u. lowest_ready s u \<longleftrightarrow> u = t) \<and> next_task_iter s =
      Inr (Return (Execution \<lparr>ver_idx = t, ver_incarnation = inc s t\<rparr>), set_status t Executing (s\<lparr>execution_idx := Suc t\<rparr>))) \<or>
    (\<forall>u. \<not> lowest_ready s u) \<and>
      next_task_iter s = Inr (Continue, s\<lparr>execution_idx := Suc (max (execution_idx s) (block_size s))\<rparr>)"
proof -
  let ?n = "block_size s" and ?e = "execution_idx s"
  let ?s = "s\<lparr>execution_idx := Suc ?e\<rparr>"
  have above: "t < ?n \<Longrightarrow> stat s t = ReadyToExecute \<Longrightarrow> ?e \<le> t" for t
    using inv by (auto simp: sched_inv_def ready_ok_def)
  have below: "(\<forall>k. ?e \<le> k \<and> k < t \<longrightarrow> stat s k \<noteq> ReadyToExecute) \<longleftrightarrow> (\<forall>k < t. stat s k \<noteq> ReadyToExecute)" if "t \<le> ?n" for t
    using that above by (meson less_le_trans)
  have iter: "next_task_iter s = (case try_execute ?e ?s of Inl p \<Rightarrow> Inl p
      | Inr (Some v, s') \<Rightarrow> Inr (Return (Execution v), s') | Inr (None, s') \<Rightarrow> Inr (Continue, s'))"
    using exec by (simp add: next_task_iter_def)
  from try_execute_search[of ?s ?e] base_lengths(1)[OF inv_base[OF inv]]
  consider (found) t where "t < ?n" "stat s t = ReadyToExecute" "\<forall>k. ?e \<le> k \<and> k < t \<longrightarrow> stat s k \<noteq> ReadyToExecute"
      "try_execute ?e ?s = Inr (Some \<lparr>ver_idx = t, ver_incarnation = inc s t\<rparr>, set_status t Executing (s\<lparr>execution_idx := Suc t\<rparr>))"
    | (none) "\<forall>k. ?e \<le> k \<and> k < ?n \<longrightarrow> stat s k \<noteq> ReadyToExecute"
      "try_execute ?e ?s = Inr (None, s\<lparr>execution_idx := Suc (max ?e ?n)\<rparr>)" by auto
  then show ?thesis
  proof cases
    case found
    then have "lowest_ready s t" using below[of t] by (simp add: lowest_ready_def)
    moreover have "lowest_ready s u \<Longrightarrow> u = t" for u
      using calculation by (metis linorder_neqE_nat lowest_ready_def)
    ultimately have "\<forall>u. lowest_ready s u \<longleftrightarrow> u = t" by blast
    then show ?thesis using iter found(4) by auto
  next
    case none
    then show ?thesis using below[of ?n] iter by (auto simp: lowest_ready_def)
  qed
qed

text \<open>
  C20. A round of \<open>next_task\<close> on a consistent scheduler never panics, keeps it consistent, and answers
  as follows. It breaks out of the loop exactly when both counters have passed the block and
  the whole tail from \<open>min_validation_idx\<close> is counted as validated. It hands out a validation exactly when the
  validation counter is behind the execution counter at an executed transaction, which it names
  at its present incarnation, and moves that counter past it. It hands out an execution exactly when the
  validation counter is not behind and a transaction is ready: the lowest one, which becomes executing. Any other
  round skips only transactions that are not executed, and moves a counter unless both have passed the block.
\<close>

theorem next_task_round:
  assumes "sched_inv A s"
  shows "\<exists>r s'. next_task_iter s = Inr (r, s') \<and> sched_inv A s' \<and>
    (r = Break \<longleftrightarrow> block_size s \<le> execution_idx s \<and> block_size s \<le> validation_idx s \<and>
       block_size s - min_validation_idx s \<le> num_validated s) \<and>
    (\<forall>v. r = Return (Validation v) \<longleftrightarrow> validation_idx s < execution_idx s \<and> validation_idx s < block_size s \<and>
       is_done (stat s (validation_idx s)) \<and> v = \<lparr>ver_idx = validation_idx s, ver_incarnation = inc s (validation_idx s)\<rparr>) \<and>
    (\<forall>v. r = Return (Execution v) \<longleftrightarrow> execution_idx s \<le> validation_idx s \<and>
       lowest_ready s (ver_idx v) \<and> ver_incarnation v = inc s (ver_idx v)) \<and>
    (case r of
       Break \<Rightarrow> s' = s
     | Continue \<Rightarrow> skipped s s' \<and> (s' = s \<longleftrightarrow> block_size s \<le> execution_idx s \<and> block_size s \<le> validation_idx s)
     | Return (Execution v) \<Rightarrow> s' = set_status (ver_idx v) Executing (s\<lparr>execution_idx := ver_idx v + 1\<rparr>)
     | Return (Validation v) \<Rightarrow> claimed s v s')"
proof -
  let ?n = "block_size s" and ?e = "execution_idx s" and ?v = "validation_idx s"
  have len: "length (transactions_status s) = ?n" by (rule base_lengths(1)[OF inv_base[OF assms]])
  have above: "t < ?n \<Longrightarrow> stat s t = ReadyToExecute \<Longrightarrow> ?e \<le> t" for t
    using assms by (auto simp: sched_inv_def ready_ok_def)
  obtain r s' where ok: "next_task_iter s = Inr (r, s')" "sched_inv A s'"
    "case r of
       Break \<Rightarrow> s' = s \<and> ?n \<le> ?e \<and> ?n \<le> ?v \<and> ?n - min_validation_idx s \<le> num_validated s
     | Continue \<Rightarrow> skipped s s' | Return (Execution v) \<Rightarrow> picked s v s' | Return (Validation v) \<Rightarrow> claimed s v s'"
    using next_task_iter_ok[OF assms] by blast
  consider (spin) "?n \<le> ?e" "?n \<le> ?v" | (val) "?v < ?e" "?v < ?n" | (exec) "?e \<le> ?v" "?e < ?n" by linarith
  then show ?thesis
  proof cases
    case spin
    have "\<not> lowest_ready s t" for t using above[of t] spin(1) by (auto simp: lowest_ready_def)
    then show ?thesis using ok spin by (auto simp: next_task_iter_def split: if_splits)
  next
    case val
    then have "if is_done (stat s ?v) then r = Return (Validation \<lparr>ver_idx = ?v, ver_incarnation = inc s ?v\<rparr>)
        else r = Continue \<and> s' = s\<lparr>validation_idx := ?v + 1\<rparr>"
      using ok(1) len by (auto simp: next_task_iter_def sched_try_validate_def Let_def split: if_splits)
    moreover have "s\<lparr>validation_idx := ?v + 1\<rparr> \<noteq> s" by (simp add: counter_moved)
    ultimately show ?thesis using ok val by (auto split: if_splits)
  next
    case exec
    from execution_round[OF assms exec]
    consider (found) t where "\<And>u. lowest_ready s u \<longleftrightarrow> u = t" "next_task_iter s =
        Inr (Return (Execution \<lparr>ver_idx = t, ver_incarnation = inc s t\<rparr>), set_status t Executing (s\<lparr>execution_idx := Suc t\<rparr>))"
      | (none) "\<And>u. \<not> lowest_ready s u" "next_task_iter s = Inr (Continue, s\<lparr>execution_idx := Suc (max ?e ?n)\<rparr>)"
      by blast
    then show ?thesis
    proof cases
      case found
      show ?thesis using ok exec found(2) by (auto simp: found(1))
    next
      case none
      have "s\<lparr>execution_idx := Suc (max ?e ?n)\<rparr> \<noteq> s" by (simp add: counter_moved)
      then show ?thesis using ok exec none(2) by (auto simp: none(1))
    qed
  qed
qed

theorem next_task_round_witness:
  "\<exists>s'. next_task_iter (small_sched ReadyToExecute 0 2 2)
     = Inr (Return (Execution \<lparr>ver_idx = 0, ver_incarnation = 0\<rparr>), s') \<and> sched_inv {} s'"
proof -
  have run: "next_task_iter (small_sched ReadyToExecute 0 2 2)
     = Inr (Return (Execution \<lparr>ver_idx = 0, ver_incarnation = 0\<rparr>), small_sched Executing 1 2 2)"
    by code_simp
  have "sched_inv {} (small_sched ReadyToExecute 0 2 2)" by (rule small_sched_inv) simp_all
  from next_task_round[OF this] obtain r s' where "next_task_iter (small_sched ReadyToExecute 0 2 2) = Inr (r, s')" "sched_inv {} s'"
    by blast
  then show ?thesis unfolding run by blast
qed

text \<open>
  C21. \<open>finish_execution\<close> by the worker that executes the transaction never panics and keeps the
  scheduler consistent. The transaction becomes executed. Exactly the transactions that waited for
  it and for nothing else become ready, with their incarnation raised by one, and the execution
  counter is lowered to reach them. Nothing else changes its status. If the transaction is at or
  above the new \<open>min_validation_idx\<close>, it is handed back for validation or the validation
  counter will still reach it; if it wrote to a new location, the counter will also reach
  every higher transaction that is subject to validation.
\<close>

theorem finish_execution_effect:
  assumes "sched_inv A s" and "ver_idx v < block_size s" and "stat s (ver_idx v) = Executing"
  shows "\<exists>r s'. finish_execution v wrote_new nxt s = Inr (r, s') \<and> sched_inv A s' \<and>
    stat s' (ver_idx v) = Executed \<and> inc s' (ver_idx v) = inc s (ver_idx v) \<and>
    (\<forall>t. t \<noteq> ver_idx v \<longrightarrow>
       (if resumed (ver_idx v) s t
        then stat s' t = ReadyToExecute \<and> inc s' t = inc s t + 1 \<and> execution_idx s' \<le> t
        else stat s' t = stat s t \<and> inc s' t = inc s t)) \<and>
    min_validation_idx s' = lowered_min nxt s \<and>
    (min_validation_idx s' \<le> ver_idx v \<longrightarrow>
       r = Some (Validation v) \<or> validation_idx s' \<le> ver_idx v) \<and>
    (wrote_new \<longrightarrow> (\<forall>k. ver_idx v < k \<and> k < block_size s \<and> min_validation_idx s' \<le> k \<longrightarrow>
       validation_idx s' \<le> k))"
proof -
  obtain s1 where s1: "resume_effect (ver_idx v) s s1" "sched_inv A s1"
    "finish_execution v wrote_new nxt s = Inr (schedule_validation v wrote_new nxt s1)"
    using finish_execution_resume[OF assms] by blast
  obtain r s' where run: "schedule_validation v wrote_new nxt s1 = (r, s')" by fastforce
  note E = resume_effectD[OF s1(1)] and V = schedule_validation_ok[OF s1(2) run]
  have "lowered_min nxt s1 = lowered_min nxt s" by (simp add: lowered_min_def E(3) split: option.splits)
  then show ?thesis
    using s1(3) run V E assms(2)
    by (intro exI[of _ r] exI[of _ s']) (auto simp: V(2,5,6))
qed

theorem finish_execution_effect_witness:
  "\<exists>r s'. finish_execution \<lparr>ver_idx = 0, ver_incarnation = 0\<rparr> True (Some 1) (small_sched Executing 1 2 2)
      = Inr (r, s') \<and> stat s' 0 = Executed \<and> stat s' 1 = ReadyToExecute \<and> inc s' 1 = 1 \<and>
    execution_idx s' \<le> 1 \<and> validation_idx s' \<le> 1"
proof -
  have res: "resumed 0 (small_sched Executing 1 2 2) 1"
    by (simp add: resumed_def pending_def small_sched_def)
  have inv: "sched_inv {} (small_sched Executing 1 2 2)" by (rule small_sched_inv) auto
  have f: "block_size (small_sched Executing 1 2 2) = 2" "stat (small_sched Executing 1 2 2) 0 = Executing"
    "inc (small_sched Executing 1 2 2) 1 = 0" "lowered_min (Some 1) (small_sched Executing 1 2 2) = 1"
    by (simp_all add: small_sched_def lowered_min_def)
  let ?v = "\<lparr>ver_idx = 0, ver_incarnation = 0\<rparr>"
  obtain r s' where r: "finish_execution ?v True (Some 1) (small_sched Executing 1 2 2) = Inr (r, s')"
    "stat s' 0 = Executed" "min_validation_idx s' = 1"
    "\<forall>t. t \<noteq> 0 \<longrightarrow> (if resumed 0 (small_sched Executing 1 2 2) t
        then stat s' t = ReadyToExecute \<and> inc s' t = inc (small_sched Executing 1 2 2) t + 1 \<and> execution_idx s' \<le> t
        else stat s' t = stat (small_sched Executing 1 2 2) t \<and>
             inc s' t = inc (small_sched Executing 1 2 2) t)"
    "\<forall>k. 0 < k \<and> k < 2 \<and> min_validation_idx s' \<le> k \<longrightarrow> validation_idx s' \<le> k"
    using finish_execution_effect[OF inv, of ?v True "Some 1"] f by auto
  from r(4)[rule_format, of 1] r(5)[rule_format, of 1] res f(3) r(1-3) show ?thesis by auto
qed

text \<open>
  C22. \<open>add_dependency\<close> by the worker that executes \<open>t\<close>, on a lower transaction \<open>j\<close>, never panics and
  keeps the scheduler consistent. It answers \<open>false\<close> and changes nothing exactly if \<open>j\<close> has been
  executed by now; otherwise \<open>t\<close> becomes aborting and waits in at least one dependents list.
\<close>

theorem add_dependency_effect:
  assumes "sched_inv A s" and "j < t" and "t < block_size s" and "stat s t = Executing"
  shows "\<exists>b s'. add_dependency t j s = Inr (b, s') \<and> sched_inv A s' \<and>
    (b \<longleftrightarrow> \<not> is_done (stat s j)) \<and> (\<not> b \<longrightarrow> s' = s) \<and>
    (b \<longrightarrow> transactions_status s' = transactions_status (set_status t Aborting s) \<and> 0 < pending s' t)"
  using add_dependency_ok[OF assms] by blast

definition executing_pair :: "incarnation_status \<Rightarrow> scheduler" where
  "executing_pair st =
     \<lparr>execution_idx = 2, validation_idx = 2,
      transactions_status = [\<lparr>incarnation = 0, status = st\<rparr>, \<lparr>incarnation = 0, status = Executing\<rparr>],
      block_size = 2, min_validation_idx = 0, num_validated = (if st = Validated then 1 else 0),
      transactions_dependents = [[], []], transactions_dependencies_num = []\<rparr>"

lemma executing_pair_inv:
  assumes "st \<noteq> Aborting" "st \<noteq> ReadyToExecute"
  shows "sched_inv {} (executing_pair st)"
  unfolding sched_inv_def
proof
  show "sched_base {} (executing_pair st)"
    by (rule sched_baseI) (use assms in \<open>auto simp: pending_def sizes_ok_def deps_ok_def blockers_ok_def
        validated_count_def executing_pair_def lt_two\<close>)
  show "ready_ok {} (executing_pair st)" using assms by (auto simp: ready_ok_def executing_pair_def lt_two)
qed

theorem add_dependency_effect_witness:
  "\<exists>s'. add_dependency 1 0 (executing_pair Executing) = Inr (True, s') \<and> stat s' 1 = Aborting \<and>
     0 < pending s' 1"
proof -
  let ?s = "executing_pair Executing"
  have f: "stat ?s 0 = Executing" "stat ?s 1 = Executing" "1 < block_size ?s"
    "1 < length (transactions_status ?s)" by (simp_all add: executing_pair_def)
  have inv: "sched_inv {} ?s" by (rule executing_pair_inv) auto
  obtain s' where "add_dependency 1 0 ?s = Inr (True, s')" "0 < pending s' 1"
    "transactions_status s' = transactions_status (set_status 1 Aborting ?s)"
    using add_dependency_effect[OF inv _ f(3,2), of 0] f(1) by force
  then show ?thesis using stat_set_status[OF f(4), of Aborting 1] by auto
qed

text \<open>
  C23. Aborting after a failed validation. \<open>try_validation_abort\<close> succeeds exactly if the
  transaction is executed or validated; then it becomes aborting, and the following
  \<open>finish_validation\<close> raises its incarnation, makes it ready or hands its next incarnation to this worker,
  and lowers the validation counter so that every higher transaction is validated again.
\<close>

theorem abort_and_reschedule:
  assumes inv: "sched_inv A s" and i: "ver_idx v < block_size s"
    and m: "min_validation_idx s \<le> ver_idx v" and st: "is_done (stat s (ver_idx v))"
  shows "\<exists>s1 r s2. try_validation_abort v s = Inr (True, s1) \<and> stat s1 (ver_idx v) = Aborting \<and>
    finish_validation v True s1 = Inr (r, s2) \<and> sched_inv (A - {ver_idx v}) s2 \<and>
    validation_idx s2 \<le> ver_idx v + 1 \<and> inc s2 (ver_idx v) = inc s (ver_idx v) + 1 \<and>
    (r = None \<and> stat s2 (ver_idx v) = ReadyToExecute \<and> execution_idx s2 \<le> ver_idx v \<or>
     r = Some (Execution \<lparr>ver_idx = ver_idx v, ver_incarnation = inc s (ver_idx v) + 1\<rparr>) \<and>
       stat s2 (ver_idx v) = Executing)"
proof -
  let ?i = "ver_idx v"
  have il: "?i < length (transactions_status s)" using i base_lengths(1)[OF inv_base[OF inv]] by simp
  obtain s1 k where s1: "try_validation_abort v s = Inr (True, s1)" "sched_inv (insert ?i A) s1"
    "s1 = (set_status ?i Aborting s)\<lparr>num_validated := k\<rparr>"
    using try_validation_abort_ok[OF inv i] st by metis
  have f1: "stat s1 ?i = Aborting" "inc s1 ?i = inc s ?i" "min_validation_idx s1 \<le> ?i"
    "length (transactions_status s1) = length (transactions_status s)"
    using stat_set_status[OF il, of Aborting ?i] m by (simp_all add: s1(3))
  obtain r s2 s3 where r: "finish_validation v True s1 = Inr (r, s2)" "sched_inv (insert ?i A - {?i}) s2"
    "s3 = s1\<lparr>transactions_status := (transactions_status s1)
        [?i := \<lparr>incarnation = inc s1 ?i + 1, status = ReadyToExecute\<rparr>],
      validation_idx := min (validation_idx s1) (?i + 1)\<rparr>"
    "case r of None \<Rightarrow> s2 = s3 | Some (Execution w) \<Rightarrow> ver_idx w = ?i \<and> picked s3 w s2
       | Some (Validation w) \<Rightarrow> False"
    using finish_validation_aborted_ok[OF s1(2) _ f1(3)] by auto
  have f3: "stat s3 ?i = ReadyToExecute" "inc s3 ?i = inc s ?i + 1" "validation_idx s3 \<le> ?i + 1"
    "block_size s3 = block_size s" "?i < length (transactions_status s3)"
    using il f1 by (simp_all add: r(3) s1(3))
  have st2: "sched_inv (A - {?i}) s2"
  proof (cases "?i \<in> A")
    case False
    then show ?thesis using r(2) by (simp add: insert_Diff_if)
  next
    case True
    then show ?thesis using r(2) by (simp add: insert_absorb)
  qed
  have "validation_idx s2 \<le> ?i + 1 \<and> inc s2 ?i = inc s ?i + 1 \<and>
    (r = None \<and> stat s2 ?i = ReadyToExecute \<and> execution_idx s2 \<le> ?i \<or>
     r = Some (Execution \<lparr>ver_idx = ?i, ver_incarnation = inc s ?i + 1\<rparr>) \<and> stat s2 ?i = Executing)"
  proof (cases r)
    case None
    then have "s2 = s3" using r(4) by simp
    moreover have "ready_ok {} s2" using st2 by (simp add: sched_inv_def)
    ultimately show ?thesis using None f3 i by (auto simp: ready_ok_def)
  next
    case (Some t)
    then obtain w e where w: "r = Some (Execution w)" "ver_idx w = ?i" "ver_incarnation w = inc s3 ?i"
      "s2 = set_status ?i Executing (s3\<lparr>execution_idx := e\<rparr>)"
      using r(4) by (cases t) (auto simp: picked_def)
    then have "w = \<lparr>ver_idx = ?i, ver_incarnation = inc s ?i + 1\<rparr>" using f3 by (cases w) simp
    then show ?thesis using w f3 stat_set_status[of ?i "s3\<lparr>execution_idx := e\<rparr>" Executing ?i] by simp
  qed
  then show ?thesis using s1(1) f1(1) r(1) st2 by blast
qed

theorem abort_and_reschedule_witness:
  "\<exists>s1 r s2. try_validation_abort \<lparr>ver_idx = 0, ver_incarnation = 0\<rparr> (executing_pair Validated)
      = Inr (True, s1) \<and>
    finish_validation \<lparr>ver_idx = 0, ver_incarnation = 0\<rparr> True s1 = Inr (r, s2) \<and> inc s2 0 = 1 \<and>
    validation_idx s2 \<le> 1"
proof -
  have "stat (executing_pair Validated) 0 = Validated" "block_size (executing_pair Validated) = 2"
    "min_validation_idx (executing_pair Validated) = 0" "inc (executing_pair Validated) 0 = 0"
    by (simp_all add: executing_pair_def)
  then show ?thesis
    using abort_and_reschedule[of "{}" "executing_pair Validated" "\<lparr>ver_idx = 0, ver_incarnation = 0\<rparr>"]
      executing_pair_inv[of Validated] by auto
qed

text \<open>
  C24. The comments on \<open>try_validation_abort\<close> and \<open>validate_read_locations\<close> say that a version can be
  aborted by one failing validation only and that a late validation of an older incarnation has
  no effect. The code compares no incarnations: a validation task of incarnation 0 that
  arrives when incarnation 1 is executed aborts incarnation 1.
\<close>

theorem stale_validation_aborts:
  assumes "sched_inv A s" and "ver_idx v < block_size s" and "is_done (stat s (ver_idx v))"
    and "ver_incarnation v < inc s (ver_idx v)"
  shows "\<exists>s'. try_validation_abort v s = Inr (True, s') \<and> stat s' (ver_idx v) = Aborting \<and>
    inc s' (ver_idx v) \<noteq> ver_incarnation v"
proof -
  have il: "ver_idx v < length (transactions_status s)"
    using assms(2) base_lengths(1)[OF inv_base[OF assms(1)]] by simp
  obtain s' k where "try_validation_abort v s = Inr (True, s')"
    "s' = (set_status (ver_idx v) Aborting s)\<lparr>num_validated := k\<rparr>"
    using try_validation_abort_ok[OF assms(1,2)] assms(3) by metis
  then show ?thesis using assms(4) stat_set_status[OF il, of Aborting "ver_idx v"] by auto
qed

definition second_incarnation :: scheduler where
  "second_incarnation =
     \<lparr>execution_idx = 1, validation_idx = 1,
      transactions_status = [\<lparr>incarnation = 1, status = Executed\<rparr>], block_size = 1,
      min_validation_idx = 0, num_validated = 0, transactions_dependents = [[]],
      transactions_dependencies_num = []\<rparr>"

lemma second_incarnation_inv: "sched_inv {} second_incarnation"
  unfolding sched_inv_def
proof
  show "sched_base {} second_incarnation"
    by (rule sched_baseI) (auto simp: pending_def sizes_ok_def deps_ok_def blockers_ok_def
        validated_count_def second_incarnation_def)
qed (simp add: ready_ok_def second_incarnation_def)

theorem stale_validation_aborts_witness:
  "\<exists>s'. try_validation_abort \<lparr>ver_idx = 0, ver_incarnation = 0\<rparr> second_incarnation = Inr (True, s') \<and>
     stat s' 0 = Aborting \<and> inc s' 0 \<noteq> 0"
proof -
  have "stat second_incarnation 0 = Executed" "inc second_incarnation 0 = 1" "block_size second_incarnation = 1"
    by (simp_all add: second_incarnation_def)
  then show ?thesis
    using stale_validation_aborts[OF second_incarnation_inv, of "\<lparr>ver_idx = 0, ver_incarnation = 0\<rparr>"] by simp
qed

end
