(* ===== verification/Vm_Props.thy ===== *)
theory Vm_Props
  imports Footprint
begin

text \<open>
  What the multi-version memory and the virtual machine layer promise: the effect of recording
  and of estimates, when a read set validates, which entries an execution can depend on,
  that validation of origins is sound, and what the beneficiary is paid.
\<close>

section \<open>The multi-version memory\<close>

text \<open>
  C28. \<open>record\<close> stores, for the recorded transaction, the last value of every location of the write
  set under the recorded incarnation, removes its entries at locations that only the previous
  incarnation wrote, and leaves all other entries alone. It answers whether some location was not
  written by the previous incarnation, and keeps the memory well-formed.
\<close>

theorem record_effect:
  assumes "mv_inv m" and "ver_idx v < length (mv_last m)"
  shows "\<exists>m'. mv_record v reads ws m =
      Inr (\<exists>l \<in> fst ` set ws. l \<notin> set (last_write (mv_last m ! ver_idx v)), m') \<and> mv_inv m' \<and>
    mv_last m' = (mv_last m)[ver_idx v := \<lparr>last_read = reads, last_write = map fst ws\<rparr>] \<and>
    (\<forall>l j. mv_get m' l j =
       (if j \<noteq> ver_idx v then mv_get m l j
        else case map_of (rev ws) l of
          Some x \<Rightarrow> Some (Data (ver_incarnation v) x)
        | None \<Rightarrow> if l \<in> set (last_write (mv_last m ! ver_idx v)) then None else mv_get m l j))"
proof -
  obtain m' where m': "mv_record v reads ws m =
      Inr (\<exists>l \<in> fst ` set ws. l \<notin> set (last_write (mv_last m ! ver_idx v)), m')" "mv_inv m'"
    "mv_last m' = (mv_last m)[ver_idx v := \<lparr>last_read = reads, last_write = map fst ws\<rparr>]"
    "\<And>l j. mv_get m' l j = (if j = ver_idx v then recorded_entry v ws m l else mv_get m l j)"
    using mv_record_ok[OF assms, of reads ws] by blast
  have "mv_get m' l j =
       (if j \<noteq> ver_idx v then mv_get m l j
        else case map_of (rev ws) l of
          Some x \<Rightarrow> Some (Data (ver_incarnation v) x)
        | None \<Rightarrow> if l \<in> set (last_write (mv_last m ! ver_idx v)) then None else mv_get m l j)" for l j
    by (simp add: m'(4) recorded_entry_def split: option.split)
  with m'(1-3) show ?thesis by blast
qed

theorem record_effect_witness:
  "\<exists>b m'. mv_record \<lparr>ver_idx = 1, ver_incarnation = 0\<rparr> [] [(7, LazyBalanceAddition 3), (7, LazyBalanceAddition 4)]
      (mv_new 2 [(7, [0, 1])]) = Inr (b, m') \<and>
    mv_get m' 7 1 = Some (Data 0 (LazyBalanceAddition 4)) \<and> mv_get m' 7 0 = Some Estimate"
proof -
  have "mv_inv (mv_new 2 [(7, [0, 1])])" by (rule mv_inv_new)
  moreover have "ver_idx \<lparr>ver_idx = 1, ver_incarnation = 0\<rparr> < length (mv_last (mv_new 2 [(7, [0, 1])]))"
    by (simp add: mv_new_def)
  ultimately show ?thesis
    using record_effect[of "mv_new 2 [(7, [0, 1])]" "\<lparr>ver_idx = 1, ver_incarnation = 0\<rparr>" "[]"
        "[(7, LazyBalanceAddition 3), (7, LazyBalanceAddition 4)]"]
    by (auto simp: mv_new_view)
qed

text \<open>
  C29. \<open>convert_writes_to_estimates\<close> turns exactly the entries of the last recorded write set of the
  transaction into estimates, keeps all others, and keeps the memory well-formed.
\<close>

theorem estimates_effect:
  assumes "mv_inv m" and "i < length (mv_last m)"
  shows "\<exists>m'. convert_writes_to_estimates i m = Inr m' \<and> mv_inv m' \<and> mv_last m' = mv_last m \<and>
    (\<forall>l j. mv_get m' l j =
      (if j = i \<and> l \<in> set (last_write (mv_last m ! i)) then Some Estimate else mv_get m l j))"
  using convert_writes_to_estimates_ok[OF assms] .

definition small_memory :: mv_memory where
  "small_memory =
     (case mv_record \<lparr>ver_idx = 0, ver_incarnation = 0\<rparr> [] [(7, LazyBalanceAddition 3)] (mv_new 2 []) of
        Inr (_, m) \<Rightarrow> m | Inl _ \<Rightarrow> mv_new 2 [])"

lemma small_memory:
  "mv_inv small_memory" "length (mv_last small_memory) = 2"
  "last_write (mv_last small_memory ! 0) = [7]"
  "mv_get small_memory 7 0 = Some (Data 0 (LazyBalanceAddition 3))"
proof -
  have "ver_idx \<lparr>ver_idx = 0, ver_incarnation = 0\<rparr> < length (mv_last (mv_new 2 []))" by (simp add: mv_new_def)
  from mv_record_ok[OF mv_inv_new this, of "[]" "[(7, LazyBalanceAddition 3)]"]
  show "mv_inv small_memory" "length (mv_last small_memory) = 2"
    "last_write (mv_last small_memory ! 0) = [7]"
    "mv_get small_memory 7 0 = Some (Data 0 (LazyBalanceAddition 3))"
    by (auto simp: small_memory_def recorded_entry_def) (simp_all add: mv_new_def)
qed

theorem estimates_effect_witness:
  "\<exists>m'. convert_writes_to_estimates 0 small_memory = Inr m' \<and> mv_get m' 7 0 = Some Estimate"
  using estimates_effect[OF small_memory(1), of 0] small_memory(2,3) by auto

text \<open>What an entry contributes to a list of origins.\<close>

fun entry_origin :: "tx_idx \<times> memory_entry \<Rightarrow> read_origin option" where
  "entry_origin (i, Data n x) = Some (OriginMvMemory \<lparr>ver_idx = i, ver_incarnation = n\<rparr>)"
| "entry_origin (i, Estimate) = None"

definition origins_match :: "(tx_idx \<times> memory_entry) list \<Rightarrow> read_origin list \<Rightarrow> bool" where
  "origins_match xs os \<longleftrightarrow>
     (if last os = OriginStorage then map entry_origin xs = map Some (butlast os)
      else map entry_origin (take (length os) xs) = map Some os)"

lemma validate_origins_match:
  "origins_ok os \<Longrightarrow> validate_origins xs os \<longleftrightarrow> origins_match xs os"
proof (induction xs os rule: validate_origins.induct)
  case (2 xs v os)
  have ok: "os = [] \<or> origins_ok os" using "2.prems" by (cases os) auto
  show ?case
  proof (cases xs)
    case Nil
    then show ?thesis by (cases os) (auto simp: origins_match_def)
  next
    case (Cons x rest)
    obtain i e where x: "x = (i, e)" by (cases x)
    show ?thesis
    proof (cases e)
      case (Data n val)
      show ?thesis
      proof (cases "i = ver_idx v \<and> n = ver_incarnation v")
        case True
        have IH: "origins_ok os \<Longrightarrow> validate_origins rest os \<longleftrightarrow> origins_match rest os"
          using "2.IH"[of x rest i e n val] Cons x Data True by auto
        show ?thesis using IH ok True Cons x Data
          by (cases os) (auto simp: origins_match_def)
      next
        case False
        then have "OriginMvMemory \<lparr>ver_idx = i, ver_incarnation = n\<rparr> \<noteq> OriginMvMemory v" by (cases v) auto
        then show ?thesis using Cons x Data False by (cases os) (auto simp: origins_match_def)
      qed
    next
      case Estimate
      then show ?thesis using Cons x by (cases os) (auto simp: origins_match_def)
    qed
  qed
next
  case (3 xs os)
  then have "os = []" by (cases os) auto
  then show ?case by (cases xs) (auto simp: origins_match_def)
qed simp

text \<open>
  C30. Validation is a comparison of versions. For a recorded read set, \<open>validate_read_locations\<close>
  answers true exactly if, at every location, the entries below the reader, from the closest down,
  begin with the recorded versions, and are exhausted by them where the read ended in the storage.
\<close>

theorem validation_compares_versions:
  assumes "j < length (mv_last m)" and "\<forall>(l, os) \<in> set (last_read (mv_last m ! j)). origins_ok os"
  shows "validate_read_locations j m =
    Inr (\<forall>(l, os) \<in> set (last_read (mv_last m ! j)). origins_match (walk m l j) os)"
proof -
  have "validate_location j m p \<longleftrightarrow> (case p of (l, os) \<Rightarrow> origins_match (walk m l j) os)"
    if "p \<in> set (last_read (mv_last m ! j))" for p
    using assms(2) that validate_location_walk validate_origins_match by (cases p) fastforce
  then show ?thesis using assms(1) by (auto simp: validate_read_locations_def list_all_iff)
qed

theorem validation_compares_versions_witness:
  "validate_read_locations 1 (small_memory\<lparr>mv_last :=
      (mv_last small_memory)[1 := \<lparr>last_read = [(7, [OriginMvMemory \<lparr>ver_idx = 0, ver_incarnation = 0\<rparr>, OriginStorage])],
                                  last_write = []\<rparr>]\<rparr>) = Inr True"
proof -
  let ?m = "small_memory\<lparr>mv_last := (mv_last small_memory)
     [1 := \<lparr>last_read = [(7, [OriginMvMemory \<lparr>ver_idx = 0, ver_incarnation = 0\<rparr>, OriginStorage])], last_write = []\<rparr>]\<rparr>"
  have "walk ?m 7 1 = [(0, Data 0 (LazyBalanceAddition 3))]" by code_simp
  then show ?thesis
    using validation_compares_versions[of 1 ?m] small_memory(2) by (simp add: origins_match_def)
qed

section \<open>Isolation and replay\<close>

text \<open>
  C26. Isolation. What a transaction does depends on the multi-version memory only through the
  entries of lower transactions: two memories that agree on them give the same outcome of
  \<open>Vm::execute\<close>, with the same read set, write set and validation index.
\<close>

theorem execute_isolated:
  assumes "mv_inv m" and "mv_inv m'" and "\<forall>l. \<forall>j < i. mv_get m' l j = mv_get m l j"
  shows "vm_execute rv transact vm m' i = vm_execute rv transact vm m i"
  by (rule vm_execute_cong, rule walk_cong[OF assms(1,2)]) (use assms(3) in blast)

text \<open>The smallest machine: an EVM that reads one account and changes nothing.\<close>

definition probe_revm :: revm where
  "probe_revm =
     \<lparr>bytecode_default = LegacyRaw [], bytecode_is_empty = (\<lambda>b. b = LegacyRaw []), hash_slow = (\<lambda>b. 0),
      new_analyzed = LegacyAnalyzed, new_raw = LegacyRaw, to_analysed = (\<lambda>bs. (bs, length bs, [])),
      info_default = \<lparr>info_balance = 0, info_nonce = 0, info_code_hash = 0, info_code = None\<rparr>,
      info_from_balance = (\<lambda>b. \<lparr>info_balance = b, info_nonce = 0, info_code_hash = 0, info_code = None\<rparr>),
      info_eq = (\<lambda>i j. info_balance i = info_balance j), is_empty_code_hash = (\<lambda>i. True),
      is_enabled_in = (\<lambda>a b. True), keccak256 = (\<lambda>bs. 0), u256_to_string = (\<lambda>n. [])\<rparr>"

definition probe_transact :: "read_error transact" where
  "probe_transact chain spec blk tx reward =
     Evm_Basic (caller tx) False (\<lambda>x. Evm_Done (case x of
       Inl e \<Rightarrow> Inl (EVM_Database e)
     | Inr a \<Rightarrow> Inr \<lparr>is_success = True, gas_used = 1, into_logs = [], rs_state = []\<rparr>))"

fun probe_hash :: "memory_location \<Rightarrow> memory_location_hash" where
  "probe_hash (LocBasic a) = 2 * ucast a"
| "probe_hash (LocStorage a k) = 2 * ucast a + 1"

definition probe_tx :: tx_env where
  "probe_tx =
     \<lparr>caller = 1, gas_limit = 1, gas_price = 5, gas_priority_fee = Some 2, transact_to = Call 1,
      tx_value = 0, tx_data = [], tx_nonce = None, tx_chain_id = None, access_list = [],
      blob_hashes = [], max_fee_per_blob_gas = None\<rparr>"

definition probe_vm :: vm where
  "probe_vm = vm_new probe_hash (in_memory_ops probe_revm (in_memory_new [(1, with_balance 9)] [])) 1
     CANCUN \<lparr>blk_number = 1, coinbase = 9, blk_timestamp = 0, blk_gas_limit = 0, basefee = 4,
             difficulty = 0, prevrandao = None, blob_excess = None\<rparr> [probe_tx, probe_tx]"

lemma probe_wf: "vm_wf probe_vm"
proof -
  have "even (2 * x)" "odd (2 * y + 1)" for x y :: u64 by simp_all
  then have "kinds_apart probe_hash" unfolding kinds_apart_def by (metis probe_hash.simps)
  then show ?thesis unfolding probe_vm_def by (rule vm_wf_new)
qed

lemma probe_propagates: "propagates (tx_run probe_transact probe_vm i)"
  by (simp add: probe_transact_def)

lemma probe_run:
  "case vm_execute probe_revm probe_transact probe_vm small_memory 1 of
     Inr (VmOk res reads ws nxt) \<Rightarrow> reads = [(2, [OriginStorage])] \<and> ws = [(18, LazyBalanceAddition 1)] \<and> nxt = None
   | _ \<Rightarrow> False"
  by code_simp

theorem execute_isolated_witness:
  "vm_execute probe_revm probe_transact probe_vm small_memory 0 =
     vm_execute probe_revm probe_transact probe_vm (mv_new 2 []) 0"
  using execute_isolated[OF mv_inv_new small_memory(1), of 0 2 "[]" probe_revm probe_transact probe_vm]
  by simp

text \<open>
  C25. Validation of origins is sound. If an execution of a transaction on one memory succeeded and the
  read set it recorded validates on a second memory, in which every version has the same values
  as in the first, then executing it on the second memory gives the same result, read set,
  write set and validation index.
\<close>

theorem validation_sound:
  assumes "vm_wf vm" and "propagates (tx_run transact vm i)" and "mv_inv m" and "mv_inv m'"
    and sv: "same_versions m m'"
    and "vm_execute rv transact vm m i = Inr (VmOk res reads ws nxt)" and "reads_valid m' i reads"
  shows "vm_execute rv transact vm m' i = Inr (VmOk res reads ws nxt)"
  using vm_execute_again[OF assms(1-3) joint_values(1) assms(4) joint_values(2)[OF sv] assms(6,7)] .

theorem validation_sound_witness:
  "\<exists>x. vm_execute probe_revm probe_transact probe_vm small_memory 1 = Inr x \<and>
       vm_execute probe_revm probe_transact probe_vm (mv_new 2 []) 1 = Inr x"
proof -
  obtain res reads ws nxt where
    run: "vm_execute probe_revm probe_transact probe_vm small_memory 1 = Inr (VmOk res reads ws nxt)"
    and reads: "reads = [(2, [OriginStorage])]"
    using probe_run by (auto split: sum.splits vm_execution_result.splits)
  have "reads_valid (mv_new 2 []) 1 reads" unfolding reads by code_simp
  moreover have "same_versions small_memory (mv_new 2 [])"
    by (auto simp: same_versions_def mv_new_view)
  ultimately show ?thesis
    using validation_sound[OF probe_wf probe_propagates small_memory(1) mv_inv_new _ run] run by blast
qed

section \<open>Rewards\<close>

text \<open>A reward on top of what is written for the beneficiary; a slot is never written there.\<close>

fun rewarded :: "u256 \<Rightarrow> memory_value \<Rightarrow> memory_value option" where
  "rewarded amount (ValBasic i) = Some (ValBasic (i\<lparr>info_balance := info_balance i + amount\<rparr>))"
| "rewarded amount (LazyBalanceAddition b) = Some (LazyBalanceAddition (b + amount))"
| "rewarded amount (ValStorage x) = None"

lemma add_reward_new: "l \<notin> fst ` set ws \<Longrightarrow> add_reward l amount ws = Inr (ws @ [(l, LazyBalanceAddition amount)])"
  by (induction l amount ws rule: add_reward.induct) auto

lemma add_reward_first:
  "l \<notin> fst ` set xs \<Longrightarrow> add_reward l amount (xs @ (l, v) # ys) =
     (case rewarded amount v of None \<Rightarrow> Inl (Panicked ''unreachable'') | Some v' \<Rightarrow> Inr (xs @ (l, v') # ys))"
  by (induction xs) (auto split: memory_value.splits option.splits)

text \<open>
  What the beneficiary gets per unit of gas: from London on the base fee is burnt, so it is what the
  price leaves above the base fee, at most the priority fee if there is one (and nothing when the price
  does not cover the base fee); before London it is the price, capped by base fee and priority fee.
\<close>

definition tip_per_gas :: "revm \<Rightarrow> vm \<Rightarrow> tx_env \<Rightarrow> nat" where
  "tip_per_gas rv vm tx =
     (let price = unat (gas_price tx); base = unat (basefee (vm_block_env vm)) in
      if is_enabled_in rv (vm_spec_id vm) LONDON
      then (case gas_priority_fee tx of None \<Rightarrow> price - base | Some fee \<Rightarrow> min (unat fee) (price - base))
      else (case gas_priority_fee tx of None \<Rightarrow> price | Some fee \<Rightarrow> min price (unat fee + base)))"

lemma unat_min: "unat (min a b) = min (unat a) (unat b)"
  by (simp add: min_def word_le_nat_alt)

lemma reward_gas_price_tip:
  assumes "\<forall>fee. gas_priority_fee tx = Some fee \<longrightarrow> unat fee + unat (basefee (vm_block_env vm)) < 2 ^ 256"
  shows "unat (reward_gas_price rv vm tx) = tip_per_gas rv vm tx"
proof (cases "gas_priority_fee tx")
  case None
  then show ?thesis by (simp add: reward_gas_price_def tip_per_gas_def unat_saturating_sub Let_def)
next
  case (Some fee)
  let ?b = "basefee (vm_block_env vm)"
  have "unat (fee + ?b) = unat fee + unat ?b"
    using assms Some unat_add_lem[of fee ?b] by (simp only: len_of_numeral_defs) simp
  then show ?thesis using Some
    by (auto simp: reward_gas_price_def tip_per_gas_def unat_saturating_sub unat_min Let_def)
qed

text \<open>
  C31. The beneficiary is paid the tip. For every transaction whose priority fee, if it has one, does not
  overflow when the base fee is added, \<open>apply_rewards\<close> adds exactly the tip per gas times the gas used
  (modulo the width of a balance) to the first write of the beneficiary's account, or appends it as a lazy addition when
  there is none, and leaves all other writes as they are; it fails only where a slot is written under the
  location of the beneficiary's account.
\<close>

theorem reward_is_tip:
  fixes rv vm tx gas
  assumes ov: "\<forall>fee. gas_priority_fee tx = Some fee \<longrightarrow> unat fee + unat (basefee (vm_block_env vm)) < 2 ^ 256"
  defines "amount \<equiv> of_nat (tip_per_gas rv vm tx * unat gas)" and "l \<equiv> beneficiary_location_hash vm"
  shows "(l \<notin> fst ` set ws \<longrightarrow> apply_rewards rv vm tx gas ws = Inr (ws @ [(l, LazyBalanceAddition amount)])) \<and>
    (\<forall>xs v ys. ws = xs @ (l, v) # ys \<longrightarrow> l \<notin> fst ` set xs \<longrightarrow> apply_rewards rv vm tx gas ws =
       (case rewarded amount v of None \<Rightarrow> Inl (Panicked ''unreachable'') | Some v' \<Rightarrow> Inr (xs @ (l, v') # ys)))"
proof -
  have "reward_gas_price rv vm tx * gas = amount"
    unfolding amount_def reward_gas_price_tip[OF ov, symmetric] by simp
  then have "apply_rewards rv vm tx gas ws = add_reward l amount ws"
    by (simp add: l_def split: reward_policy.splits)
  then show ?thesis using add_reward_new add_reward_first by auto
qed

theorem reward_is_tip_witness:
  "apply_rewards probe_revm probe_vm probe_tx 10 [] =
     Inr [(beneficiary_location_hash probe_vm, LazyBalanceAddition 10)]"
proof -
  have p: "is_enabled_in probe_revm (vm_spec_id probe_vm) LONDON" "gas_priority_fee probe_tx = Some 2"
    "basefee (vm_block_env probe_vm) = 4" "gas_price probe_tx = 5"
    by (simp_all add: probe_revm_def probe_tx_def probe_vm_def vm_new_def)
  then have "tip_per_gas probe_revm probe_vm probe_tx = 1" by (simp add: tip_per_gas_def)
  then show ?thesis
    using reward_is_tip[of probe_tx probe_vm "[]" probe_revm 10] p by simp
qed

section \<open>When validation is not asked for\<close>

text \<open>
  C27. A transaction other than the first goes unvalidated only if it stays within its sender, its recipient
  and the beneficiary. An execution asks for validation from itself, from the next transaction or not at
  all; the first transaction never asks. When a transaction other than the first does not ask to be validated itself, it has read nothing but
  its sender and, unless it pays it lazily, its recipient; when it asks for nothing at all, it is
  moreover no contract creation and has written nothing but its sender, its recipient and the beneficiary.
\<close>

theorem unvalidated_is_local:
  assumes "vm_execute rv transact vm m i = Inr (VmOk res reads ws nxt)"
  shows "nxt \<in> {None, Some i, Some (i + 1)} \<and> (i = 0 \<longrightarrow> nxt = None) \<and>
    (0 < i \<longrightarrow> nxt \<noteq> Some i \<longrightarrow> fst ` set reads \<subseteq> read_points vm (txs vm ! i)) \<and>
    (0 < i \<longrightarrow> nxt = None \<longrightarrow> transact_to (txs vm ! i) \<noteq> Create \<and>
       fst ` set ws \<subseteq> insert (beneficiary_location_hash vm) (endpoints vm (txs vm ! i)))"
proof -
  obtain db' r where db': "local_db vm i (txs vm ! i) db'" "vm_finish rv vm (txs vm ! i) db' r = Inr (VmOk res reads ws nxt)"
    using execute_local[OF assms] by blast
  show ?thesis using finish_local[OF db'] by auto
qed

theorem unvalidated_is_local_witness:
  "\<exists>res reads ws. vm_execute probe_revm probe_transact probe_vm small_memory 1 = Inr (VmOk res reads ws None) \<and>
     fst ` set reads \<subseteq> read_points probe_vm (txs probe_vm ! 1)"
proof -
  obtain res reads ws nxt where
    run: "vm_execute probe_revm probe_transact probe_vm small_memory 1 = Inr (VmOk res reads ws nxt)"
    and "nxt = None"
    using probe_run by (auto split: sum.splits vm_execution_result.splits)
  then show ?thesis using unvalidated_is_local[OF run] by auto
qed

end
