(* ===== verification/Rpc_Storage.thy ===== *)
theory Rpc_Storage
  imports Accounts
begin

text \<open>
  \<open>RpcStorage\<close> of \<open>src/src/storage/rpc.rs\<close>: a storage that fetches accounts, slots and block
  hashes from a node and caches them behind two mutexes.

  The provider, its transport and the runtime are other crates. Pinned to one block, they are the
  functions of the parameter record \<open>rpc_provider\<close>: a call returns a transport error or a value.
  The state holds the two caches and whether the guard of \<open>cache_accounts\<close> is held. A mutex
  of the standard library is not reentrant, so a thread that locks it again while it holds
  the guard never gets on; that is the outcome \<open>Deadlock\<close>.
\<close>

section \<open>State and operations\<close>

record rpc_provider =
  get_balance :: "address \<Rightarrow> storage_error + u256"
  get_transaction_count :: "address \<Rightarrow> storage_error + u64"
  get_code_at :: "address \<Rightarrow> storage_error + bytes"
  get_storage_at :: "address \<Rightarrow> u256 \<Rightarrow> storage_error + u256"
  get_block_by_number :: "u64 \<Rightarrow> storage_error + b256 option option"
  precompile_addresses :: "address list"

record rpc_storage =
  provider :: rpc_provider
  cache_accounts :: "(address, evm_account) hashmap"
  cache_block_hashes :: "(u256, b256) hashmap"
  accounts_guard :: bool

datatype stuck = Deadlock | Panic rust_panic

type_synonym 'a rpc = "stuck + ((storage_error + 'a) \<times> rpc_storage)"

definition rpc_new :: "rpc_provider \<Rightarrow> rpc_storage" where
  "rpc_new p = \<lparr>provider = p, cache_accounts = [], cache_block_hashes = [], accounts_guard = False\<rparr>"

definition get_cache_accounts :: "rpc_storage \<Rightarrow> stuck + (address, evm_account) hashmap" where
  "get_cache_accounts s = (if accounts_guard s then Inl Deadlock else Inr (cache_accounts s))"

definition get_cache_block_hashes :: "rpc_storage \<Rightarrow> (u256, b256) hashmap" where
  "get_cache_block_hashes s = cache_block_hashes s"

text \<open>The account built from the three answers of the node.\<close>

definition rpc_account :: "revm \<Rightarrow> u256 \<Rightarrow> u64 \<Rightarrow> bytes \<Rightarrow> account_basic panics" where
  "rpc_account rv bal non cd =
     (let bc = new_raw rv cd in
      if bytecode_is_empty rv bc
      then Inr \<lparr>balance = bal, nonce = non, code = None, code_hash = None\<rparr>
      else (case evm_code_of_bytecode rv bc of
              Inl p \<Rightarrow> Inl p
            | Inr ec \<Rightarrow> Inr \<lparr>balance = bal, nonce = non, code = Some ec, code_hash = Some (hash_slow rv bc)\<rparr>))"

definition fetch_basic ::
  "revm \<Rightarrow> rpc_provider \<Rightarrow> address \<Rightarrow> (storage_error + account_basic option) panics" where
  "fetch_basic rv p a =
     (case get_balance p a of
        Inl e \<Rightarrow> Inr (Inl e)
      | Inr bal \<Rightarrow>
          (case get_transaction_count p a of
             Inl e \<Rightarrow> Inr (Inl e)
           | Inr non \<Rightarrow>
               (case get_code_at p a of
                  Inl e \<Rightarrow> Inr (Inl e)
                | Inr cd \<Rightarrow>
                    if a \<notin> set (precompile_addresses p) \<and> bal = 0 \<and> non = 0 \<and> cd = []
                    then Inr (Inr None)
                    else map_sum id (\<lambda>b. Inr (Some b)) (rpc_account rv bal non cd))))"

definition rpc_basic :: "revm \<Rightarrow> address \<Rightarrow> rpc_storage \<Rightarrow> account_basic option rpc" where
  "rpc_basic rv a s =
     (if accounts_guard s then Inl Deadlock
      else case hm_get (cache_accounts s) a of
        Some acc \<Rightarrow> Inr (Inr (Some (basic acc)), s)
      | None \<Rightarrow>
          (case fetch_basic rv (provider s) a of
             Inl p \<Rightarrow> Inl (Panic p)
           | Inr (Inl e) \<Rightarrow> Inr (Inl e, s)
           | Inr (Inr None) \<Rightarrow> Inr (Inr None, s)
           | Inr (Inr (Some b)) \<Rightarrow>
               Inr (Inr (Some b),
                    s\<lparr>cache_accounts := hm_insert a (evm_account_of_basic b) (cache_accounts s)\<rparr>)))"

definition rpc_is_contract :: "revm \<Rightarrow> address \<Rightarrow> rpc_storage \<Rightarrow> bool rpc" where
  "rpc_is_contract rv a s =
     map_sum id (\<lambda>(r, s'). (default_is_contract (\<lambda>_. r) a, s')) (rpc_basic rv a s)"

definition rpc_code_by_hash :: "b256 \<Rightarrow> rpc_storage \<Rightarrow> evm_code option rpc" where
  "rpc_code_by_hash h s =
     Inl (Panic (Panicked ''This should not be called as the code is already loaded via account''))"

definition rpc_has_storage :: "address \<Rightarrow> rpc_storage \<Rightarrow> bool rpc" where
  "rpc_has_storage a s = Inr (Inr False, s)"

definition cached_slot :: "rpc_storage \<Rightarrow> address \<Rightarrow> u256 \<Rightarrow> u256 option" where
  "cached_slot s a i =
     (case hm_get (cache_accounts s) a of None \<Rightarrow> None | Some acc \<Rightarrow> hm_get (storage acc) i)"

text \<open>The guard of the \<open>match\<close> is held while the vacant entry is filled.\<close>

definition rpc_storage_read :: "revm \<Rightarrow> address \<Rightarrow> u256 \<Rightarrow> rpc_storage \<Rightarrow> u256 rpc" where
  "rpc_storage_read rv a i s =
     (if accounts_guard s then Inl Deadlock
      else case cached_slot s a i of
        Some v \<Rightarrow> Inr (Inr v, s)
      | None \<Rightarrow>
          (case get_storage_at (provider s) a i of
             Inl e \<Rightarrow> Inr (Inl e, s)
           | Inr v \<Rightarrow>
               (case hm_get (cache_accounts s) a of
                  Some acc \<Rightarrow>
                    Inr (Inr v, s\<lparr>cache_accounts :=
                      hm_insert a (acc\<lparr>storage := hm_insert i v (storage acc)\<rparr>) (cache_accounts s)\<rparr>)
                | None \<Rightarrow>
                    (case rpc_basic rv a (s\<lparr>accounts_guard := True\<rparr>) of
                       Inl x \<Rightarrow> Inl x
                     | Inr (Inl e, s1) \<Rightarrow> Inr (Inl e, s1\<lparr>accounts_guard := False\<rparr>)
                     | Inr (Inr acc, s1) \<Rightarrow>
                         (let b = (case acc of Some b \<Rightarrow> b | None \<Rightarrow> account_basic_default) in
                          Inr (Inr v, s1\<lparr>accounts_guard := False, cache_accounts :=
                            hm_insert a \<lparr>basic = b, storage = [(i, v)]\<rparr> (cache_accounts s1)\<rparr>))))))"

definition rpc_block_hash :: "u256 \<Rightarrow> rpc_storage \<Rightarrow> b256 rpc" where
  "rpc_block_hash n s =
     (case hm_get (cache_block_hashes s) n of
        Some h \<Rightarrow> Inr (Inr h, s)
      | None \<Rightarrow>
          if unat n \<ge> 2 ^ 64 then Inl (Panic (Panicked ''Overflow''))
          else (case get_block_by_number (provider s) (ucast n) of
             Inl e \<Rightarrow> Inr (Inl e, s)
           | Inr (Some (Some h)) \<Rightarrow>
               Inr (Inr h, s\<lparr>cache_block_hashes := hm_insert n h (cache_block_hashes s)\<rparr>)
           | Inr _ \<Rightarrow> Inl (Panic Unwrap_failed)))"

section \<open>The caches hold what the node answers\<close>

definition rpc_inv :: "revm \<Rightarrow> rpc_storage \<Rightarrow> bool" where
  "rpc_inv rv s \<longleftrightarrow>
     \<not> accounts_guard s \<and>
     (\<forall>a acc. hm_get (cache_accounts s) a = Some acc \<longrightarrow>
        fetch_basic rv (provider s) a = Inr (Inr (Some (basic acc))) \<and>
        (\<forall>i v. hm_get (storage acc) i = Some v \<longrightarrow> get_storage_at (provider s) a i = Inr v)) \<and>
     (\<forall>n h. hm_get (cache_block_hashes s) n = Some h \<longrightarrow>
        get_block_by_number (provider s) (ucast n) = Inr (Some (Some h)))"

lemma rpc_invD:
  assumes "rpc_inv rv s"
  shows "\<not> accounts_guard s"
    and "hm_get (cache_accounts s) a = Some acc \<Longrightarrow> fetch_basic rv (provider s) a = Inr (Inr (Some (basic acc)))"
    and "cached_slot s a i = Some v \<Longrightarrow> get_storage_at (provider s) a i = Inr v"
    and "hm_get (cache_block_hashes s) n = Some h \<Longrightarrow> get_block_by_number (provider s) (ucast n) = Inr (Some (Some h))"
  using assms by (auto simp: rpc_inv_def cached_slot_def split: option.splits)

lemma rpc_inv_new: "rpc_inv rv (rpc_new p)"
  by (simp add: rpc_inv_def rpc_new_def)

lemma rpc_inv_cache:
  assumes "rpc_inv rv s" and "fetch_basic rv (provider s) a = Inr (Inr (Some (basic acc)))"
    and "\<And>i v. hm_get (storage acc) i = Some v \<Longrightarrow> get_storage_at (provider s) a i = Inr v"
  shows "rpc_inv rv (s\<lparr>cache_accounts := hm_insert a acc (cache_accounts s)\<rparr>)"
  using assms by (auto simp: rpc_inv_def hm_get_insert)

lemma rpc_basic_ok:
  assumes inv: "rpc_inv rv s" and run: "rpc_basic rv a s = Inr (r, s')"
  shows "fetch_basic rv (provider s) a = Inr r" and "rpc_inv rv s'" and "provider s' = provider s"
proof -
  have "fetch_basic rv (provider s) a = Inr r \<and> rpc_inv rv s' \<and> provider s' = provider s"
  proof (cases "hm_get (cache_accounts s) a")
    case None
    then show ?thesis
      using run inv rpc_inv_cache[OF inv, of a "evm_account_of_basic b" for b] rpc_invD(1)[OF inv]
      by (auto simp: rpc_basic_def evm_account_of_basic_def split: sum.splits option.splits)
  next
    case (Some acc)
    then show ?thesis using run inv rpc_invD(1,2)[OF inv] by (auto simp: rpc_basic_def)
  qed
  then show "fetch_basic rv (provider s) a = Inr r" "rpc_inv rv s'" "provider s' = provider s" by auto
qed

lemma rpc_storage_read_ok:
  assumes inv: "rpc_inv rv s" and run: "rpc_storage_read rv a i s = Inr (r, s')"
  shows "get_storage_at (provider s) a i = r" and "rpc_inv rv s'" and "provider s' = provider s"
proof -
  have "get_storage_at (provider s) a i = r \<and> rpc_inv rv s' \<and> provider s' = provider s"
  proof (cases "cached_slot s a i")
    case None
    have "rpc_inv rv (s\<lparr>cache_accounts := hm_insert a (acc\<lparr>storage := hm_insert i v (storage acc)\<rparr>) (cache_accounts s)\<rparr>)"
      if "hm_get (cache_accounts s) a = Some acc" "get_storage_at (provider s) a i = Inr v" for acc v
      using that inv rpc_invD(2)[OF inv that(1)]
      by (intro rpc_inv_cache) (auto simp: hm_get_insert rpc_inv_def split: if_splits)
    then show ?thesis using None run inv rpc_invD(1)[OF inv]
      by (auto simp: rpc_storage_read_def rpc_basic_def split: sum.splits option.splits)
  next
    case (Some v)
    then show ?thesis using run inv rpc_invD(1,3)[OF inv] by (auto simp: rpc_storage_read_def)
  qed
  then show "get_storage_at (provider s) a i = r" "rpc_inv rv s'" "provider s' = provider s" by auto
qed

lemma rpc_block_hash_ok:
  assumes inv: "rpc_inv rv s" and run: "rpc_block_hash n s = Inr (r, s')"
  shows "get_block_by_number (provider s) (ucast n) = map_sum id (Some \<circ> Some) r"
    and "rpc_inv rv s'" and "provider s' = provider s"
  using assms rpc_invD(4)[OF inv, of n]
  by (auto simp: rpc_block_hash_def rpc_inv_def hm_get_insert split: option.splits sum.splits if_splits)

section \<open>Sequences of calls\<close>

text \<open>The states of a storage on the node \<open>p\<close> after any calls of its methods that have returned.\<close>

inductive rpc_reaches :: "revm \<Rightarrow> rpc_provider \<Rightarrow> rpc_storage \<Rightarrow> bool" for rv p where
  new: "rpc_reaches rv p (rpc_new p)"
| basic: "rpc_reaches rv p s \<Longrightarrow> rpc_basic rv a s = Inr (r, s') \<Longrightarrow> rpc_reaches rv p s'"
| is_contract: "rpc_reaches rv p s \<Longrightarrow> rpc_is_contract rv a s = Inr (b, s') \<Longrightarrow> rpc_reaches rv p s'"
| has_storage: "rpc_reaches rv p s \<Longrightarrow> rpc_has_storage a s = Inr (b, s') \<Longrightarrow> rpc_reaches rv p s'"
| storage: "rpc_reaches rv p s \<Longrightarrow> rpc_storage_read rv a i s = Inr (v, s') \<Longrightarrow> rpc_reaches rv p s'"
| block_hash: "rpc_reaches rv p s \<Longrightarrow> rpc_block_hash n s = Inr (h, s') \<Longrightarrow> rpc_reaches rv p s'"

lemma rpc_is_contract_basic:
  "rpc_is_contract rv a s = Inr (b, s') \<longleftrightarrow>
   (\<exists>r. rpc_basic rv a s = Inr (r, s') \<and> b = default_is_contract (\<lambda>_. r) a)"
  by (auto simp: rpc_is_contract_def map_sum_def split: sum.splits)

lemma rpc_reaches_inv: "rpc_reaches rv p s \<Longrightarrow> rpc_inv rv s \<and> provider s = p"
proof (induction rule: rpc_reaches.induct)
  case new
  then show ?case by (simp add: rpc_inv_new) (simp add: rpc_new_def)
next
  case (basic s a r s')
  then show ?case using rpc_basic_ok(2,3)[of rv s a r s'] by simp
next
  case (is_contract s a b s')
  then show ?case using rpc_basic_ok(2,3)[of rv s a _ s'] by (auto simp: rpc_is_contract_basic)
next
  case (has_storage s a b s')
  then show ?case by (simp add: rpc_has_storage_def)
next
  case (storage s a i v s')
  then show ?case using rpc_storage_read_ok(2,3)[of rv s a i v s'] by simp
next
  case (block_hash s n h s')
  then show ?case using rpc_block_hash_ok(2,3)[of rv s n h s'] by simp
qed

end
