(* ===== verification/Storage_Props.thy ===== *)
theory Storage_Props
  imports Rpc_Storage Lib_Types
begin

text \<open>
  Properties of the accounts, the storages and the hashers: round trips between the account types,
  what the in-memory storage returns, the caches of the RPC storage and its deadlock, and the
  hash of an address.
\<close>

section \<open>Round trips\<close>

text \<open>
  What the conversions rely on from \<open>revm\<close>: \<open>Bytecode::new_analyzed\<close> keeps its three arguments,
  analysed bytecode is empty exactly when its original length is zero, and the default
  bytecode is empty.
\<close>

definition bytecode_laws :: "revm \<Rightarrow> bool" where
  "bytecode_laws rv \<longleftrightarrow>
     (\<forall>bs n jt. new_analyzed rv bs n jt = LegacyAnalyzed bs n jt) \<and>
     (\<forall>bs n jt. bytecode_is_empty rv (LegacyAnalyzed bs n jt) \<longleftrightarrow> n = 0) \<and>
     bytecode_is_empty rv (bytecode_default rv)"

text \<open>An account that comes back unchanged: its code is not empty and its hash goes with it.\<close>

definition code_ok :: "account_basic \<Rightarrow> bool" where
  "code_ok b \<longleftrightarrow>
     (case code b of None \<Rightarrow> code_hash b = None | Some c \<Rightarrow> original_len c \<noteq> 0 \<and> code_hash b \<noteq> None)"

lemma basic_round_trip:
  "bytecode_laws rv \<Longrightarrow> code_ok b \<Longrightarrow> basic_of_info rv (info_of_basic rv b) = Inr b"
  by (cases b) (auto simp: basic_of_info_def info_of_basic_def bytecode_laws_def code_ok_def
      bytecode_of_evm_code_def Let_def split: option.splits)

text \<open>
  C36. Converting an account to the \<open>PlainAccount\<close> of \<open>revm\<close> and back gives the account, when its code,
  if it has any, is not empty and carries its hash.
\<close>

theorem account_round_trip:
  assumes "bytecode_laws rv" and "code_ok (basic a)"
  shows "evm_account_of_plain rv (plain_of_evm_account rv a) = Inr a"
  using basic_round_trip[OF assms]
  by (simp add: evm_account_of_plain_def plain_of_evm_account_def)

definition plain_revm :: revm where
  "plain_revm =
     \<lparr>bytecode_default = LegacyAnalyzed [0] 0 [], bytecode_is_empty = (\<lambda>b. case b of
        LegacyRaw bs \<Rightarrow> bs = [] | LegacyAnalyzed bs n jt \<Rightarrow> n = 0 | Eof bs \<Rightarrow> False),
      hash_slow = (\<lambda>b. 7), new_analyzed = LegacyAnalyzed, new_raw = LegacyRaw,
      to_analysed = (\<lambda>bs. (bs @ [0], length bs, [])),
      info_default = \<lparr>info_balance = 0, info_nonce = 0, info_code_hash = 0, info_code = None\<rparr>,
      info_from_balance = (\<lambda>b. \<lparr>info_balance = b, info_nonce = 0, info_code_hash = 0, info_code = None\<rparr>),
      info_eq = (=), is_empty_code_hash = (\<lambda>i. info_code_hash i = 0),
      is_enabled_in = (\<lambda>a b. True), keccak256 = (\<lambda>bs. of_nat (length bs)), u256_to_string = (\<lambda>n. [])\<rparr>"

lemma plain_revm_laws: "bytecode_laws plain_revm"
  by (simp add: bytecode_laws_def plain_revm_def)

definition sample_account :: evm_account where
  "sample_account =
     \<lparr>basic = \<lparr>balance = 5, nonce = 1, code = Some \<lparr>bytecode_bytes = [96, 0], original_len = 1, jump_table = [False]\<rparr>,
               code_hash = Some 9\<rparr>, storage = [(1, 2)]\<rparr>"

theorem account_round_trip_witness:
  "evm_account_of_plain plain_revm (plain_of_evm_account plain_revm sample_account) = Inr sample_account"
  by (rule account_round_trip[OF plain_revm_laws]) (simp add: code_ok_def sample_account_def)

text \<open>
  C37. A storage behind the \<open>DatabaseRef\<close> wrapper, seen as a storage again, answers every method as
  the storage does, for the accounts that carry their hash exactly with non-empty code, for code
  found by its hash that is not empty, and for \<open>is_contract\<close> when the storage answers it from the account.
\<close>

theorem wrapper_round_trip:
  assumes "bytecode_laws rv" and "\<forall>b. st_basic st a = Inr (Some b) \<longrightarrow> code_ok b"
    and "\<forall>c. st_code_by_hash st h = Inr (Some c) \<longrightarrow> original_len c \<noteq> 0"
    and "st_is_contract st a = default_is_contract (st_basic st) a"
  shows "database_basic rv (storage_wrapper rv st) a = Inr (st_basic st a) \<and>
    database_is_contract rv (storage_wrapper rv st) a = Inr (st_is_contract st a) \<and>
    database_code_by_hash rv (storage_wrapper rv st) h = Inr (st_code_by_hash st h) \<and>
    database_has_storage (storage_wrapper rv st) a = st_has_storage st a \<and>
    database_storage (storage_wrapper rv st) a i = st_storage st a i \<and>
    database_block_hash (storage_wrapper rv st) n = st_block_hash st n"
proof -
  have b: "database_basic rv (storage_wrapper rv st) a = Inr (st_basic st a)"
    using basic_round_trip[OF assms(1)] assms(2)
    by (cases "st_basic st a" rule: sum.exhaust; cases "projr (st_basic st a)")
      (auto simp: database_basic_def storage_wrapper_def)
  have "database_code_by_hash rv (storage_wrapper rv st) h = Inr (st_code_by_hash st h)"
    using assms(1,3)
    by (cases "st_code_by_hash st h" rule: sum.exhaust; cases "projr (st_code_by_hash st h)")
      (auto simp: database_code_by_hash_def storage_wrapper_def bytecode_of_evm_code_def bytecode_laws_def)
  moreover have "database_is_contract rv (storage_wrapper rv st) a = Inr (st_is_contract st a)"
    by (simp add: database_is_contract_def b assms(4) default_is_contract_def)
  ultimately show ?thesis
    using b by (simp add: database_has_storage_def database_storage_def database_block_hash_def storage_wrapper_def)
qed

definition sample_storage :: in_memory_storage where
  "sample_storage = in_memory_new [(1, with_balance 3), (2, sample_account), (1, with_balance 4)] [(8, 80)]"

theorem wrapper_round_trip_witness:
  "database_basic plain_revm (storage_wrapper plain_revm (in_memory_ops plain_revm sample_storage)) 2 =
     Inr (Inr (Some (basic sample_account))) \<and>
   database_code_by_hash plain_revm (storage_wrapper plain_revm (in_memory_ops plain_revm sample_storage)) 9 =
     Inr (Inr (code (basic sample_account)))"
proof -
  let ?st = "in_memory_ops plain_revm sample_storage"
  have get: "st_basic ?st 2 = Inr (Some (basic sample_account))"
    "st_code_by_hash ?st 9 = Inr (code (basic sample_account))" by code_simp+
  have b: "\<forall>b. st_basic ?st 2 = Inr (Some b) \<longrightarrow> code_ok b"
    using get(1) by (simp add: code_ok_def sample_account_def)
  have c: "\<forall>c. st_code_by_hash ?st 9 = Inr (Some c) \<longrightarrow> original_len c \<noteq> 0"
    using get(2) by (auto simp: sample_account_def)
  show ?thesis
    using wrapper_round_trip[OF plain_revm_laws b c in_memory.is_contract_default[of plain_revm sample_storage 2]] get
    by simp
qed

section \<open>The in-memory storage\<close>








section \<open>The RPC storage\<close>

text \<open>What the node knows of an account, in its own answers: the first failing answer, or the account.\<close>

definition node_account :: "revm \<Rightarrow> rpc_provider \<Rightarrow> address \<Rightarrow> storage_error + account_basic option \<Rightarrow> bool" where
  "node_account rv p a r \<longleftrightarrow>
     (case r of
        Inl e \<Rightarrow> get_balance p a = Inl e \<or> (\<exists>bal. get_balance p a = Inr bal) \<and>
          (get_transaction_count p a = Inl e \<or> (\<exists>non. get_transaction_count p a = Inr non) \<and> get_code_at p a = Inl e)
      | Inr acc \<Rightarrow> \<exists>bal non cd. get_balance p a = Inr bal \<and> get_transaction_count p a = Inr non \<and> get_code_at p a = Inr cd \<and>
          (case acc of
             None \<Rightarrow> bal = 0 \<and> non = 0 \<and> cd = [] \<and> a \<notin> set (precompile_addresses p)
           | Some b \<Rightarrow> (bal \<noteq> 0 \<or> non \<noteq> 0 \<or> cd \<noteq> [] \<or> a \<in> set (precompile_addresses p)) \<and>
               balance b = bal \<and> nonce b = non \<and>
               (if bytecode_is_empty rv (new_raw rv cd) then code b = None \<and> code_hash b = None
                else \<exists>ec. evm_code_of_bytecode rv (new_raw rv cd) = Inr ec \<and> code b = Some ec \<and>
                       code_hash b = Some (hash_slow rv (new_raw rv cd)))))"

lemma fetch_basic_node: "fetch_basic rv p a = Inr r \<Longrightarrow> node_account rv p a r"
  by (auto simp: fetch_basic_def node_account_def rpc_account_def Let_def map_sum_def
      split: sum.splits if_splits)

lemma rpc_basic_stuck:
  assumes "rpc_inv rv s" and "rpc_basic rv a s = Inl x"
  shows "\<exists>cd bs. get_code_at (provider s) a = Inr cd \<and> new_raw rv cd = Eof bs"
proof -
  have "evm_code_of_bytecode rv bc = Inl q \<Longrightarrow> \<exists>bs. bc = Eof bs" for bc q by (cases bc) (auto split: prod.splits)
  then show ?thesis using assms rpc_invD(1)[OF assms(1)]
    by (fastforce simp: rpc_basic_def fetch_basic_def rpc_account_def Let_def map_sum_def
        split: sum.splits option.splits if_splits)
qed

lemma rpc_storage_stuck: "rpc_inv rv s \<Longrightarrow> rpc_storage_read rv a i s = Inl x \<Longrightarrow> hm_get (cache_accounts s) a = None"
  using rpc_invD(1)[of rv s] by (auto simp: rpc_storage_read_def split: sum.splits option.splits)

lemma rpc_block_hash_stuck:
  assumes "rpc_block_hash n s = Inl x"
  shows "2 ^ 64 \<le> unat n \<or> (\<nexists>h. get_block_by_number (provider s) (ucast n) = map_sum id (Some \<circ> Some) h)"
proof -
  have "(\<exists>h. y = map_sum id (Some \<circ> Some) h) \<Longrightarrow> (\<exists>e. y = Inl e) \<or> (\<exists>h. y = Inr (Some (Some h)))"
    for y :: "storage_error + b256 option option" by (metis comp_apply map_sum.simps sum.exhaust)
  then show ?thesis using assms by (fastforce simp: rpc_block_hash_def split: option.splits sum.splits if_splits)
qed

text \<open>
  C34. The caches of the RPC storage are transparent. After any sequence of calls that returned, \<open>basic\<close>
  and \<open>is_contract\<close> answer from the balance, nonce and code the node gives for the account, \<open>storage\<close>
  answers the slot and \<open>block_hash\<close> the hash of the node. \<open>basic\<close> returns unless the code of
  the account is in the unsupported format, \<open>storage\<close> returns when the account is cached, and \<open>block_hash\<close>
  when the number fits 64 bits and the node knows the block or fails. (\<open>has_storage\<close> and \<open>code_by_hash\<close> never ask the node.)
\<close>

theorem rpc_cache_transparent:
  assumes "rpc_reaches rv p s"
  shows "(\<forall>r s'. rpc_basic rv a s = Inr (r, s') \<longrightarrow> node_account rv p a r) \<and>
    (\<forall>b s'. rpc_is_contract rv a s = Inr (b, s') \<longrightarrow>
      (\<exists>r. node_account rv p a r \<and> b = map_sum id (\<lambda>acc. \<exists>x. acc = Some x \<and> code x \<noteq> None) r)) \<and>
    (\<forall>x s'. rpc_storage_read rv a i s = Inr (x, s') \<longrightarrow> x = get_storage_at p a i) \<and>
    (\<forall>h s'. rpc_block_hash n s = Inr (h, s') \<longrightarrow> get_block_by_number p (ucast n) = map_sum id (Some \<circ> Some) h) \<and>
    (\<forall>x. rpc_basic rv a s = Inl x \<longrightarrow> (\<exists>cd bs. get_code_at p a = Inr cd \<and> new_raw rv cd = Eof bs)) \<and>
    (\<forall>x. rpc_storage_read rv a i s = Inl x \<longrightarrow> hm_get (cache_accounts s) a = None) \<and>
    (\<forall>x. rpc_block_hash n s = Inl x \<longrightarrow> 2 ^ 64 \<le> unat n \<or> (\<nexists>h. get_block_by_number p (ucast n) = map_sum id (Some \<circ> Some) h))"
proof -
  have inv: "rpc_inv rv s" and p: "provider s = p" using rpc_reaches_inv[OF assms] by simp_all
  have basic: "node_account rv p a r" if "rpc_basic rv a s = Inr (r, s')" for r s'
    using rpc_basic_ok(1)[OF inv that] fetch_basic_node p by simp
  moreover have "\<exists>r. node_account rv p a r \<and> b = map_sum id (\<lambda>acc. \<exists>x. acc = Some x \<and> code x \<noteq> None) r"
    if "rpc_is_contract rv a s = Inr (b, s')" for b s'
    using that basic unfolding rpc_is_contract_basic
    by (fastforce simp: default_is_contract_def map_sum_def split: sum.splits option.splits)
  ultimately show ?thesis
    using rpc_storage_read_ok(1)[OF inv] rpc_block_hash_ok(1)[OF inv] rpc_basic_stuck[OF inv] rpc_storage_stuck[OF inv]
      rpc_block_hash_stuck[of n s] p by blast
qed

definition sample_provider :: rpc_provider where
  "sample_provider =
     \<lparr>get_balance = (\<lambda>a. Inr 3), get_transaction_count = (\<lambda>a. Inr 0), get_code_at = (\<lambda>a. Inr [96]),
      get_storage_at = (\<lambda>a i. Inr (i + 1)), get_block_by_number = (\<lambda>n. Inr (Some (Some 5))),
      precompile_addresses = [1]\<rparr>"

theorem rpc_cache_transparent_witness:
  "\<exists>b s'. rpc_basic plain_revm 4 (rpc_new sample_provider) = Inr (Inr (Some b), s') \<and> balance b = 3 \<and> nonce b = 0"
proof -
  have "case rpc_basic plain_revm 4 (rpc_new sample_provider) of Inr (Inr (Some _), _) \<Rightarrow> True | _ \<Rightarrow> False"
    by code_simp
  then obtain b s' where run: "rpc_basic plain_revm 4 (rpc_new sample_provider) = Inr (Inr (Some b), s')"
    by (auto split: sum.splits option.splits prod.splits)
  then have "node_account plain_revm sample_provider 4 (Inr (Some b))"
    using rpc_cache_transparent[OF rpc_reaches.new[of plain_revm sample_provider], of 4 0 0] by blast
  then have "balance b = 3" "nonce b = 0" by (auto simp: node_account_def sample_provider_def)
  with run show ?thesis by blast
qed

text \<open>
  C35. \<open>storage\<close> of the RPC storage never returns on an account that is not cached, when the node
  answers the request for the slot: it holds the guard of the cache while it asks for the
  account, which locks the cache again.
\<close>

theorem rpc_storage_deadlocks:
  assumes "\<not> accounts_guard s" and "hm_get (cache_accounts s) a = None"
    and "get_storage_at (provider s) a i = Inr v"
  shows "rpc_storage_read rv a i s = Inl Deadlock"
  using assms by (simp add: rpc_storage_read_def cached_slot_def rpc_basic_def)

theorem rpc_storage_deadlocks_witness:
  "rpc_storage_read plain_revm 4 0 (rpc_new sample_provider) = Inl Deadlock"
  by (rule rpc_storage_deadlocks[of _ _ _ 1]) (simp_all add: rpc_new_def sample_provider_def)

section \<open>Hashing an address\<close>

lemma u64_from_be_bytes_snoc: "u64_from_be_bytes (bs @ [b]) acc = u64_from_be_bytes bs acc * 256 + ucast b"
  by (induction bs acc rule: u64_from_be_bytes.induct) auto

text \<open>The bytes of a number, most significant first.\<close>

fun be_bytes :: "nat \<Rightarrow> ('a::len) word \<Rightarrow> u8 list" where
  "be_bytes 0 x = []"
| "be_bytes (Suc n) x = be_bytes n (x div 256) @ [ucast x]"

lemma length_be_bytes [simp]: "length (be_bytes n x) = n"
  by (induction n x rule: be_bytes.induct) auto

lemma drop_be_bytes: "\<exists>y :: ('a::len) word. be_bytes (m + n) (x :: 'a word) = be_bytes m y @ be_bytes n x"
proof (induction n arbitrary: x)
  case (Suc n)
  then show ?case using Suc.IH[of "x div 256"] by auto
qed auto

lemma ucast_u64: "(ucast (a :: ('a::len) word) :: u64) = of_nat (unat a)"
  by simp

lemma unat_ucast_u8: "unat (ucast (a :: ('a::len) word) :: u8) = unat a mod 256"
  by (simp add: unsigned_ucast_eq take_bit_eq_mod)

lemma be_bytes_value:
  fixes x :: address
  shows "u64_from_be_bytes (be_bytes n x) 0 = of_nat (unat x mod 256 ^ n)"
proof (induction n arbitrary: x)
  case (Suc n)
  have "(256 :: address) = of_nat 256" by simp
  then have "unat (x div 256) = unat x div 256" by (simp add: unat_div_distrib)
  moreover have "(ucast (ucast x :: u8) :: u64) = of_nat (unat x mod 256)"
    using ucast_u64[of "ucast x :: u8"] unat_ucast_u8[of x] by metis
  ultimately show ?case
    by (simp add: u64_from_be_bytes_snoc Suc.IH mod_mult2_eq mult.commute)
qed simp

text \<open>
  The hash of an address is its lowest 64 bits: what \<open>AddressHasher\<close> keeps of the twenty
  big-endian bytes of an address is the address truncated to \<open>u64\<close>.
\<close>

lemma address_hash:
  fixes a :: address
  shows "map_sum id address_hasher_finish (address_hasher_write h (be_bytes 20 a)) = Inr (ucast a)"
proof -
  obtain y :: address where y: "be_bytes (12 + 8) a = be_bytes 12 y @ be_bytes 8 a"
    using drop_be_bytes[of 12 8 a] by blast
  have "(of_nat (unat a mod 256 ^ 8) :: u64) = ucast a"
    unfolding ucast_u64 word_of_nat_eq_iff by (simp add: take_bit_eq_mod)
  then show ?thesis
    using y be_bytes_value[of 8 a] by (simp add: address_hasher_write_def address_hasher_finish_def)
qed

end
