(* ===== verification/Primitives_Props.thy ===== *)
theory Primitives_Props
  imports Primitives
begin

text \<open>
  Properties of the conversions of \<open>Primitives\<close>: the hard fork of a block is the latest that is active,
  a transaction is converted exactly when it has what its type needs, without losing
  any of its gas, and a block of transactions fails at the first one that does not convert.
\<close>

section \<open>The order of the hard forks\<close>

fun spec_index :: "spec_id \<Rightarrow> nat" where
  "spec_index FRONTIER = 0" | "spec_index HOMESTEAD = 1" | "spec_index TANGERINE = 2"
| "spec_index SPURIOUS_DRAGON = 3" | "spec_index BYZANTIUM = 4" | "spec_index PETERSBURG = 5"
| "spec_index ISTANBUL = 6" | "spec_index BERLIN = 7" | "spec_index LONDON = 8"
| "spec_index MERGE = 9" | "spec_index SHANGHAI = 10" | "spec_index CANCUN = 11"

lemma spec_index_inject: "spec_index a = spec_index b \<Longrightarrow> a = b"
  by (cases a; cases b) simp_all

instantiation spec_id :: linorder
begin

definition less_eq_spec_id :: "spec_id \<Rightarrow> spec_id \<Rightarrow> bool" where
  "less_eq_spec_id a b \<longleftrightarrow> spec_index a \<le> spec_index b"

definition less_spec_id :: "spec_id \<Rightarrow> spec_id \<Rightarrow> bool" where
  "less_spec_id a b \<longleftrightarrow> spec_index a < spec_index b"

instance
  by standard (auto simp: less_eq_spec_id_def less_spec_id_def dest: spec_index_inject)

end

text \<open>
  When a hard fork is active at a block: from a block number on before the merge, from a total
  difficulty of the parent on for the merge, and from a timestamp on afterwards. These are the
  activation points of the Ethereum main network.
\<close>

fun fork_number :: "spec_id \<Rightarrow> nat option" where
  "fork_number FRONTIER = Some 0" | "fork_number HOMESTEAD = Some 1150000"
| "fork_number TANGERINE = Some 2463000" | "fork_number SPURIOUS_DRAGON = Some 2675000"
| "fork_number BYZANTIUM = Some 4370000" | "fork_number PETERSBURG = Some 7280000"
| "fork_number ISTANBUL = Some 9069000" | "fork_number BERLIN = Some 12244000"
| "fork_number LONDON = Some 12965000" | "fork_number _ = None"

fun fork_timestamp :: "spec_id \<Rightarrow> nat option" where
  "fork_timestamp SHANGHAI = Some 1681338455"
| "fork_timestamp CANCUN = Some 1710338135"
| "fork_timestamp _ = None"

definition parent_difficulty :: "header \<Rightarrow> nat option" where
  "parent_difficulty h = map_option (\<lambda>td. unat td - unat (hd_difficulty h)) (hd_total_difficulty h)"

definition fork_active :: "header \<Rightarrow> spec_id \<Rightarrow> bool" where
  "fork_active h f \<longleftrightarrow>
     (\<exists>t. fork_timestamp f = Some t \<and> t \<le> unat (hd_timestamp h)) \<or>
     (\<exists>d. f = MERGE \<and> parent_difficulty h = Some d \<and> 58750000000000000000000 \<le> d) \<or>
     (\<exists>b n. fork_number f = Some b \<and> hd_number h = Some n \<and> b \<le> unat n)"

text \<open>The fields that a header needs for the question to be decided.\<close>

definition fork_known :: "header \<Rightarrow> bool" where
  "fork_known h \<longleftrightarrow> fork_active h SHANGHAI \<or>
     parent_difficulty h \<noteq> None \<and> (fork_active h MERGE \<or> hd_number h \<noteq> None)"

lemma all_specs: "(\<forall>f. P f) \<longleftrightarrow> P FRONTIER \<and> P HOMESTEAD \<and> P TANGERINE \<and> P SPURIOUS_DRAGON \<and> P BYZANTIUM \<and>
    P PETERSBURG \<and> P ISTANBUL \<and> P BERLIN \<and> P LONDON \<and> P MERGE \<and> P SHANGHAI \<and> P CANCUN"
    (is "?l \<longleftrightarrow> ?r")
proof
  assume r: ?r
  show ?l
  proof
    fix f show "P f" by (cases f) (use r in simp_all)
  qed
qed simp

text \<open>
  C39. The hard fork of a block is the latest one that is active at it: \<open>get_block_spec\<close> answers a hard
  fork exactly when the header has the fields that decide it, and the answer is active and no
  later one is.
\<close>

theorem block_spec_latest:
  "get_block_spec h = Some spec \<longleftrightarrow>
     fork_known h \<and> fork_active h spec \<and> (\<forall>f. fork_active h f \<longrightarrow> f \<le> spec)"
  unfolding all_specs less_eq_spec_id_def
  by (cases spec; cases "hd_total_difficulty h"; cases "hd_number h")
    (simp_all add: get_block_spec_def fork_active_def fork_known_def parent_difficulty_def word_le_nat_alt
      unat_saturating_sub, linarith?)

definition sample_header :: "u64 \<Rightarrow> u64 \<Rightarrow> header" where
  "sample_header n t =
     \<lparr>hd_number = Some n, hd_timestamp = t, hd_miner = 9, hd_gas_limit = 0, hd_gas_used = 0,
      hd_base_fee_per_gas = None, hd_difficulty = 1, hd_total_difficulty = Some 10, hd_mix_hash = None,
      hd_excess_blob_gas = None\<rparr>"

theorem block_spec_latest_witness:
  "get_block_spec (sample_header 4400000 5) = Some BYZANTIUM \<and>
   get_block_spec (sample_header 17100000 1681338500) = Some SHANGHAI"
  unfolding block_spec_latest all_specs
  by (simp add: fork_known_def fork_active_def parent_difficulty_def sample_header_def less_eq_spec_id_def)

section \<open>Transactions\<close>

text \<open>The price field that goes with the type of a transaction.\<close>

definition price_field :: "transaction \<Rightarrow> u128 option" where
  "price_field tx =
     (case tr_transaction_type tx of
        None \<Rightarrow> None
      | Some ty \<Rightarrow> if ty \<le> 1 then tr_gas_price tx else if ty \<le> 3 then tr_max_fee_per_gas tx else None)"

lemma small_types: "(ty :: u8) \<le> 1 \<longleftrightarrow> ty = 0 \<or> ty = 1" "(ty :: u8) \<le> 3 \<longleftrightarrow> ty = 0 \<or> ty = 1 \<or> ty = 2 \<or> ty = 3"
proof -
  have "unat ty \<le> 1 \<longleftrightarrow> unat ty = unat (0 :: u8) \<or> unat ty = unat (1 :: u8)"
    "unat ty \<le> 3 \<longleftrightarrow> unat ty = unat (0 :: u8) \<or> unat ty = unat (1 :: u8) \<or> unat ty = unat (2 :: u8) \<or> unat ty = unat (3 :: u8)"
    by auto
  then show "ty \<le> 1 \<longleftrightarrow> ty = 0 \<or> ty = 1" "ty \<le> 3 \<longleftrightarrow> ty = 0 \<or> ty = 1 \<or> ty = 2 \<or> ty = 3"
    unfolding word_unat_eq_iff by (simp_all add: word_le_nat_alt)
qed

text \<open>
  C40. A transaction converts exactly when its gas limit fits into 64 bits and it has the price field
  its type asks for, and then no number is truncated: gas limit, price, priority fee and blob
  fee are the numbers of the transaction.
\<close>

theorem tx_env_exact:
  "((\<exists>env. get_tx_env tx = Inr (Inr env)) \<longleftrightarrow> unat (tr_gas tx) < 2 ^ 64 \<and> price_field tx \<noteq> None) \<and>
   (\<forall>env. get_tx_env tx = Inr (Inr env) \<longrightarrow>
     unat (gas_limit env) = unat (tr_gas tx) \<and>
     Some (unat (gas_price env)) = map_option unat (price_field tx) \<and>
     map_option unat (gas_priority_fee env) = map_option unat (tr_max_priority_fee_per_gas tx) \<and>
     map_option unat (max_fee_per_blob_gas env) = map_option unat (tr_max_fee_per_blob_gas tx))"
proof -
  have price: "tx_gas_price tx = Inr (Inr p) \<longleftrightarrow> (\<exists>q. price_field tx = Some q \<and> p = ucast q)" for p
    by (auto simp: tx_gas_price_def price_field_def small_types split: option.splits)
  have "(\<exists>p. tx_gas_price tx = Inr (Inr p)) \<longleftrightarrow> price_field tx \<noteq> None" using price by auto
  then have iff: "(\<exists>env. get_tx_env tx = Inr (Inr env)) \<longleftrightarrow> unat (tr_gas tx) < 2 ^ 64 \<and> price_field tx \<noteq> None"
    by (auto simp: get_tx_env_def split: sum.splits)
  have up: "unat (ucast (x :: u128) :: u256) = unat x" for x
  proof -
    have "unat x < 2 ^ 256" using unsigned_less[of x] by (rule order_less_trans) simp
    then show ?thesis by (simp add: unsigned_ucast_eq take_bit_nat_eq_self)
  qed
  have "unat (gas_limit env) = unat (tr_gas tx) \<and>
     Some (unat (gas_price env)) = map_option unat (price_field tx) \<and>
     map_option unat (gas_priority_fee env) = map_option unat (tr_max_priority_fee_per_gas tx) \<and>
     map_option unat (max_fee_per_blob_gas env) = map_option unat (tr_max_fee_per_blob_gas tx)"
    if run: "get_tx_env tx = Inr (Inr env)" for env
  proof -
    obtain p where fits: "unat (tr_gas tx) < 2 ^ 64" and p: "tx_gas_price tx = Inr (Inr p)"
      and env: "gas_limit env = ucast (tr_gas tx)" "gas_price env = p"
        "gas_priority_fee env = map_option ucast (tr_max_priority_fee_per_gas tx)"
        "max_fee_per_blob_gas env = map_option ucast (tr_max_fee_per_blob_gas tx)"
      using run by (auto simp: get_tx_env_def not_le split: if_splits sum.splits)
    have "unat (ucast (tr_gas tx) :: u64) = unat (tr_gas tx)"
      using fits by (simp add: unsigned_ucast_eq take_bit_nat_eq_self)
    moreover obtain q where "price_field tx = Some q" "p = ucast q" using p price by auto
    ultimately show ?thesis by (simp add: env up option.map_comp comp_def)
  qed
  with iff show ?thesis by blast
qed

definition sample_tx :: transaction where
  "sample_tx =
     \<lparr>tr_from = 1, tr_to = Some 2, tr_gas = 21000, tr_transaction_type = Some 2, tr_gas_price = None,
      tr_max_fee_per_gas = Some 7, tr_max_priority_fee_per_gas = Some 1, tr_value = 3, tr_input = [],
      tr_nonce = 0, tr_chain_id = None, tr_access_list = None, tr_blob_versioned_hashes = None,
      tr_max_fee_per_blob_gas = None\<rparr>"

theorem tx_env_exact_witness:
  "case get_tx_env sample_tx of Inr (Inr env) \<Rightarrow> unat (gas_limit env) = 21000 | _ \<Rightarrow> False"
proof -
  obtain env where "get_tx_env sample_tx = Inr (Inr env)"
    by (simp add: get_tx_env_def sample_tx_def tx_gas_price_def)
  with tx_env_exact[of sample_tx] show ?thesis by (simp add: sample_tx_def)
qed

lemma ex_append_Cons:
  "(\<exists>pre x post. y # ys = pre @ x # post \<and> P x \<and> list_all Q pre) \<longleftrightarrow>
   P y \<or> Q y \<and> (\<exists>pre x post. ys = pre @ x # post \<and> P x \<and> list_all Q pre)" (is "?l \<longleftrightarrow> ?r")
proof
  assume ?l
  then obtain pre x post where "y # ys = pre @ x # post" "P x" "list_all Q pre" by blast
  then show ?r by (cases pre) auto
next
  assume ?r
  then show ?l
  proof (elim disjE conjE exE)
    assume "P y"
    then show ?l by (intro exI[of _ "[]"]) auto
  next
    fix pre x post assume "Q y" "ys = pre @ x # post" "P x" "list_all Q pre"
    then show ?l by (intro exI[of _ "y # pre"]) auto
  qed
qed

text \<open>
  The transactions of a block convert to the list of their environments, in order, when all of
  them convert; otherwise the error or panic is that of the first one that does not.
\<close>

lemma tx_envs_panic:
  assumes "list_all (\<lambda>t. \<exists>env. get_tx_env t = Inr (Inr env)) pre" and "get_tx_env tx = Inl p"
  shows "get_tx_envs (pre @ tx # post) = Inl p"
  using assms by (induction pre) auto

lemma tx_envs_first_error:
  "(get_tx_envs ts = Inr (Inr envs) \<longleftrightarrow> list_all2 (\<lambda>tx env. get_tx_env tx = Inr (Inr env)) ts envs) \<and>
   (get_tx_envs ts = Inr (Inl e) \<longleftrightarrow>
     (\<exists>pre tx post. ts = pre @ tx # post \<and> get_tx_env tx = Inr (Inl e) \<and>
        list_all (\<lambda>t. \<exists>env. get_tx_env t = Inr (Inr env)) pre))"
proof
  show "get_tx_envs ts = Inr (Inr envs) \<longleftrightarrow> list_all2 (\<lambda>tx env. get_tx_env tx = Inr (Inr env)) ts envs"
  proof (induction ts arbitrary: envs)
    case (Cons tx ts)
    show ?case by (cases envs) (auto simp: Cons.IH[symmetric] split: sum.splits)
  qed auto
  show "get_tx_envs ts = Inr (Inl e) \<longleftrightarrow>
     (\<exists>pre tx post. ts = pre @ tx # post \<and> get_tx_env tx = Inr (Inl e) \<and>
        list_all (\<lambda>t. \<exists>env. get_tx_env t = Inr (Inr env)) pre)"
  proof (induction ts)
    case (Cons tx ts)
    have step: "get_tx_envs (tx # ts) = Inr (Inl e) \<longleftrightarrow> get_tx_env tx = Inr (Inl e) \<or>
        (\<exists>env. get_tx_env tx = Inr (Inr env)) \<and> get_tx_envs ts = Inr (Inl e)"
      by (auto split: sum.splits)
    show ?case unfolding step Cons.IH by (rule ex_append_Cons[symmetric])
  qed simp
qed

end
