(* ===== verification/Preprocess_Props.thy ===== *)
theory Preprocess_Props
  imports Pevm Waiting
begin

text \<open>
  Properties of \<open>preprocess_dependencies\<close>: it always returns, the scheduler it builds is
  consistent, and transactions of one sender wait for each other in the order of the block.
\<close>

section \<open>The initial scheduler\<close>

text \<open>
  C19. Preprocessing never panics. When it does not fall back to sequential execution, the scheduler
  satisfies the invariant with every transaction ready or waiting, no transaction is subject to
  validation yet, and at least two workers are allowed.
\<close>

theorem preprocess_consistent:
  "\<exists>r. preprocess_dependencies b ts = Inr r \<and>
     (\<forall>s0 limit. r = Some (s0, limit) \<longrightarrow>
        initial_scheduler (length ts) s0 \<and> min_validation_idx s0 = length ts \<and> 2 \<le> limit)"
  using preprocess_returns[of b ts] preprocess_initial[of b ts] by fastforce

definition two_senders :: "tx_env list" where
  "two_senders = map (\<lambda>(a, v).
     \<lparr>caller = a, gas_limit = 21000, gas_price = 1, gas_priority_fee = None, transact_to = Call 5,
      tx_value = v, tx_data = [], tx_nonce = None, tx_chain_id = None, access_list = [],
      blob_hashes = [], max_fee_per_blob_gas = None\<rparr>) [(1, 3), (2, 0), (1, 4), (3, 1)]"

lemma two_senders_run:
  "case preprocess_dependencies 9 two_senders of
     Inr (Some (s, l)) \<Rightarrow> transactions_dependents s = [[2], [], [], []] \<and> l = 2 | _ \<Rightarrow> False"
  by code_simp

theorem preprocess_consistent_witness:
  "\<exists>s0. preprocess_dependencies 9 two_senders = Inr (Some (s0, 2)) \<and> initial_scheduler 4 s0"
proof -
  obtain s0 where s0: "preprocess_dependencies 9 two_senders = Inr (Some (s0, 2))"
    using two_senders_run by (auto split: sum.splits option.splits prod.splits)
  moreover have "length two_senders = 4" by (simp add: two_senders_def)
  ultimately show ?thesis using preprocess_consistent[of 9 two_senders] by auto
qed

section \<open>Transactions of one sender\<close>

text \<open>
  C18. Transactions of one sender are executed in the order of the block: in the scheduler that
  preprocessing builds, the later one waits for the earlier one, directly or through other
  transactions.
\<close>

theorem same_sender_ordered:
  assumes pre: "preprocess_dependencies b ts = Inr (Some (s0, limit))" and "j < t" and "t < length ts"
    and "caller (ts ! j) = caller (ts ! t)"
  shows "(j, t) \<in> (wait_rel (length ts) s0)\<^sup>+"
  by (rule sender_waits[OF preprocess_waits[OF pre] assms(2-)])

theorem same_sender_ordered_witness:
  "\<exists>s0 limit. preprocess_dependencies 9 two_senders = Inr (Some (s0, limit)) \<and>
     (0, 2) \<in> (wait_rel 4 s0)\<^sup>+"
proof -
  obtain s0 limit where s0: "preprocess_dependencies 9 two_senders = Inr (Some (s0, limit))"
    using two_senders_run by (auto split: sum.splits option.splits prod.splits)
  have "length two_senders = 4" "caller (two_senders ! 0) = caller (two_senders ! 2)"
    by (simp_all add: two_senders_def)
  then show ?thesis using same_sender_ordered[OF s0, of 0 2] s0 by auto
qed

end
