(* ===== verification/Pevm_Props.thy ===== *)
theory Pevm_Props
  imports Examples Preprocess_Props Primitives_Props
begin

text \<open>
  Properties of block execution: the evaluation of lazily updated accounts agrees with what a
  transaction reads, the gas of the receipts is the running sum, sequential execution stops at the
  first error, \<open>execute_revm\<close> returns one result per transaction, and \<open>execute\<close> rejects
  a block with the right error.
\<close>

section \<open>Lazy evaluation\<close>

text \<open>The account after a sequence of entries, as \<open>eval_history\<close> accumulates it.\<close>

fun eval_entries :: "memory_entry btree \<Rightarrow> account_basic \<Rightarrow> account_basic panics" where
  "eval_entries [] acc = Inr acc"
| "eval_entries ((i, e) # es) acc =
     (case eval_entry e acc of Inl p \<Rightarrow> Inl p | Inr acc' \<Rightarrow> eval_entries es acc')"

lemma eval_entries_append:
  "eval_entries (xs @ ys) acc =
     (case eval_entries xs acc of Inl p \<Rightarrow> Inl p | Inr acc' \<Rightarrow> eval_entries ys acc')"
  by (induction xs acc rule: eval_entries.induct) (auto split: sum.splits)

lemma eval_entries_returns:
  "\<forall>(i, e) \<in> set es. account_entry e \<Longrightarrow> \<exists>acc'. eval_entries es acc = Inr acc'"
proof (induction es acc rule: eval_entries.induct)
  case (2 i e es acc)
  then have "account_entry e" by simp
  then obtain acc' where "eval_entry e acc = Inr acc'" using eval_entry_returns by blast
  then show ?case using 2 by auto
qed simp

lemma eval_history_effect:
  assumes "eval_history a es acc rs = Inr rs'" and "btree_inv es"
  shows "length rs' = length rs \<and> (\<forall>i. i \<notin> fst ` set es \<longrightarrow> rs' ! i = rs ! i) \<and>
    (\<forall>i e. (i, e) \<in> set es \<longrightarrow>
       (\<exists>acc'. eval_entries (filter (\<lambda>(k, _). k \<le> i) es) acc = Inr acc' \<and> rs' ! i = set_account a acc' (rs ! i)))"
  using assms
proof (induction a es acc rs arbitrary: rs' rule: eval_history.induct)
  case (2 a k x es acc rs)
  have k: "\<forall>y \<in> fst ` set es. k < y" and inv: "btree_inv es" using "2.prems"(2) by (auto simp: btree_inv_def)
  obtain acc' where acc': "eval_entry x acc = Inr acc'" and kl: "k < length rs"
    and rest: "eval_history a es acc' (rs[k := set_account a acc' (rs ! k)]) = Inr rs'"
    using "2.prems"(1) by (auto simp: vec_get_def split: sum.splits if_splits)
  have IH: "length rs' = length rs"
    "\<And>i. i \<notin> fst ` set es \<Longrightarrow> rs' ! i = rs[k := set_account a acc' (rs ! k)] ! i"
    "\<And>i e. (i, e) \<in> set es \<Longrightarrow> \<exists>acc2. eval_entries (filter (\<lambda>(k, _). k \<le> i) es) acc' = Inr acc2 \<and>
       rs' ! i = set_account a acc2 (rs[k := set_account a acc' (rs ! k)] ! i)"
    using "2.IH"[OF acc' vec_get_Inr[OF kl] rest inv] by auto
  have none: "filter (\<lambda>(j, _). j \<le> k) es = []" using k by (auto simp: filter_empty_conv)
  show ?case
  proof (intro conjI allI impI)
    show "length rs' = length rs" by (rule IH(1))
    show "rs' ! i = rs ! i" if "i \<notin> fst ` set ((k, x) # es)" for i using IH(2)[of i] that by simp
    fix i e assume ie: "(i, e) \<in> set ((k, x) # es)"
    show "\<exists>acc2. eval_entries (filter (\<lambda>(j, _). j \<le> i) ((k, x) # es)) acc = Inr acc2 \<and>
        rs' ! i = set_account a acc2 (rs ! i)"
    proof (cases "i = k")
      case True
      have "k \<notin> fst ` set es" using k by auto
      then show ?thesis using True IH(2)[of k] acc' kl none by simp
    next
      case False
      then have mem: "(i, e) \<in> set es" using ie by simp
      then have "k < i" using k by force
      then show ?thesis using IH(3)[OF mem] acc' by auto
    qed
  qed
qed auto

lemma set_account_state:
  "hm_get (tx_state (set_account a acc r)) c =
     (if c = a then Some (eval_account acc (case hm_get (tx_state r) a of Some old \<Rightarrow> old | None \<Rightarrow> None))
      else hm_get (tx_state r) c)"
  by (simp add: set_account_def hm_get_insert)

text \<open>
  What the state of a transaction says of an account with evaluated balance and nonce: an
  empty account is marked as removed; another one has that balance and nonce, and keeps the code and
  the slots the transaction itself wrote.
\<close>

definition account_after :: "account_basic \<Rightarrow> evm_account option \<Rightarrow> evm_account option \<Rightarrow> bool" where
  "account_after acc old new \<longleftrightarrow>
     (case new of
        None \<Rightarrow> balance acc = 0 \<and> nonce acc = 0 \<and> code acc = None
      | Some y \<Rightarrow> \<not> (balance acc = 0 \<and> nonce acc = 0 \<and> code acc = None) \<and>
          balance (basic y) = balance acc \<and> nonce (basic y) = nonce acc \<and>
          (case old of
             None \<Rightarrow> code (basic y) = code acc \<and> code_hash (basic y) = code_hash acc \<and> storage y = []
           | Some z \<Rightarrow> code (basic y) = code (basic z) \<and> code_hash (basic y) = code_hash (basic z) \<and>
               storage y = storage z))"

lemma eval_account_after: "account_after acc old (eval_account acc old)"
  by (auto simp: account_after_def eval_account_def is_empty_def split: option.splits)

text \<open>
  The account after a sequence of entries, in closed form: the last full write, or the account at
  the start, with the additions since then added to its balance.
\<close>

fun full_write :: "memory_entry \<Rightarrow> account_info option" where
  "full_write (Data n (ValBasic i)) = Some i"
| "full_write _ = None"

fun addition :: "memory_entry \<Rightarrow> u256" where
  "addition (Data n (LazyBalanceAddition b)) = b"
| "addition _ = 0"

definition account_upto :: "memory_entry list \<Rightarrow> account_basic \<Rightarrow> account_basic" where
  "account_upto es acc =
     (let since = takeWhile (\<lambda>e. full_write e = None) (rev es);
          start = (case dropWhile (\<lambda>e. full_write e = None) (rev es) of
                     [] \<Rightarrow> (balance acc, nonce acc)
                   | e # _ \<Rightarrow> (info_balance (the (full_write e)), info_nonce (the (full_write e))))
      in acc\<lparr>balance := fst start + sum_list (map addition since), nonce := snd start\<rparr>)"

lemma account_upto_snoc:
  "account_upto (es @ [e]) acc =
     (case full_write e of
        Some i \<Rightarrow> acc\<lparr>balance := info_balance i, nonce := info_nonce i\<rparr>
      | None \<Rightarrow> (account_upto es acc)\<lparr>balance := balance (account_upto es acc) + addition e\<rparr>)"
  by (auto simp: account_upto_def Let_def algebra_simps split: option.splits)

lemma account_upto_rest:
  "code (account_upto es acc) = code acc \<and> code_hash (account_upto es acc) = code_hash acc"
  by (simp add: account_upto_def Let_def)

lemma eval_entries_closed: "eval_entries es acc = Inr acc' \<Longrightarrow> acc' = account_upto (map snd es) acc"
proof (induction es arbitrary: acc' rule: rev_induct)
  case (snoc x es)
  obtain i e where x: "x = (i, e)" by (cases x)
  obtain acc1 where acc1: "eval_entries es acc = Inr acc1" "eval_entry e acc1 = Inr acc'"
    using snoc.prems x by (auto simp: eval_entries_append split: sum.splits)
  have "acc1 = account_upto (map snd es) acc" by (rule snoc.IH[OF acc1(1)])
  then show ?case using acc1(2) account_upto_rest[of "map snd es" acc] x
    by (cases e rule: full_write.cases) (auto simp: account_upto_snoc)
qed (simp add: account_upto_def)

text \<open>
  C13. The state that the end of the block gives to a lazily updated account: every result whose
  transaction wrote the account holds the account after all entries up to that transaction, which is
  the last full write among them (or the account at the start) plus the lazy additions since; its receipt and
  the other accounts of its state are kept, and no other result changes.
\<close>

theorem lazy_accounts_final:
  assumes "eval_history a es acc rs = Inr rs'" and "btree_inv es" and "i < length rs"
  shows "((\<exists>e. (i, e) \<in> set es) \<longrightarrow>
      (\<exists>new. hm_get (tx_state (rs' ! i)) a = Some new \<and>
         account_after (account_upto (map snd (filter (\<lambda>(k, _). k \<le> i) es)) acc)
           (case hm_get (tx_state (rs ! i)) a of Some old \<Rightarrow> old | None \<Rightarrow> None) new \<and>
         (\<forall>c. c \<noteq> a \<longrightarrow> hm_get (tx_state (rs' ! i)) c = hm_get (tx_state (rs ! i)) c)) \<and>
      tx_receipt (rs' ! i) = tx_receipt (rs ! i)) \<and>
    ((\<nexists>e. (i, e) \<in> set es) \<longrightarrow> rs' ! i = rs ! i) \<and> length rs' = length rs"
proof (intro conjI impI)
  note E = eval_history_effect[OF assms(1,2)]
  show "length rs' = length rs" using E by blast
  show "rs' ! i = rs ! i" if "\<nexists>e. (i, e) \<in> set es"
  proof -
    have "i \<notin> fst ` set es" using that by force
    then show ?thesis using E by blast
  qed
  assume "\<exists>e. (i, e) \<in> set es"
  then obtain acc' where acc': "eval_entries (filter (\<lambda>(k, _). k \<le> i) es) acc = Inr acc'"
    "rs' ! i = set_account a acc' (rs ! i)" using E by blast
  show "tx_receipt (rs' ! i) = tx_receipt (rs ! i)" by (simp add: acc'(2) set_account_def)
  show "\<exists>new. hm_get (tx_state (rs' ! i)) a = Some new \<and>
      account_after (account_upto (map snd (filter (\<lambda>(k, _). k \<le> i) es)) acc)
        (case hm_get (tx_state (rs ! i)) a of Some old \<Rightarrow> old | None \<Rightarrow> None) new \<and>
      (\<forall>c. c \<noteq> a \<longrightarrow> hm_get (tx_state (rs' ! i)) c = hm_get (tx_state (rs ! i)) c)"
    using eval_entries_closed[OF acc'(1)] by (simp add: acc'(2) set_account_state eval_account_after)
qed

definition two_entries :: "memory_entry btree" where
  "two_entries = [(0, Data 0 (LazyBalanceAddition 4)), (2, Data 1 (LazyBalanceAddition 3))]"

definition blank_result :: pevm_tx_execution_result where
  "blank_result = \<lparr>tx_receipt = \<lparr>receipt_status = True, cumulative_gas_used = 7, logs = []\<rparr>, tx_state = []\<rparr>"

theorem lazy_accounts_final_witness:
  "\<exists>rs'. eval_history 5 two_entries account_basic_default (replicate 3 blank_result) = Inr rs' \<and>
     hm_get (tx_state (rs' ! 2)) 5 = Some (Some (with_balance 7)) \<and> rs' ! 1 = blank_result"
proof -
  obtain rs' where run: "eval_history 5 two_entries account_basic_default (replicate 3 blank_result) = Inr rs'"
    using eval_history_returns[of two_entries "replicate 3 blank_result" 5 account_basic_default]
    by (auto simp: two_entries_def)
  have inv: "btree_inv two_entries" by (simp add: btree_inv_def two_entries_def)
  have "rs' ! 1 = blank_result"
    using lazy_accounts_final[OF run inv, of 1] by (simp add: two_entries_def)
  moreover have "hm_get (tx_state (rs' ! 2)) 5 = Some (Some (with_balance 7))"
    using lazy_accounts_final[OF run inv, of 2]
    by (auto simp: two_entries_def blank_result_def account_basic_default_def with_balance_def account_upto_def
        evm_account_of_basic_def account_after_def intro!: evm_account.equality account_basic.equality
        split: option.splits)
  ultimately show ?thesis using run by blast
qed

text \<open>
  What the reads rely on from \<open>revm\<close>: the account made from a balance has that balance and nonce zero.
\<close>

definition from_balance_law :: "revm \<Rightarrow> bool" where
  "from_balance_law rv \<longleftrightarrow>
     (\<forall>b. info_balance (info_from_balance rv b) = b \<and> info_nonce (info_from_balance rv b) = 0)"

lemma eval_lazy_entries:
  assumes "eval_lazy c i [] ws cur new add = Inr (x, new', add')" and "eval_entries (rev ws) acc0 = Inr acc"
  shows "case x of
      Some ai \<Rightarrow> info_balance ai = balance acc + add \<and> info_nonce ai = nonce acc
    | None \<Rightarrow> balance acc0 + add' = balance acc + add \<and> nonce acc = nonce acc0"
  using assms
proof (induction c i "[] :: read_origin list" ws cur new add arbitrary: acc rule: eval_lazy.induct)
  case (3 c i closest n val rest cur new add)
  obtain acc1 where acc1: "eval_entries (rev rest) acc0 = Inr acc1" "eval_entry (Data n val) acc1 = Inr acc"
    using 3(3) by (auto simp: eval_entries_append split: sum.splits)
  show ?case
  proof (cases val)
    case (LazyBalanceAddition v)
    then have "eval_lazy c i [] rest closest (new @ [OriginMvMemory \<lparr>ver_idx = closest, ver_incarnation = n\<rparr>])
        (add + v) = Inr (x, new', add')" "\<not> (c \<and> closest \<noteq> cur - 1)"
      using 3(2) by (auto simp: Let_def split: if_splits)
    then have "case x of
        Some ai \<Rightarrow> info_balance ai = balance acc1 + (add + v) \<and> info_nonce ai = nonce acc1
      | None \<Rightarrow> balance acc0 + add' = balance acc1 + (add + v) \<and> nonce acc1 = nonce acc0"
      using 3(1)[OF _ _ refl _ LazyBalanceAddition _ acc1(1)] by auto
    then show ?thesis using acc1(2) LazyBalanceAddition by (auto simp: algebra_simps split: option.splits)
  qed (use 3(2) acc1(2) in \<open>auto simp: Let_def split: if_splits\<close>)
qed (auto split: if_splits)

text \<open>
  C12. Reading an account and evaluating it agree. On entries that are values of accounts, a read by
  transaction \<open>j\<close>, which walks back from the closest entry and adds up the lazy additions, finds the balance
  and nonce that the evaluation at the end of the block, which walks forward from the storage,
  has after the entries below \<open>j\<close>; it finds no account only where these are zero.
\<close>

theorem reads_agree_with_evaluation:
  assumes "from_balance_law rv" and "read_location l m = Some es" and "\<forall>(i, e) \<in> set es. account_entry e"
    and "read_basic rv vm m j a l [] = Inr (r, os)"
  shows "\<exists>acc. eval_entries (filter (\<lambda>(i, _). i < j) es) (current_account (vm_storage vm) a) = Inr acc \<and>
    (case r of
       Some ai \<Rightarrow> info_balance ai = balance acc \<and> info_nonce ai = nonce acc
     | None \<Rightarrow> balance acc = 0 \<and> nonce acc = 0)"
proof -
  let ?es = "filter (\<lambda>(i, _). i < j) es" and ?acc0 = "current_account (vm_storage vm) a"
  obtain acc where acc: "eval_entries ?es ?acc0 = Inr acc"
    using eval_entries_returns[of ?es ?acc0] assms(3) by fastforce
  obtain x new add where mv: "read_mv_basic vm m j l [] = Inr (x, new, add)"
    using assms(4) by (auto simp: read_basic_def split: sum.splits)
  have "case x of
      Some ai \<Rightarrow> info_balance ai = balance acc + 0 \<and> info_nonce ai = nonce acc
    | None \<Rightarrow> balance ?acc0 + add = balance acc + 0 \<and> nonce acc = nonce ?acc0"
  proof (cases "j = 0")
    case True
    then show ?thesis using mv acc by (auto simp: read_mv_basic_def)
  next
    case False
    then have "eval_lazy (l = beneficiary_location_hash vm) j [] (rev ?es) j [] 0 = Inr (x, new, add)"
      using mv assms(2) by (simp add: read_mv_basic_def Let_def btree_range_back_def)
    from eval_lazy_entries[OF this, of ?acc0 acc] acc show ?thesis by simp
  qed
  moreover have "case r of
      Some ai \<Rightarrow> info_balance ai = balance ?acc0 + add \<and> info_nonce ai = nonce ?acc0
    | None \<Rightarrow> balance ?acc0 + add = 0 \<and> nonce ?acc0 = 0" if "x = None"
    using assms(1,4) mv that
    by (auto simp: read_basic_def read_storage_basic_def current_account_def info_of_basic_def Let_def
        from_balance_law_def account_basic_default_def word_gt_0 split: sum.splits option.splits if_splits)
  moreover have "r = x" if "x \<noteq> None" using assms(4) mv that by (auto simp: read_basic_def)
  ultimately show ?thesis using acc by (cases x) (auto split: option.splits)
qed

text \<open>The recipient of the first two transfers of the racing block, as the third transaction reads it.\<close>

definition ex_lazy_memory :: mv_memory where
  "ex_lazy_memory = \<lparr>mv_data = [4 \<mapsto> [(0, Data 0 (LazyBalanceAddition 10)), (1, Data 0 (LazyBalanceAddition 5))]],
     mv_last = []\<rparr>"

lemma ex_from_balance: "from_balance_law ex_revm"
  by (simp add: from_balance_law_def ex_revm_def)

theorem reads_agree_with_evaluation_witness:
  "\<exists>ai os. read_basic ex_revm (ex_vm ex_race) ex_lazy_memory 2 2 4 [] = Inr (Some ai, os) \<and> info_balance ai = 115"
proof -
  have loc: "read_location 4 ex_lazy_memory =
      Some [(0, Data 0 (LazyBalanceAddition 10)), (1, Data 0 (LazyBalanceAddition 5))]"
    by (simp add: read_location_def ex_lazy_memory_def)
  have "case read_basic ex_revm (ex_vm ex_race) ex_lazy_memory 2 2 4 [] of Inr (Some _, _) \<Rightarrow> True | _ \<Rightarrow> False"
    by code_simp
  then obtain ai os where r: "read_basic ex_revm (ex_vm ex_race) ex_lazy_memory 2 2 4 [] = Inr (Some ai, os)"
    by (auto split: sum.splits prod.splits option.splits)
  have st: "balance (current_account (vm_storage (ex_vm ex_race)) 2) = 100" by code_simp
  show ?thesis
    using reads_agree_with_evaluation[OF ex_from_balance loc _ r] r st by auto
qed

section \<open>Gas and sequential execution\<close>

text \<open>
  C32. The gas of the receipts is the running sum: after accumulation, the receipt of each transaction
  holds the gas of all transactions up to it (modulo the width of the counter), and nothing else
  of a result changes.
\<close>

theorem cumulative_gas:
  assumes "cumulate c rs = Inr rs'" and "i < length rs"
  shows "length rs' = length rs \<and>
    cumulative_gas_used (tx_receipt (rs' ! i)) =
      c + sum_list (map (\<lambda>r. cumulative_gas_used (tx_receipt (the r))) (take (Suc i) rs)) \<and>
    tx_state (rs' ! i) = tx_state (the (rs ! i)) \<and>
    logs (tx_receipt (rs' ! i)) = logs (tx_receipt (the (rs ! i)))"
  using assms
proof (induction c rs arbitrary: rs' i rule: cumulate.induct)
  case (3 c r rs)
  obtain rs1 where rs1: "cumulate (cumulative_gas_used (tx_receipt (add_gas c r))) rs = Inr rs1"
    "rs' = add_gas c r # rs1"
    using 3(2) by (auto simp: Let_def map_sum_def split: sum.splits)
  have len: "length rs1 = length rs" if "rs \<noteq> []" using 3(1)[OF refl rs1(1), of 0] that by simp
  have len': "length rs1 = length rs" using len rs1(1) by (cases rs) auto
  show ?case
  proof (cases i)
    case 0
    then show ?thesis using rs1(2) len' by (simp add: add_gas_def)
  next
    case (Suc k)
    then show ?thesis using 3(1)[OF refl rs1(1), of k] 3(3) rs1(2) len' by (simp add: add_gas_def add.assoc)
  qed
qed auto

theorem cumulative_gas_witness:
  "\<exists>rs'. cumulate 0 [Some blank_result, Some blank_result] = Inr rs' \<and>
     cumulative_gas_used (tx_receipt (rs' ! 1)) = 14"
proof -
  obtain rs' where run: "cumulate 0 [Some blank_result, Some blank_result] = Inr rs'"
    using cumulate_returns[of "[Some blank_result, Some blank_result]" 0] by auto
  then show ?thesis using cumulative_gas[OF run, of 1] by (simp add: blank_result_def)
qed

text \<open>A cache over a storage that remembers committed accounts, and the host made of the examples.\<close>

definition ex_cache :: "((address, account_info) hashmap \<times> database_ref) cache_db" where
  "ex_cache =
     \<lparr>cache_new = (\<lambda>d. ([], d)),
      cache_database =
        \<lparr>db_basic = (\<lambda>a pre s. (case hm_get (fst s) a of Some i \<Rightarrow> Inr (Some i) | None \<Rightarrow> basic_ref (snd s) a, s)),
         db_code_by_hash = (\<lambda>h s. (code_by_hash_ref (snd s) h, s)),
         db_has_storage = (\<lambda>a s. (has_storage_ref (snd s) a, s)),
         db_storage = (\<lambda>a i s. (storage_ref (snd s) a i, s)),
         db_block_hash = (\<lambda>n s. (block_hash_ref (snd s) n, s))\<rparr>,
      cache_commit = (\<lambda>st s. (fold (\<lambda>(a, acc). hm_insert a (info acc)) st (fst s), snd s))\<rparr>"

definition ex_host :: "((address, account_info) hashmap \<times> database_ref) host" where
  "ex_host =
     \<lparr>host_revm = ex_revm, host_transact = ex_transact, host_transact_seq = ex_transact, host_hash = ex_hash,
      host_debug = (\<lambda>e. ''error''), host_debug_seq = (\<lambda>e. ''error''),
      host_blob = (\<lambda>g. \<lparr>excess_blob_gas = g, blob_gasprice = 1\<rparr>), host_cache = ex_cache\<rparr>"

lemma ex_host_ok: "host_ok ex_host"
  by (simp add: host_ok_def ex_host_def ex_hash_apart ex_transact_propagates)

text \<open>
  Sequential execution is a left fold: the results of a prefix of the transactions are the prefix
  of the results, there is one for each transaction, and an error in a prefix is the error of the whole.
\<close>

lemma sequential_prefix:
  "(\<forall>rs. sequential_loop h chain spec blk (ts @ us) db c = Inr (Inr rs) \<longrightarrow>
      sequential_loop h chain spec blk ts db c = Inr (Inr (take (length ts) rs)) \<and>
      length rs = length ts + length us) \<and>
   (\<forall>e. sequential_loop h chain spec blk ts db c = Inr (Inl e) \<longrightarrow>
      sequential_loop h chain spec blk (ts @ us) db c = Inr (Inl e))"
proof (induction ts arbitrary: db c)
  case Nil
  show ?case
  proof -
    have "length rs = length us" if "sequential_loop h chain spec blk us db c = Inr (Inr rs)" for rs
      using that
      by (induction h chain spec blk us db c arbitrary: rs rule: sequential_loop.induct)
        (auto simp: Let_def map_sum_def split: sum.splits prod.splits)
    then show ?thesis by simp
  qed
next
  case (Cons tx ts)
  show ?case
  proof (cases "execute_tx (host_transact_seq h) (cache_database (host_cache h)) chain spec blk tx True db")
    case (Pair x db1)
    then show ?thesis using Cons.IH
      by (cases x) (auto simp: Let_def map_sum_def split: sum.splits)
  qed
qed

section \<open>Outcomes\<close>

lemma sequential_outcome:
  "case sequential_loop h chain spec blk ts db c of
     Inl p \<Rightarrow> p = eof_panic
   | Inr (Inl e) \<Rightarrow> (\<exists>err. e = PevmExecutionError (host_debug_seq h err))
   | Inr (Inr rs) \<Rightarrow> length rs = length ts"
proof (induction h chain spec blk ts db c rule: sequential_loop.induct)
  case (2 h chain spec blk tx ts db c)
  show ?case
  proof (cases "execute_tx (host_transact_seq h) (cache_database (host_cache h)) chain spec blk tx True db")
    case (Pair x db1)
    show ?thesis
    proof (cases x)
      case (Inl e)
      then show ?thesis using Pair by auto
    next
      case (Inr rs)
      show ?thesis
      proof (cases "from_revm (host_revm h) spec rs")
        case (Inl p)
        then show ?thesis using Pair Inr from_revm_panics[OF Inl] by simp
      next
        case res: (Inr r)
        show ?thesis using 2[OF Pair[symmetric] Inr refl res refl] Pair Inr res
          by (auto simp: Let_def map_sum_def split: sum.splits)
      qed
    qed
  qed
qed simp

definition storage_fails :: "storage_ops \<Rightarrow> tx_env list \<Rightarrow> bool" where
  "storage_fails st ts \<longleftrightarrow> (\<exists>tx \<in> set ts. \<exists>a e. transact_to tx = Call a \<and> st_is_contract st a = Inl e)"

lemma lazy_to_addresses_panics: "lazy_to_addresses st ts = Inl p \<Longrightarrow> storage_fails st ts \<and> p = Unwrap_failed"
  by (induction ts)
    (auto simp: maybe_lazy_def map_sum_def storage_fails_def split: sum.splits transact_to.splits if_splits)

text \<open>
  The causes of a panic of \<open>execute_revm\<close>: bytecode of the unsupported format in the sequential
  fallback, a storage that fails to answer \<open>is_contract\<close> for a recipient, or the step of a worker, in a reachable
  state, that \<open>panic_cause\<close> allows.
\<close>

definition revm_panic ::
  "'s host \<Rightarrow> storage_ops \<Rightarrow> u64 \<Rightarrow> spec_id \<Rightarrow> block_env \<Rightarrow> tx_env list \<Rightarrow> nat \<Rightarrow> rust_panic \<Rightarrow> bool" where
  "revm_panic h st chain spec blk ts concurrency p \<longleftrightarrow>
     preprocess_dependencies (coinbase blk) ts = Inr None \<and> p = eof_panic \<or>
     storage_fails st ts \<and> p = Unwrap_failed \<or>
     (\<exists>s0 limit s w. preprocess_dependencies (coinbase blk) ts = Inr (Some (s0, limit)) \<and>
        reachable (host_revm h) (host_transact h) (block_vm h st chain spec blk ts) s0 (min concurrency limit) s \<and>
        w < length (sys_workers s) \<and>
        worker_step (host_revm h) (host_transact h) (block_vm h st chain spec blk ts)
          (sys_workers s ! w) (sys_shared s) = Inl p \<and>
        panic_cause (block_vm h st chain spec blk ts) (sys_shared s) (sys_workers s ! w) p)"

text \<open>When the workers have stopped, the rest of \<open>execute_revm\<close> never panics.\<close>

lemma finish_block_outcome:
  assumes "host_ok h" and "0 < concurrency" and "preprocess_dependencies (coinbase blk) ts = Inr (Some (s0, limit))"
    and "reachable (host_revm h) (host_transact h) (block_vm h st chain spec blk ts) s0 (min concurrency limit) s"
    and "all_stopped s"
  shows "case execution_error (sys_shared s) of
     Some err \<Rightarrow> finish_block h st (coinbase blk) lazy (sys_shared s) = Inr (Inl (PevmExecutionError (host_debug h err)))
   | None \<Rightarrow> \<exists>rs. finish_block h st (coinbase blk) lazy (sys_shared s) = Inr (Inr rs) \<and> length rs = length ts"
proof -
  let ?vm = "block_vm h st chain spec blk ts"
  note mach = host_machine[OF assms(1), of st chain spec blk ts] and pre = preprocess_initial[OF assms(3)]
  have "0 < min concurrency limit" using assms(2) pre(2) by simp
  then obtain H where ok: "sys_ok (host_revm h) (host_transact h) ?vm s H"
    using reachable_ok[OF mach _ _ assms(4)] pre(1) by auto
  show ?thesis
  proof (cases "execution_error (sys_shared s)")
    case None
    then show ?thesis
      using finish_block_returns[OF ok assms(5) _ None, of h st "coinbase blk" lazy] mach by (auto simp: machine_ok_def)
  qed (simp add: finish_block_def)
qed

text \<open>
  C11. Whatever the interleaving, \<open>execute_revm\<close> returns one result for each transaction, or the rendering of
  an execution error, or panics for one of the causes named by \<open>revm_panic\<close>: unsupported bytecode, a storage
  that fails to answer \<open>is_contract\<close>, or a second execution error. Once the workers have stopped
  it never panics: without an execution error every transaction has its result and the final
  evaluation handles every entry, and with one it returns that error.
\<close>

theorem execute_revm_outcomes:
  assumes "host_ok h" and "0 < concurrency"
  shows "(\<forall>r. execute_revm h st chain spec blk ts concurrency r \<longrightarrow>
      (case r of
         Inl p \<Rightarrow> revm_panic h st chain spec blk ts concurrency p
       | Inr (Inl e) \<Rightarrow> (\<exists>err. e = PevmExecutionError (host_debug h err)) \<or>
           preprocess_dependencies (coinbase blk) ts = Inr None \<and> (\<exists>err. e = PevmExecutionError (host_debug_seq h err))
       | Inr (Inr rs) \<Rightarrow> length rs = length ts)) \<and>
    (\<forall>s0 limit lazy s. preprocess_dependencies (coinbase blk) ts = Inr (Some (s0, limit)) \<longrightarrow>
      reachable (host_revm h) (host_transact h) (block_vm h st chain spec blk ts) s0 (min concurrency limit) s \<longrightarrow>
      all_stopped s \<longrightarrow>
      (case execution_error (sys_shared s) of
         Some err \<Rightarrow> finish_block h st (coinbase blk) lazy (sys_shared s) = Inr (Inl (PevmExecutionError (host_debug h err)))
       | None \<Rightarrow> \<exists>rs. finish_block h st (coinbase blk) lazy (sys_shared s) = Inr (Inr rs) \<and> length rs = length ts))"
proof (intro conjI allI impI)
  fix r assume "execute_revm h st chain spec blk ts concurrency r"
  then show "case r of
       Inl p \<Rightarrow> revm_panic h st chain spec blk ts concurrency p
     | Inr (Inl e) \<Rightarrow> (\<exists>err. e = PevmExecutionError (host_debug h err)) \<or>
         preprocess_dependencies (coinbase blk) ts = Inr None \<and> (\<exists>err. e = PevmExecutionError (host_debug_seq h err))
     | Inr (Inr rs) \<Rightarrow> length rs = length ts"
  proof (cases rule: execute_revm.cases)
    case empty
    then show ?thesis by simp
  next
    case (preprocess_panic p)
    then show ?thesis using preprocess_returns[of "coinbase blk" ts] by auto
  next
    case fallback
    then show ?thesis
      using sequential_outcome[where h = h and chain = chain and spec = spec and blk = blk and ts = ts and c = 0
          and db = "cache_new (host_cache h) (storage_wrapper (host_revm h) st)"]
      by (auto simp: execute_revm_sequential_def revm_panic_def split: sum.splits)
  next
    case (lazy_panic s0 limit p)
    then show ?thesis using lazy_to_addresses_panics[of st ts p] by (simp add: revm_panic_def)
  next
    case (worker_panic s0 limit lazy s w p)
    have "0 < min concurrency limit" "initial_scheduler (length ts) s0"
      using assms(2) preprocess_initial[OF worker_panic(3)] by simp_all
    then have "panic_cause (block_vm h st chain spec blk ts) (sys_shared s) (sys_workers s ! w) p"
      using reachable_panic_cause[OF host_machine[OF assms(1)] _ _ worker_panic(5,6,7)] by simp
    then show ?thesis using worker_panic by (auto simp: revm_panic_def)
  next
    case (finished s0 limit lazy s)
    then show ?thesis
      using finish_block_outcome[OF assms finished(3,5,6), of lazy] by (auto split: option.splits)
  qed
qed (rule finish_block_outcome[OF assms])

theorem execute_revm_outcomes_witness:
  "\<exists>rs. execute_revm ex_host ex_storage 1 CANCUN ex_block ex_checked 2 (Inr (Inr rs)) \<and> length rs = 3"
proof -
  have vm: "block_vm ex_host ex_storage 1 CANCUN ex_block ex_checked = ex_vm ex_checked"
    by (simp add: block_vm_def ex_host_def ex_vm_def)
  have "case preprocess_dependencies 9 ex_checked of Inr (Some (s, l)) \<Rightarrow> l = 2 | _ \<Rightarrow> False" by code_simp
  then have pre: "preprocess_dependencies (coinbase ex_block) ex_checked = Inr (Some (ex_start ex_checked, 2))"
    by (auto simp: ex_start_def ex_block_def split: sum.splits option.splits)
  have "case lazy_to_addresses ex_storage ex_checked of Inr _ \<Rightarrow> True | _ \<Rightarrow> False" by code_simp
  then obtain lazy where lazy: "lazy_to_addresses ex_storage ex_checked = Inr lazy" by (auto split: sum.splits)
  let ?r = "finish_block ex_host ex_storage (coinbase ex_block) lazy (sys_shared ex_final)"
  have run: "execute_revm ex_host ex_storage 1 CANCUN ex_block ex_checked 2 ?r"
  proof (rule execute_revm.finished[OF _ pre lazy _ ex_final(2)])
    show "ex_checked \<noteq> []" by (simp add: ex_checked_def)
    have "host_revm ex_host = ex_revm" "host_transact ex_host = ex_transact" by (simp_all add: ex_host_def)
    then show "reachable (host_revm ex_host) (host_transact ex_host)
        (block_vm ex_host ex_storage 1 CANCUN ex_block ex_checked) (ex_start ex_checked) (min 2 2) ex_final"
      using ex_final(1) unfolding vm by simp
  qed
  obtain H where ok: "sys_ok ex_revm ex_transact (ex_vm ex_checked) ex_final H"
    using reachable_ok[OF ex_machine_ok ex_initial(1) zero_less_numeral ex_final(1)] by blast
  have "vm_wf (ex_vm ex_checked)" "hash_one (ex_vm ex_checked) = host_hash ex_host"
    using ex_machine_ok[of ex_checked] by (simp_all add: machine_ok_def ex_vm_def vm_new_def ex_host_def)
  then obtain rs where "?r = Inr (Inr rs)"
    using finish_block_returns[OF ok ex_final(2) _ ex_final(3)] by blast
  then have res: "execute_revm ex_host ex_storage 1 CANCUN ex_block ex_checked 2 (Inr (Inr rs))" using run by simp
  then have "length rs = length ex_checked"
    using execute_revm_outcomes[OF ex_host_ok, of 2 ex_storage 1 CANCUN ex_block ex_checked] by fastforce
  then show ?thesis using res by (auto simp: ex_checked_def)
qed

lemma execute_iff:
  "execute h st chain b n force r \<longleftrightarrow>
     (case block_inputs h b of
        Inl p \<Rightarrow> r = Inl p
      | Inr (Inl e) \<Rightarrow> r = Inr (Inl e)
      | Inr (Inr (spec, blk, envs)) \<Rightarrow>
          if run_sequentially force envs (block_header b) then r = execute_revm_sequential h st chain spec blk envs
          else execute_revm h st chain spec blk envs n r)"
  by (auto simp: execute.simps split: sum.splits)

text \<open>
  C33. The outcomes of \<open>execute\<close>, in the order of its tests. It rejects a block without a hard fork, without
  a number, or without full transactions; a block whose first transaction that does not convert gives
  an error or a panic yields that error, as an invalid transaction, or that panic; in none of these
  cases is there another outcome. A block whose transactions all convert is executed
  sequentially when that is forced or it is small or light, and has the outcomes of \<open>execute_revm\<close> otherwise.
\<close>

theorem execute_rejects:
  "(get_block_spec (block_header b) = None \<longrightarrow>
      (execute h st chain b n force r \<longleftrightarrow> r = Inr (Inl UnknownBlockSpec))) \<and>
   (get_block_spec (block_header b) \<noteq> None \<longrightarrow> hd_number (block_header b) = None \<longrightarrow>
      (execute h st chain b n force r \<longleftrightarrow> r = Inr (Inl MissingHeaderData))) \<and>
   (get_block_spec (block_header b) \<noteq> None \<longrightarrow> hd_number (block_header b) \<noteq> None \<longrightarrow>
      (\<nexists>ts. block_txs b = Full ts) \<longrightarrow>
      (execute h st chain b n force r \<longleftrightarrow> r = Inr (Inl MissingTransactionData))) \<and>
   (\<forall>pre tx post. get_block_spec (block_header b) \<noteq> None \<longrightarrow> hd_number (block_header b) \<noteq> None \<longrightarrow>
      block_txs b = Full (pre @ tx # post) \<longrightarrow> list_all (\<lambda>t. \<exists>env. get_tx_env t = Inr (Inr env)) pre \<longrightarrow>
      (\<forall>e. get_tx_env tx = Inr (Inl e) \<longrightarrow>
        (execute h st chain b n force r \<longleftrightarrow> r = Inr (Inl (PevmInvalidTransaction e)))) \<and>
      (\<forall>p. get_tx_env tx = Inl p \<longrightarrow> (execute h st chain b n force r \<longleftrightarrow> r = Inl p))) \<and>
   (\<forall>spec blk ts envs. get_block_spec (block_header b) = Some spec \<longrightarrow>
      get_block_env (host_blob h) (block_header b) = Some blk \<longrightarrow> block_txs b = Full ts \<longrightarrow>
      list_all2 (\<lambda>tx env. get_tx_env tx = Inr (Inr env)) ts envs \<longrightarrow>
      (execute h st chain b n force r \<longleftrightarrow>
        (if force \<or> length ts < 4 \<or> unat (hd_gas_used (block_header b)) \<le> 650000
         then r = execute_revm_sequential h st chain spec blk envs
         else execute_revm h st chain spec blk envs n r)))"
proof (intro conjI allI impI)
  note inputs = block_inputs_def get_block_env_def
  let ?run = "execute h st chain b n force r"
  {
    assume "get_block_spec (block_header b) = None"
    then show "?run \<longleftrightarrow> r = Inr (Inl UnknownBlockSpec)" by (simp add: execute_iff inputs)
  next
    assume "get_block_spec (block_header b) \<noteq> None" "hd_number (block_header b) = None"
    then show "?run \<longleftrightarrow> r = Inr (Inl MissingHeaderData)" by (auto simp: execute_iff inputs)
  next
    assume "get_block_spec (block_header b) \<noteq> None" "hd_number (block_header b) \<noteq> None" "\<nexists>ts. block_txs b = Full ts"
    then show "?run \<longleftrightarrow> r = Inr (Inl MissingTransactionData)"
      by (cases "block_txs b") (auto simp: execute_iff inputs)
  next
    fix pre tx post e
    assume hdr: "get_block_spec (block_header b) \<noteq> None" "hd_number (block_header b) \<noteq> None"
      and ts: "block_txs b = Full (pre @ tx # post)" "list_all (\<lambda>t. \<exists>env. get_tx_env t = Inr (Inr env)) pre"
        "get_tx_env tx = Inr (Inl e)"
    have "get_tx_envs (pre @ tx # post) = Inr (Inl e)" using tx_envs_first_error ts(2,3) by blast
    then show "?run \<longleftrightarrow> r = Inr (Inl (PevmInvalidTransaction e))" using hdr ts(1) by (auto simp: execute_iff inputs)
  next
    fix pre tx post p
    assume hdr: "get_block_spec (block_header b) \<noteq> None" "hd_number (block_header b) \<noteq> None"
      and ts: "block_txs b = Full (pre @ tx # post)" "list_all (\<lambda>t. \<exists>env. get_tx_env t = Inr (Inr env)) pre"
        "get_tx_env tx = Inl p"
    then show "?run \<longleftrightarrow> r = Inl p" using tx_envs_panic[OF ts(2,3)] by (auto simp: execute_iff inputs)
  next
    fix spec blk ts envs
    assume b: "get_block_spec (block_header b) = Some spec" "get_block_env (host_blob h) (block_header b) = Some blk"
      "block_txs b = Full ts" and all: "list_all2 (\<lambda>tx env. get_tx_env tx = Inr (Inr env)) ts envs"
    have "get_tx_envs ts = Inr (Inr envs)" using tx_envs_first_error all by blast
    then show "?run \<longleftrightarrow> (if force \<or> length ts < 4 \<or> unat (hd_gas_used (block_header b)) \<le> 650000
        then r = execute_revm_sequential h st chain spec blk envs else execute_revm h st chain spec blk envs n r)"
      using b list_all2_lengthD[OF all]
      by (simp add: execute_iff block_inputs_def run_sequentially_def word_le_nat_alt)
  }
qed

text \<open>A block whose second transaction has a gas limit above 64 bits.\<close>

definition heavy_block :: block where
  "heavy_block = \<lparr>block_header = sample_header 5 1710338135,
     block_txs = Full [sample_tx, sample_tx\<lparr>tr_gas := 2 ^ 64\<rparr>, sample_tx]\<rparr>"

theorem execute_rejects_witness:
  "execute ex_host ex_storage 1 heavy_block 2 False (Inr (Inl (PevmInvalidTransaction OverflowedGasLimit)))"
proof -
  have "get_block_spec (block_header heavy_block) \<noteq> None" "hd_number (block_header heavy_block) \<noteq> None"
    by (simp_all add: get_block_spec_def heavy_block_def sample_header_def)
  moreover have "block_txs heavy_block = Full ([sample_tx] @ (sample_tx\<lparr>tr_gas := 2 ^ 64\<rparr>) # [sample_tx])"
    by (simp add: heavy_block_def)
  moreover have "list_all (\<lambda>t. \<exists>env. get_tx_env t = Inr (Inr env)) [sample_tx]"
    "get_tx_env (sample_tx\<lparr>tr_gas := 2 ^ 64\<rparr>) = Inr (Inl OverflowedGasLimit)"
    by (simp_all add: get_tx_env_def tx_gas_price_def sample_tx_def)
  ultimately have "execute ex_host ex_storage 1 heavy_block 2 False r \<longleftrightarrow>
      r = Inr (Inl (PevmInvalidTransaction OverflowedGasLimit))" for r
    using execute_rejects[of heavy_block ex_host ex_storage 1 2 False r, THEN conjunct2, THEN conjunct2, THEN conjunct2,
        THEN conjunct1] by blast
  then show ?thesis by simp
qed

end
