(* ===== verification/Livelock.thy ===== *)
theory Livelock
  imports Examples
begin

text \<open>
  A worker that never gets on. A transaction whose sender lacks funds is executed again as long as
  the transaction before it is executed, in the hope that a lower transaction still sends the
  funds. When no other worker is left to validate or execute the lower transactions, this goes
  on forever.
\<close>

section \<open>Spinning\<close>

text \<open>
  The positions of a worker in \<open>try_execute\<close> whose execution, run to its end on the present memory,
  is blocked by transaction \<open>b\<close>.
\<close>

fun spins :: "revm \<Rightarrow> read_error transact \<Rightarrow> vm \<Rightarrow> mv_memory \<Rightarrow> tx_idx \<Rightarrow> worker \<Rightarrow> bool" where
  "spins rv transact vm m b (StartExecution v) \<longleftrightarrow> vm_execute rv transact vm m (ver_idx v) = Inr (VmReadError b)"
| "spins rv transact vm m b (RunEvm v t db) \<longleftrightarrow>
     vm_execute rv transact vm m (ver_idx v) = Inr (VmReadError b) \<and>
     (case run_evm (vm_database rv vm m) t db of
        (r, db') \<Rightarrow> vm_finish rv vm (txs vm ! ver_idx v) db' r = Inr (VmReadError b))"
| "spins rv transact vm m b (AddDependency v b') \<longleftrightarrow>
     b' = b \<and> vm_execute rv transact vm m (ver_idx v) = Inr (VmReadError b)"
| "spins rv transact vm m b _ \<longleftrightarrow> False"

lemma spins_not_stopped: "spins rv transact vm m b k \<Longrightarrow> k \<noteq> Stopped"
  by auto

text \<open>Such a worker changes nothing and stays in such a position.\<close>

lemma spins_step:
  assumes spin: "spins rv transact vm (sh_memory sh) b k" and dn: "is_done (stat (sh_scheduler sh) b)"
    and b: "b < length (transactions_status (sh_scheduler sh))"
  shows "\<exists>k'. worker_step rv transact vm k sh = Inr (k', sh) \<and> spins rv transact vm (sh_memory sh) b k'"
proof (cases k)
  case (StartExecution v)
  then show ?thesis using spin by (auto simp: vm_execute_def execute_tx_def Let_def split: sum.splits prod.splits)
next
  case (RunEvm v t db)
  then show ?thesis using spin run_evm_step[of "vm_database rv vm (sh_memory sh)" t db]
    by (cases t) (auto split: prod.splits)
next
  case (AddDependency v b')
  then show ?thesis using spin dn b by (auto simp: add_dependency_step_def add_dependency_def)
qed (use spin in auto)

definition all_spin :: "revm \<Rightarrow> read_error transact \<Rightarrow> vm \<Rightarrow> shared \<Rightarrow> system \<Rightarrow> bool" where
  "all_spin rv transact vm sh s \<longleftrightarrow> sys_shared s = sh \<and>
     (\<forall>k \<in> set (sys_workers s). k = Stopped \<or>
        (\<exists>b < length (transactions_status (sh_scheduler sh)).
           is_done (stat (sh_scheduler sh) b) \<and> spins rv transact vm (sh_memory sh) b k))"

lemma all_spin_step:
  assumes "all_spin rv transact vm sh s" and "sys_step rv transact vm s s'"
  shows "all_spin rv transact vm sh s' \<and> length (sys_workers s') = length (sys_workers s) \<and>
    (\<forall>w < length (sys_workers s). sys_workers s ! w \<noteq> Stopped \<longrightarrow> sys_workers s' ! w \<noteq> Stopped)"
proof -
  obtain w k sh' where s': "s' = \<lparr>sys_shared = sh', sys_workers = (sys_workers s)[w := k]\<rparr>"
    and w: "w < length (sys_workers s)" "sys_workers s ! w \<noteq> Stopped"
    and run: "worker_step rv transact vm (sys_workers s ! w) (sys_shared s) = Inr (k, sh')"
    using assms(2) by (auto elim: sys_stepE)
  have "sys_workers s ! w \<in> set (sys_workers s)" using w(1) by simp
  then obtain b where b: "b < length (transactions_status (sh_scheduler sh))" "is_done (stat (sh_scheduler sh) b)"
    "spins rv transact vm (sh_memory sh) b (sys_workers s ! w)"
    using assms(1) w(2) unfolding all_spin_def by blast
  from spins_step[OF b(3,2,1)] run assms(1) have k: "sh' = sh" "spins rv transact vm (sh_memory sh) b k"
    by (auto simp: all_spin_def)
  have "all_spin rv transact vm sh s'"
    unfolding all_spin_def s'
  proof (intro conjI ballI)
    fix x assume "x \<in> set (sys_workers \<lparr>sys_shared = sh', sys_workers = (sys_workers s)[w := k]\<rparr>)"
    then have "x = k \<or> x \<in> set (sys_workers s)" using set_update_subset_insert[of "sys_workers s" w k] by auto
    then show "x = Stopped \<or> (\<exists>b < length (transactions_status (sh_scheduler sh)).
        is_done (stat (sh_scheduler sh) b) \<and> spins rv transact vm (sh_memory sh) b x)"
      using assms(1) b(1,2) k(2) unfolding all_spin_def by blast
  qed (simp add: k(1))
  moreover have "sys_workers s' ! w' \<noteq> Stopped" if "sys_workers s ! w' \<noteq> Stopped" for w'
    using spins_not_stopped[OF k(2)] that w(1) by (cases "w' = w") (auto simp: s')
  ultimately show ?thesis by (simp add: s')
qed

lemma all_spin_forever:
  assumes "all_spin rv transact vm (sys_shared s) s" and "\<not> all_stopped s"
    and "(sys_step rv transact vm)\<^sup>*\<^sup>* s s'"
  shows "\<not> all_stopped s' \<and> sys_shared s' = sys_shared s"
proof -
  obtain w where w: "w < length (sys_workers s)" "sys_workers s ! w \<noteq> Stopped"
    using assms(2) by (auto simp: all_stopped_iff in_set_conv_nth)
  have "all_spin rv transact vm (sys_shared s) s' \<and> length (sys_workers s') = length (sys_workers s) \<and>
      sys_workers s' ! w \<noteq> Stopped"
    using assms(3)
  proof (induction rule: rtranclp_induct)
    case (step y z)
    then show ?case using all_spin_step[of rv transact vm "sys_shared s" y z] w(1) by simp
  qed (use assms(1) w in simp)
  then show ?thesis using w(1) nth_mem[of w "sys_workers s'"] by (auto simp: all_spin_def all_stopped_iff)
qed

section \<open>A valid block on which all workers spin\<close>

definition ex_read :: "address \<Rightarrow> (account_info \<Rightarrow> ('e, 'e evm_error + 'r) evm) \<Rightarrow> ('e, 'e evm_error + 'r) evm" where
  "ex_read a k = Evm_Basic a False (\<lambda>x. case x of
     Inl e \<Rightarrow> Evm_Done (Inl (EVM_Database e)) | Inr i \<Rightarrow> k (ex_info i))"

definition ex_ends :: "(address \<times> account_info) list \<Rightarrow> ('e, 'e evm_error + result_and_state) evm" where
  "ex_ends st = Evm_Done (Inr \<lparr>is_success = True, gas_used = 21000, into_logs = [],
     rs_state = map (\<lambda>(a, i). (a, ex_touched i)) st\<rparr>)"

text \<open>
  A transaction fails when its sender cannot pay the value. A transaction with input data calls a
  contract that looks at account 7 and, when it has been paid, gives the value to accounts 20 and 22.
\<close>

definition fund_transact :: "'e transact" where
  "fund_transact chain spec blk tx reward =
     (case transact_to tx of
        Create \<Rightarrow> Evm_Done (Inl (EVM_Other ''create''))
      | Call b \<Rightarrow> ex_read (caller tx) (\<lambda>from.
          let v = tx_value tx; paid = from\<lparr>info_balance := info_balance from - v, info_nonce := info_nonce from + 1\<rparr>
          in if info_balance from < v then Evm_Done (Inl (EVM_Transaction (LackOfFundForMaxFee v (info_balance from))))
             else if tx_data tx = [] then
               ex_read b (\<lambda>to. ex_ends [(caller tx, paid), (b, to\<lparr>info_balance := info_balance to + v\<rparr>)])
             else ex_read 7 (\<lambda>seven.
               if info_balance seven = 0 then ex_ends [(caller tx, from\<lparr>info_nonce := info_nonce from + 1\<rparr>)]
               else ex_read 20 (\<lambda>x. ex_read 22 (\<lambda>y. ex_ends
                 [(caller tx, paid\<lparr>info_balance := info_balance paid - v\<rparr>),
                  (20, x\<lparr>info_balance := info_balance x + v\<rparr>), (22, y\<lparr>info_balance := info_balance y + v\<rparr>)])))))"

definition fund_block :: "tx_env list" where
  "fund_block = [ex_tx 1 7 10, ex_tx 1 20 1, (ex_tx 40 8 50)\<lparr>tx_data := [0]\<rparr>, ex_tx 20 21 50, ex_tx 30 31 1, ex_tx 22 23 50]"

definition fund_storage :: storage_ops where
  "fund_storage = in_memory_ops ex_revm (in_memory_new
     [(1, with_balance 100), (30, with_balance 100), (40, with_balance 200), (8, ex_contract)] [])"

definition fund_vm :: vm where
  "fund_vm = vm_new ex_hash fund_storage 1 CANCUN ex_block fund_block"

definition fund_run :: "nat list \<Rightarrow> system option" where
  "fund_run ws = run_workers ex_revm fund_transact fund_vm ws (sys_init fund_vm (ex_start fund_block) 2)"

text \<open>
  One worker is kept at the first transaction while the other executes the third, whose contract
  sees no payment yet, the fifth, and the sixth, whose sender lacks funds. The first worker then
  executes the first two transactions and picks the fourth, whose sender lacks funds too.
\<close>

definition fund_spinning :: system where
  "fund_spinning = the (fund_run ([0] @ replicate 25 1 @ replicate 16 0))"

lemma fund_spinning:
  "reachable ex_revm fund_transact fund_vm (ex_start fund_block) 2 fund_spinning"
  "execution_error (sys_shared fund_spinning) = None" "\<not> all_stopped fund_spinning"
  "all_spin ex_revm fund_transact fund_vm (sys_shared fund_spinning) fund_spinning"
proof -
  let ?at = "\<lambda>s k b. (case k of
      StartExecution v \<Rightarrow> (case vm_execute ex_revm fund_transact fund_vm (sh_memory (sys_shared s)) (ver_idx v) of
          Inr (VmReadError b') \<Rightarrow> b' = b | _ \<Rightarrow> False) | _ \<Rightarrow> False) \<and>
      b < length (transactions_status (sh_scheduler (sys_shared s))) \<and> is_done (stat (sh_scheduler (sys_shared s)) b)"
  have run: "case fund_run ([0] @ replicate 25 1 @ replicate 16 0) of None \<Rightarrow> False | Some s \<Rightarrow>
      execution_error (sys_shared s) = None \<and>
      (case sys_workers s of [k, k'] \<Rightarrow> ?at s k 2 \<and> ?at s k' 4 | _ \<Rightarrow> False)"
    by code_simp
  then have s: "fund_run ([0] @ replicate 25 1 @ replicate 16 0) = Some fund_spinning"
    unfolding fund_spinning_def by (simp only: split: option.splits) simp
  show "reachable ex_revm fund_transact fund_vm (ex_start fund_block) 2 fund_spinning"
    using run_workers_reachable s unfolding fund_run_def by blast
  show "execution_error (sys_shared fund_spinning) = None" using run unfolding s by simp
  obtain k k' where ks: "sys_workers fund_spinning = [k, k']" "?at fund_spinning k 2" "?at fund_spinning k' 4"
    using run unfolding s by (auto split: list.splits)
  have spin: "\<exists>b < length (transactions_status (sh_scheduler (sys_shared fund_spinning))).
      is_done (stat (sh_scheduler (sys_shared fund_spinning)) b) \<and>
      spins ex_revm fund_transact fund_vm (sh_memory (sys_shared fund_spinning)) b x"
    if "?at fund_spinning x b" for x b
    using that by (intro exI[of _ b]) (auto split: worker.splits sum.splits vm_execution_result.splits)
  show "all_spin ex_revm fund_transact fund_vm (sys_shared fund_spinning) fund_spinning"
    unfolding all_spin_def ks(1) using spin[OF ks(2)] spin[OF ks(3)] by simp
  show "\<not> all_stopped fund_spinning" using ks(2) by (auto simp: all_stopped_iff ks(1))
qed

end
