(* ===== verification/Progress.thy ===== *)
theory Progress
  imports Serializability
begin

text \<open>
  The spin loop of \<open>next_task\<close> ends. A transaction that is subject to validation and executed, but not
  validated, is never forgotten: the validation counter will still reach it or a worker holds its
  validation. So when no worker holds a task, a call of \<open>next_task\<close> returns after at most two
  passes over the block, with a task or with the end of the block.
\<close>

section \<open>No executed transaction is forgotten\<close>

fun watches :: "role \<Rightarrow> tx_idx \<Rightarrow> bool" where
  "watches (Checking v) j \<longleftrightarrow> ver_idx v = j"
| "watches (Confirming v) j \<longleftrightarrow> ver_idx v = j"
| "watches _ j \<longleftrightarrow> False"

definition watch_inv :: "scheduler \<Rightarrow> (nat \<Rightarrow> role) \<Rightarrow> bool" where
  "watch_inv s R \<longleftrightarrow>
     (\<forall>j < block_size s. stat s j = Executed \<longrightarrow> min_validation_idx s \<le> j \<longrightarrow>
        validation_idx s \<le> j \<or> (\<exists>w. watches (R w) j))"

lemma watch_step:
  assumes inv: "watch_inv s R" and size: "block_size s' = block_size s"
    and step: "\<And>j. j < block_size s \<Longrightarrow> stat s' j = Executed \<Longrightarrow> min_validation_idx s' \<le> j \<Longrightarrow>
      validation_idx s' \<le> j \<or> watches r j \<or>
      (stat s j = Executed \<and> min_validation_idx s \<le> j \<and> \<not> validation_idx s \<le> j \<and> \<not> watches (R w) j)"
  shows "watch_inv s' (R(w := r))"
  unfolding watch_inv_def size
proof (intro allI impI)
  fix j assume j: "j < block_size s" "stat s' j = Executed" "min_validation_idx s' \<le> j"
  from step[OF j] consider "validation_idx s' \<le> j" | "watches r j"
    | (old) "stat s j = Executed" "min_validation_idx s \<le> j" "\<not> validation_idx s \<le> j" "\<not> watches (R w) j" by blast
  then show "validation_idx s' \<le> j \<or> (\<exists>w'. watches ((R(w := r)) w') j)"
  proof cases
    case old
    then obtain w' where "watches (R w') j" using inv j(1) unfolding watch_inv_def by blast
    then show ?thesis using old(4) by (metis fun_upd_other)
  qed (auto intro: exI[of _ w])
qed

lemma watch_same:
  assumes "watch_inv s R" and "\<And>j. watches (R w) j \<Longrightarrow> watches r j"
  shows "watch_inv s (R(w := r))"
  by (rule watch_step[OF assms(1) refl]) (use assms(2) in auto)

lemma watch_next_task:
  assumes inv: "sched_inv A s" and watch: "watch_inv s R" and R: "R w = Free"
    and run: "next_task_iter s = Inr (r, s')"
  shows "watch_inv s' (R(w := (case r of Return t \<Rightarrow> task_role (Some t) | _ \<Rightarrow> Free)))"
proof -
  have c: "case r of Break \<Rightarrow> s' = s | Continue \<Rightarrow> skipped s s'
     | Return (Execution v) \<Rightarrow> picked s v s' | Return (Validation v) \<Rightarrow> claimed s v s'"
    using next_task_iter_ok[OF inv] run by (auto split: round_result.splits task.splits)
  have len: "length (transactions_status s) = block_size s" by (rule base_lengths(1)[OF inv_base[OF inv]])
  consider (break) "r = Break" | (skip) "r = Continue" | (exec) v where "r = Return (Execution v)"
    | (val) v where "r = Return (Validation v)" by (metis round_result.exhaust task.exhaust)
  then show ?thesis
  proof cases
    case break
    then show ?thesis using c watch_same[OF watch, of w Free] R by simp
  next
    case skip
    then obtain e k where s': "s' = s\<lparr>execution_idx := e, validation_idx := k\<rparr>"
      and none: "\<forall>t. validation_idx s \<le> t \<and> t < k \<and> t < block_size s \<longrightarrow> \<not> is_done (stat s t)"
      using c by (auto simp: skipped_def)
    have "k \<le> j" if "validation_idx s \<le> j" "j < block_size s" "stat s j = Executed" for j
      using none that by (meson not_le)
    then show ?thesis unfolding skip by (intro watch_step[OF watch]) (use R in \<open>auto simp: s'\<close>)
  next
    case (exec v)
    then obtain e where p: "stat s (ver_idx v) = ReadyToExecute" "ver_idx v < block_size s"
      "s' = set_status (ver_idx v) Executing (s\<lparr>execution_idx := e\<rparr>)"
      using c by (auto simp: picked_def)
    have st: "stat s' j = (if j = ver_idx v then Executing else stat s j)" for j
      using stat_set_status[of "ver_idx v" "s\<lparr>execution_idx := e\<rparr>" Executing j] p(2) len by (simp add: p(3))
    show ?thesis unfolding exec
      by (intro watch_step[OF watch]) (use R st in \<open>auto simp: p(3) set_status_def split: if_splits\<close>)
  next
    case (val v)
    then have "claimed s v s'" using c by simp
    then show ?thesis unfolding val by (intro watch_step[OF watch]) (use R in \<open>auto simp: claimed_def\<close>)
  qed
qed

lemma watch_finish_execution:
  assumes own: "own_inv err s R" and inv: "watch_inv s R"
    and R: "R w = Finishing v new nxt" and run: "finish_execution v new nxt s = Inr (r, s')"
  shows "watch_inv s' (R(w := task_role r))"
proof -
  obtain s1 where s1: "resume_effect (ver_idx v) s s1" "sched_inv (aborted R) s1"
    "schedule_validation v new nxt s1 = (r, s')"
    using own_finish_execution(2)[OF own R run] by blast
  note E = resume_effectD[OF s1(1)] and V = schedule_validation_ok[OF s1(2,3)]
  have v: "ver_idx v < block_size s" "new \<or> min_validation_idx s \<le> ver_idx v"
    "\<And>i. nxt = Some i \<Longrightarrow> ver_idx v \<le> i"
    using own_invD(3)[OF own, of w] R by simp_all
  show ?thesis
  proof (rule watch_step[OF inv])
    show "block_size s' = block_size s" using V(3) E(1) by simp
    fix j assume j: "j < block_size s" "stat s' j = Executed" "min_validation_idx s' \<le> j"
    have min: "min_validation_idx s \<le> j" if "j < ver_idx v \<or> \<not> new" "j \<noteq> ver_idx v"
      using that j(3) v(2,3) unfolding V(6) lowered_min_def E(3)
      by (cases nxt) (auto simp: min_def split: if_splits)
    have was: "stat s j = Executed" if "j \<noteq> ver_idx v"
      using that j(2) by (auto simp: V(2) E(10) split: if_splits)
    consider "j = ver_idx v" | "new" "ver_idx v < j" | "j < ver_idx v" | "\<not> new" "ver_idx v < j" by linarith
    then show "validation_idx s' \<le> j \<or> watches (task_role r) j \<or>
      (stat s j = Executed \<and> min_validation_idx s \<le> j \<and> \<not> validation_idx s \<le> j \<and> \<not> watches (R w) j)"
    proof cases
      case 1
      then show ?thesis using V(10) j(3) v(1) E(1) by auto
    next
      case 2
      then show ?thesis using V(11)[of j] j(1,3) E(1) by auto
    next
      case 3
      then show ?thesis using min was V(7) E(2) R by auto
    next
      case 4
      then show ?thesis using min was V(7) E(2) R by auto
    qed
  qed
qed

lemma watch_reschedule:
  assumes own: "own_inv err s R" and inv: "watch_inv s R"
    and R: "R w = Rescheduling v" and run: "finish_validation v True s = Inr (r, s')"
  shows "watch_inv s' (R(w := task_role r))"
proof -
  note F = reschedule_frame[OF own R run]
  have "stat s t = Executed \<and> t \<noteq> ver_idx v" if "stat s' t = Executed" for t using F(4)[of t] that by simp
  then show ?thesis
    by (intro watch_step[OF inv F(1)]) (use F(2,3) R in \<open>auto simp: not_le min_def split: if_splits\<close>)
qed

text \<open>A step that only changes the status of transactions that do not become executed.\<close>

lemma watch_status:
  assumes "watch_inv s R" and "block_size s' = block_size s" and "validation_idx s' = validation_idx s"
    and "min_validation_idx s' = min_validation_idx s"
    and "\<And>j. j < block_size s \<Longrightarrow> stat s' j = Executed \<Longrightarrow> stat s j = Executed"
    and "\<And>j. stat s' j = Executed \<Longrightarrow> watches (R w) j \<Longrightarrow> watches r j"
  shows "watch_inv s' (R(w := r))"
  by (rule watch_step[OF assms(1,2)]) (use assms in auto)

lemma watch_add_dependency:
  assumes own: "own_inv err s R" and watch: "watch_inv s R" and R: "R w = Pre v" and b: "b < ver_idx v"
    and run: "add_dependency (ver_idx v) b s = Inr (added, s')"
  shows "watch_inv s' (R(w := (if added then Free else Pre v)))"
proof -
  have inv: "sched_inv (aborted R) s" by (rule own_invD(1)[OF own])
  have v: "ver_idx v < block_size s" "stat s (ver_idx v) = Executing" using own_invD(3)[OF own, of w] R by simp_all
  then have vl: "ver_idx v < length (transactions_status s)" using base_lengths(1)[OF inv_base[OF inv]] by simp
  have a: "\<not> added \<longrightarrow> s' = s" "added \<longrightarrow> transactions_status s' = transactions_status (set_status (ver_idx v) Aborting s) \<and>
      execution_idx s' = execution_idx s \<and> validation_idx s' = validation_idx s \<and>
      block_size s' = block_size s \<and> min_validation_idx s' = min_validation_idx s"
    using add_dependency_ok[OF inv b v] run by auto
  have "added \<Longrightarrow> stat s' j = Executed \<Longrightarrow> stat s j = Executed" for j
    using a(2) stat_set_status[OF vl, of Aborting j] by (auto split: if_splits)
  then show ?thesis using a
    by (cases added) (auto intro!: watch_status[OF watch] watch_same[OF watch] simp: R)
qed

lemma watch_try_abort:
  assumes own: "own_inv err s R" and watch: "watch_inv s R" and R: "R w = Checking v"
    and run: "try_validation_abort v s = Inr (b, s')"
  shows "watch_inv s' (R(w := (if b then Converting v else Confirming v)))"
proof -
  have inv: "sched_inv (aborted R) s" by (rule own_invD(1)[OF own])
  have v: "ver_idx v < block_size s" using own_invD(3)[OF own, of w] R by simp
  then have vl: "ver_idx v < length (transactions_status s)" using base_lengths(1)[OF inv_base[OF inv]] by simp
  have a: "\<not> b \<longrightarrow> s' = s" "b \<longrightarrow> (\<exists>n. s' = (set_status (ver_idx v) Aborting s)\<lparr>num_validated := n\<rparr>)"
    using try_validation_abort_ok[OF inv v] run by auto
  show ?thesis
  proof (cases b)
    case True
    then obtain n where s': "s' = (set_status (ver_idx v) Aborting s)\<lparr>num_validated := n\<rparr>" using a(2) by blast
    have st: "stat s' j = (if j = ver_idx v then Aborting else stat s j)" for j
      using stat_set_status[OF vl, of Aborting j] by (simp add: s')
    show ?thesis
      by (rule watch_status[OF watch]) (use st R True in \<open>auto simp: s' split: if_splits\<close>)
  next
    case False
    then show ?thesis using a(1) R by (auto intro!: watch_same[OF watch])
  qed
qed

lemma watch_finish_validation:
  assumes own: "own_inv err s R" and watch: "watch_inv s R"
    and R: "R w = (if ab then Rescheduling v else Confirming v)" and run: "finish_validation v ab s = Inr (r, s')"
  shows "watch_inv s' (R(w := task_role r))"
proof (cases ab)
  case True
  then show ?thesis using watch_reschedule[OF own watch] R run by simp
next
  case False
  then have Rw: "R w = Confirming v" and fv: "finish_validation v False s = Inr (r, s')" using R run by simp_all
  note V = own_validated[OF own Rw fv]
  have v: "ver_idx v < length (transactions_status s)"
    using own_invD(3)[OF own, of w] Rw base_lengths(1)[OF inv_base[OF own_invD(1)[OF own]]] by simp
  show ?thesis unfolding V(1)
    by (simp, rule watch_status[OF watch])
      (use stat_set_status[OF v, of Validated] Rw in \<open>auto simp: V(3) split: if_splits\<close>)
qed

section \<open>Each step keeps it\<close>

lemma worker_step_error:
  "worker_step rv transact vm k sh = Inr (k', sh') \<Longrightarrow> execution_error sh' = None \<Longrightarrow> execution_error sh = None"
  by (cases k)
    (auto simp: next_task_step_def add_dependency_step_def set_error_step_def record_step_def
      finish_execution_step_def validate_step_def try_abort_step_def convert_step_def
      finish_validation_step_def check_error_step_def split: sum.splits prod.splits option.splits if_splits
      elim!: run_evm_step.elims)

lemma worker_step_watch:
  assumes core: "core_inv rv transact vm sh R H" and R: "R w = role_of k"
    and ok: "worker_ok rv transact vm (history_values H) k"
    and run: "worker_step rv transact vm k sh = Inr (k', sh')" and err: "execution_error sh' = None"
    and watch: "watch_inv (sh_scheduler sh) R"
  shows "watch_inv (sh_scheduler sh') (R(w := role_of k'))"
proof -
  note own = core_invD(2)[OF core] and inv = own_invD(1)[OF core_invD(2)[OF core]]
  let ?s = "sh_scheduler sh"
  have same: ?thesis if "sh_scheduler sh' = ?s" "\<And>j. watches (R w) j \<Longrightarrow> watches (role_of k') j"
    using watch_same[OF watch that(2)] that(1) by simp
  have pre: "\<not> watches (R w) j" if "R w = Pre v" for v j using that by simp
  show ?thesis
  proof (cases k)
    case NextTask
    then obtain r s' where r: "next_task_iter ?s = Inr (r, s')" "sh_scheduler sh' = s'"
      "role_of k' = (case r of Return t \<Rightarrow> task_role (Some t) | _ \<Rightarrow> Free)"
      using run by (auto simp: next_task_step_def split: sum.splits round_result.splits)
    from watch_next_task[OF inv watch _ r(1)] show ?thesis using R NextTask r(2,3) by simp
  next
    case (StartExecution v)
    then show ?thesis using run R by (intro same) (auto split: sum.splits)
  next
    case (RunEvm v t db)
    then have "sh' = sh" using run by (auto elim!: run_evm_step.elims split: sum.splits prod.splits)
    then show ?thesis using R RunEvm by (intro same) auto
  next
    case (AddDependency v b)
    then obtain added s' where a: "add_dependency (ver_idx v) b ?s = Inr (added, s')" "sh_scheduler sh' = s'"
      "k' = (if added then CheckError None else StartExecution v)"
      using run by (auto simp: add_dependency_step_def split: sum.splits)
    from watch_add_dependency[OF own watch _ _ a(1)] show ?thesis
      using R AddDependency ok a(2,3) by (simp split: if_splits)
  next
    case (SetError v e)
    then show ?thesis using run err by (auto simp: set_error_step_def split: option.splits)
  next
    case (Record v res reads ws nxt)
    then show ?thesis using run R by (intro same) (auto simp: record_step_def split: sum.splits)
  next
    case (FinishExecution v new nxt)
    then obtain r s' where r: "finish_execution v new nxt ?s = Inr (r, s')" "sh_scheduler sh' = s'" "k' = CheckError r"
      using run by (auto simp: finish_execution_step_def split: sum.splits)
    from watch_finish_execution[OF own watch _ r(1)] show ?thesis using R FinishExecution r(2,3) by simp
  next
    case (Validate v)
    then show ?thesis using run R by (intro same) (auto simp: validate_step_def split: sum.splits if_splits)
  next
    case (TryAbort v)
    then obtain b s' where a: "try_validation_abort v ?s = Inr (b, s')" "sh_scheduler sh' = s'"
      "k' = (if b then ConvertWrites v else FinishValidation v False)"
      using run by (auto simp: try_abort_step_def split: sum.splits)
    from watch_try_abort[OF own watch _ a(1)] show ?thesis using R TryAbort a(2,3) by (simp split: if_splits)
  next
    case (ConvertWrites v)
    then show ?thesis using run R by (intro same) (auto simp: convert_step_def split: sum.splits)
  next
    case (FinishValidation v ab)
    then obtain r s' where r: "finish_validation v ab ?s = Inr (r, s')" "sh_scheduler sh' = s'" "k' = CheckError r"
      using run by (auto simp: finish_validation_step_def split: sum.splits)
    from watch_finish_validation[OF own watch _ r(1)] show ?thesis using R FinishValidation r(2,3) by simp
  next
    case (CheckError r)
    then show ?thesis using run R err
      by (intro same) (auto simp: check_error_step_def split: option.splits if_splits)
  next
    case Stopped
    then show ?thesis using run R by (intro same) auto
  qed
qed

section \<open>The system\<close>

definition sys_watched :: "revm \<Rightarrow> read_error transact \<Rightarrow> vm \<Rightarrow> system \<Rightarrow> bool" where
  "sys_watched rv transact vm s \<longleftrightarrow> (\<exists>H. sys_ok rv transact vm s H) \<and>
     (execution_error (sys_shared s) = None \<longrightarrow>
        watch_inv (sh_scheduler (sys_shared s)) (roles (sys_workers s)))"

lemma sys_watched_step:
  assumes mach: "machine_ok transact vm" and ok: "sys_watched rv transact vm s"
    and step: "sys_step rv transact vm s s'"
  shows "sys_watched rv transact vm s'"
proof -
  obtain H where H: "sys_ok rv transact vm s H" using ok by (auto simp: sys_watched_def)
  obtain w k sh where w: "s' = \<lparr>sys_shared = sh, sys_workers = (sys_workers s)[w := k]\<rparr>"
    "w < length (sys_workers s)" "worker_step rv transact vm (sys_workers s ! w) (sys_shared s) = Inr (k, sh)"
    using step by (auto elim: sys_stepE)
  have "watch_inv (sh_scheduler sh) ((roles (sys_workers s))(w := role_of k))" if "execution_error sh = None"
  proof (rule worker_step_watch[OF _ _ _ w(3) that])
    show "core_inv rv transact vm (sys_shared s) (roles (sys_workers s)) H"
      "worker_ok rv transact vm (history_values H) (sys_workers s ! w)"
      using H w(2) by (simp_all add: sys_ok_def)
    show "watch_inv (sh_scheduler (sys_shared s)) (roles (sys_workers s))"
      using ok worker_step_error[OF w(3) that] by (simp add: sys_watched_def)
  qed (simp add: roles_def w(2))
  then show ?thesis
    using sys_ok_step[OF mach H step] by (simp add: sys_watched_def w(1) roles_update[OF w(2)])
qed

lemma sys_watched_init:
  assumes "initial_scheduler (length (txs vm)) s0" and "0 < c"
  shows "sys_watched rv transact vm (sys_init vm s0 c)"
  using sys_ok_init[OF assms] assms(1)
  by (fastforce simp: sys_watched_def watch_inv_def sys_init_def Let_def initial_scheduler_def)

interpretation progress: invariant_system
  "\<lambda>s. machine_ok transact vm \<and> sys_initial vm s" "sys_step rv transact vm"
  "\<lambda>s. machine_ok transact vm \<and> sys_watched rv transact vm s"
  for rv transact vm
proof unfold_locales
  fix s assume "machine_ok transact vm \<and> sys_initial vm s"
  then show "machine_ok transact vm \<and> sys_watched rv transact vm s"
    using sys_watched_init unfolding sys_initial_def by blast
next
  fix s s' assume "machine_ok transact vm \<and> sys_watched rv transact vm s" "sys_step rv transact vm s s'"
  then show "machine_ok transact vm \<and> sys_watched rv transact vm s'"
    using sys_watched_step by blast
qed

section \<open>The loop of an idle scheduler\<close>

text \<open>Nothing is executing or being aborted, and no executed transaction is forgotten.\<close>

definition idle_sched :: "scheduler \<Rightarrow> bool" where
  "idle_sched s \<longleftrightarrow> sched_inv {} s \<and> (\<forall>t < block_size s. stat s t \<noteq> Executing) \<and> watch_inv s (\<lambda>w. Free)"

definition unscanned :: "scheduler \<Rightarrow> nat" where
  "unscanned s = (block_size s - execution_idx s) + (block_size s - validation_idx s)"

lemma all_validated_count:
  assumes base: "sched_base A s"
    and all: "\<And>t. min_validation_idx s \<le> t \<Longrightarrow> t < block_size s \<Longrightarrow> stat s t = Validated"
  shows "block_size s - min_validation_idx s \<le> num_validated s"
proof -
  let ?V = "{i. i < block_size s \<and> stat s i = Validated}"
  have "num_validated s = card ?V"
    unfolding sched_baseD(4)[OF base] validated_count_def length_filter_nth base_lengths(1)[OF base] ..
  moreover have "{min_validation_idx s ..< block_size s} \<subseteq> ?V" using all by auto
  then have "card {min_validation_idx s ..< block_size s} \<le> card ?V" by (intro card_mono) auto
  ultimately show ?thesis by simp
qed

lemma idle_scanned:
  assumes idle: "idle_sched s" and over: "block_size s \<le> execution_idx s" "block_size s \<le> validation_idx s"
  shows "next_task_iter s = Inr (Break, s)"
proof -
  have inv: "sched_inv {} s" and ex: "\<And>t. t < block_size s \<Longrightarrow> stat s t \<noteq> Executing"
    and watch: "watch_inv s (\<lambda>w. Free)" using idle by (auto simp: idle_sched_def)
  have "stat s t = Validated" if "min_validation_idx s \<le> t" "t < block_size s" for t
    using quiescent_all_done[OF inv ex over(1) that(2)] watch that over(2) by (force simp: watch_inv_def)
  from all_validated_count[OF inv_base[OF inv] this] show ?thesis using over by (simp add: next_task_iter_def)
qed

lemma try_execute_none:
  "try_execute tx s = Inr (None, s') \<Longrightarrow> execution_idx s \<le> execution_idx s' \<and>
     block_size s' = block_size s \<and> validation_idx s' = validation_idx s"
proof (induction tx s rule: try_execute.induct)
  case (1 tx s)
  show ?case
  proof (cases "tx < block_size s")
    case True
    then show ?thesis using 1
      by (subst (asm) (2) try_execute.simps) (fastforce split: sum.splits if_splits)
  qed (use 1 in \<open>simp add: try_execute.simps\<close>)
qed

lemma continue_scans:
  assumes run: "next_task_iter s = Inr (Continue, s')"
    and left: "\<not> (block_size s \<le> execution_idx s \<and> block_size s \<le> validation_idx s)"
  shows "unscanned s' < unscanned s"
proof (cases "validation_idx s < execution_idx s")
  case True
  then have "s' = s\<lparr>validation_idx := validation_idx s + 1\<rparr>" "validation_idx s < block_size s"
    using run left by (auto simp: next_task_iter_def sched_try_validate_def Let_def
        split: sum.splits option.splits if_splits)
  then show ?thesis by (simp add: unscanned_def)
next
  case False
  then have "try_execute (execution_idx s) (s\<lparr>execution_idx := execution_idx s + 1\<rparr>) = Inr (None, s')"
    using run left by (auto simp: next_task_iter_def split: sum.splits option.splits if_splits)
  from try_execute_none[OF this] show ?thesis using False left by (auto simp: unscanned_def)
qed

lemma idle_continue:
  assumes "idle_sched s" and run: "next_task_iter s = Inr (Continue, s')"
  shows "idle_sched s'" and "unscanned s' < unscanned s"
    and "transactions_status s' = transactions_status s" and "block_size s' = block_size s"
proof -
  have inv: "sched_inv {} s" and watch: "watch_inv s (\<lambda>w. Free)" using assms(1) by (auto simp: idle_sched_def)
  have s': "sched_inv {} s'" "skipped s s'" using next_task_iter_ok[OF inv] run by auto
  show st: "transactions_status s' = transactions_status s" and sz: "block_size s' = block_size s"
    using s'(2) by (auto simp: skipped_def)
  have "watch_inv s' (\<lambda>w. Free)" using watch_next_task[OF inv watch _ run, of 0] by (simp add: fun_upd_def)
  then show "idle_sched s'" using s'(1) assms(1) st sz by (simp add: idle_sched_def)
  show "unscanned s' < unscanned s"
    by (rule continue_scans[OF run]) (use idle_scanned[OF assms(1)] run in auto)
qed

lemma idle_next_task:
  "idle_sched s \<Longrightarrow> \<exists>r s'. next_task s = Some (Inr (r, s')) \<and>
     (r = None \<longrightarrow> (\<forall>t < block_size s. is_done (stat s t)))"
proof (induction "unscanned s" arbitrary: s rule: less_induct)
  case less
  have inv: "sched_inv {} s" and ex: "\<And>t. t < block_size s \<Longrightarrow> stat s t \<noteq> Executing"
    using less.prems by (auto simp: idle_sched_def)
  obtain r s' where r: "next_task_iter s = Inr (r, s')" using next_task_iter_ok[OF inv] by blast
  show ?case
  proof (cases r)
    case Break
    then have "block_size s \<le> execution_idx s" using next_task_iter_ok[OF inv] r by auto
    then show ?thesis using r Break quiescent_all_done[OF inv ex] by (subst next_task.simps) simp
  next
    case Continue
    note c = idle_continue[OF less.prems r[unfolded Continue]]
    have "next_task s = next_task s'" using r Continue by (subst next_task.simps) simp
    then show ?thesis using less.hyps[OF c(2,1)] c(3,4) by simp
  next
    case (Return t)
    then show ?thesis using r by (subst next_task.simps) simp
  qed
qed

lemma roles_idle:
  "\<forall>k \<in> set ws. k = NextTask \<or> k = Stopped \<Longrightarrow> roles ws = (\<lambda>w. Free)"
  by (fastforce simp: roles_def fun_eq_iff dest: nth_mem)

lemma sys_idle:
  assumes ok: "sys_watched rv transact vm s" and err: "execution_error (sys_shared s) = None"
    and idle: "\<forall>k \<in> set (sys_workers s). k = NextTask \<or> k = Stopped"
  shows "idle_sched (sh_scheduler (sys_shared s))"
proof -
  obtain H where "core_inv rv transact vm (sys_shared s) (\<lambda>w. Free) H"
    using ok roles_idle[OF idle] by (auto simp: sys_watched_def sys_ok_def)
  note own = core_invD(2)[OF this]
  have "aborted (\<lambda>w. Free) = {}" by (auto simp: aborted_iff)
  then have "sched_inv {} (sh_scheduler (sys_shared s))" using own_invD(1)[OF own] by simp
  moreover have "all_owned (sh_scheduler (sys_shared s)) (\<lambda>w. Free)" using own_invD(4)[OF own] err by simp
  ultimately show ?thesis
    using ok err roles_idle[OF idle] by (auto simp: idle_sched_def sys_watched_def all_owned_def)
qed

text \<open>A round that changes nothing is repeated forever.\<close>

lemma next_task_spins:
  assumes "next_task_iter s = Inr (Continue, s)"
  shows "next_task s = None"
proof (rule ccontr)
  assume "next_task s \<noteq> None"
  then obtain y where "next_task s = Some y" by blast
  then have "next_task_iter s \<noteq> Inr (Continue, s)"
    by (rule next_task.raw_induct[rotated, where P = "\<lambda>x y. next_task_iter x \<noteq> Inr (Continue, x)"])
      (auto split: sum.splits prod.splits round_result.splits)
  with assms show False by simp
qed

end
