(* ===== verification/Readiness.thy ===== *)
theory Readiness
  imports Progress
begin

text \<open>
  A ready transaction is never left to nobody. A worker that executes a transaction can keep it for a
  long time: when it reads the beneficiary and a lower transaction is missing, \<open>try_execute\<close> runs it
  again and again. So for every ready transaction there is a worker that has not stopped and
  executes no higher transaction. That worker will ask for a task, and find it.
\<close>

section \<open>Tasks are handed out in order\<close>

lemma try_execute_idx:
  "try_execute tx s = Inr (Some v, s') \<Longrightarrow> tx < execution_idx s \<Longrightarrow> ver_idx v < execution_idx s'"
proof (induction tx s rule: try_execute.induct)
  case (1 tx s)
  show ?case
  proof (cases "tx < block_size s")
    case True
    then show ?thesis using 1
      by (subst (asm) (2) try_execute.simps) (fastforce split: sum.splits if_splits)
  qed (use 1 in \<open>simp add: try_execute.simps\<close>)
qed

lemma next_task_idx:
  "next_task_iter s = Inr (Return (Execution v), s') \<Longrightarrow> ver_idx v < execution_idx s'"
  using try_execute_idx[of "execution_idx s" "s\<lparr>execution_idx := execution_idx s + 1\<rparr>" v s']
  by (auto simp: next_task_iter_def split: sum.splits option.splits if_splits)

lemma finish_validation_idx:
  "finish_validation v ab s = Inr (Some (Execution u), s') \<Longrightarrow> ver_idx u < execution_idx s'"
  by (auto simp: finish_validation_def Let_def set_ready_status_def split: sum.splits if_splits
      intro: try_execute_idx)

text \<open>Every ready transaction lies at or above the execution counter, so above what was handed out.\<close>

lemma ready_above:
  "sched_inv A s \<Longrightarrow> t < block_size s \<Longrightarrow> stat s t = ReadyToExecute \<Longrightarrow> execution_idx s \<le> t"
  by (auto simp: sched_inv_def ready_ok_def)

section \<open>The invariant\<close>

definition picker :: "worker \<Rightarrow> tx_idx \<Rightarrow> bool" where
  "picker k t \<longleftrightarrow> k \<noteq> Stopped \<and> (\<forall>v. executes (role_of k) = Some v \<longrightarrow> ver_idx v \<le> t)"

definition ready_inv :: "scheduler \<Rightarrow> worker list \<Rightarrow> bool" where
  "ready_inv s ks \<longleftrightarrow>
     (\<forall>t < block_size s. stat s t = ReadyToExecute \<longrightarrow> (\<exists>w < length ks. picker (ks ! w) t))"

lemma begin_not_stopped [simp]:
  "begin_task t \<noteq> Stopped" "Stopped \<noteq> begin_task t" "after_execute v x \<noteq> Stopped" "Stopped \<noteq> after_execute v x"
  by (cases t; simp)+ (cases x; simp)+

lemma role_after_execute [simp]: "role_of (after_execute v x) = Pre v"
  by (cases x) simp_all

lemma idle_picker: "k \<noteq> Stopped \<Longrightarrow> executes (role_of k) = None \<Longrightarrow> picker k t"
  by (simp add: picker_def)

text \<open>
  After a step, the worker is a picker of a ready transaction, or the transaction was ready before
  and the worker still executes the same.
\<close>

lemma worker_step_picks:
  assumes core: "core_inv rv transact vm sh R H" and core': "core_inv rv transact vm sh' R' H'" and R: "R w = role_of k"
    and run: "worker_step rv transact vm k sh = Inr (k', sh')" and act: "k \<noteq> Stopped" and err: "execution_error sh' = None"
    and t: "t < length (txs vm)" "stat (sh_scheduler sh') t = ReadyToExecute"
  shows "picker k' t \<or> stat (sh_scheduler sh) t = ReadyToExecute \<and> k' \<noteq> Stopped \<and>
    executes (role_of k') = executes (role_of k)"
proof -
  let ?s = "sh_scheduler sh" and ?s' = "sh_scheduler sh'"
  note own = core_invD(2)[OF core] and inv = own_invD(1)[OF core_invD(2)[OF core]]
  have size: "block_size ?s = length (txs vm)" "block_size ?s' = length (txs vm)"
    using core_invD(1)[OF core] core_invD(1)[OF core'] by simp_all
  have above: "execution_idx ?s' \<le> t"
    by (rule ready_above[OF own_invD(1)[OF core_invD(2)[OF core']]]) (use size t in simp_all)
  have picked: "picker k' t" if "role_of k' = Pre v" "k' \<noteq> Stopped" "ver_idx v < execution_idx ?s'" for v
    using that above by (simp add: picker_def)
  show ?thesis
  proof (cases k)
    case NextTask
    then obtain r s' where r: "next_task_iter ?s = Inr (r, s')" "?s' = s'"
      "k' = (case r of Break \<Rightarrow> Stopped | Continue \<Rightarrow> NextTask | Return t \<Rightarrow> begin_task t)"
      using run by (auto simp: next_task_step_def split: sum.splits)
    have "r \<noteq> Break" using next_task_iter_ok[OF inv] r(1,2) above t(1) size(1) by auto
    then consider "r = Continue" | v where "r = Return (Execution v)" | v where "r = Return (Validation v)"
      by (metis round_result.exhaust task.exhaust)
    then show ?thesis
      using next_task_idx[of ?s _ s'] r picked by cases (auto intro: idle_picker)
  next
    case (FinishExecution v new nxt)
    then obtain r s' where r: "finish_execution v new nxt ?s = Inr (r, s')" "k' = CheckError r"
      using run by (auto simp: finish_execution_step_def split: sum.splits)
    obtain s1 where "sched_inv (aborted R) s1" "schedule_validation v new nxt s1 = (r, s')"
      using own_finish_execution(2)[OF own _ r(1), of w] R FinishExecution by auto
    from schedule_validation_ok(8)[OF this] show ?thesis using r(2) by (auto intro: idle_picker)
  next
    case (FinishValidation v ab)
    then obtain r s' where r: "finish_validation v ab ?s = Inr (r, s')" "?s' = s'" "k' = CheckError r"
      using run by (auto simp: finish_validation_step_def split: sum.splits)
    then show ?thesis
      using picked finish_validation_idx[of v ab ?s _ s'] by (cases r rule: task_role.cases) (auto intro: idle_picker)
  next
    case (RunEvm v x db)
    then show ?thesis using run t by (auto elim!: run_evm_step.elims split: sum.splits prod.splits)
  next
    case (AddDependency v b)
    then obtain added s' where a: "add_dependency (ver_idx v) b ?s = Inr (added, s')" "?s' = s'"
      "k' = (if added then CheckError None else StartExecution v)"
      using run by (auto simp: add_dependency_step_def split: sum.splits)
    have "\<not> added \<Longrightarrow> s' = ?s"
      using a(1) by (auto simp: add_dependency_def Let_def split: sum.splits if_splits)
    then show ?thesis using a(2,3) t(2) AddDependency by (cases added) (auto intro: idle_picker)
  qed (use run err act t in \<open>auto simp: set_error_step_def record_step_def validate_step_def try_abort_step_def
      convert_step_def check_error_step_def split: sum.splits option.splits if_splits intro: idle_picker\<close>)
qed

section \<open>The system\<close>

definition sys_alive :: "revm \<Rightarrow> read_error transact \<Rightarrow> vm \<Rightarrow> system \<Rightarrow> bool" where
  "sys_alive rv transact vm s \<longleftrightarrow> sys_watched rv transact vm s \<and>
     (execution_error (sys_shared s) = None \<longrightarrow> ready_inv (sh_scheduler (sys_shared s)) (sys_workers s))"

lemma sys_watched_core:
  assumes "sys_watched rv transact vm s"
  obtains H where "core_inv rv transact vm (sys_shared s) (roles (sys_workers s)) H"
    and "\<And>k. k \<in> set (sys_workers s) \<Longrightarrow> worker_ok rv transact vm (history_values H) k"
  using assms by (auto simp: sys_watched_def sys_ok_def)

lemma sys_alive_step:
  assumes mach: "machine_ok transact vm" and alive: "sys_alive rv transact vm s"
    and step: "sys_step rv transact vm s s'"
  shows "sys_alive rv transact vm s'"
proof -
  have wat: "sys_watched rv transact vm s" "sys_watched rv transact vm s'"
    using alive sys_watched_step[OF mach _ step] by (simp_all add: sys_alive_def)
  obtain w k sh where s': "s' = \<lparr>sys_shared = sh, sys_workers = (sys_workers s)[w := k]\<rparr>"
    and w: "w < length (sys_workers s)" "sys_workers s ! w \<noteq> Stopped"
    and run: "worker_step rv transact vm (sys_workers s ! w) (sys_shared s) = Inr (k, sh)"
    using step by (auto elim: sys_stepE)
  obtain H where c: "core_inv rv transact vm (sys_shared s) (roles (sys_workers s)) H"
    by (rule sys_watched_core[OF wat(1)])
  obtain H' where c': "core_inv rv transact vm sh (roles ((sys_workers s)[w := k])) H'"
    by (rule sys_watched_core[OF wat(2)]) (simp add: s')
  have R: "roles (sys_workers s) w = role_of (sys_workers s ! w)" using w(1) by (simp add: roles_def)
  have "ready_inv (sh_scheduler sh) ((sys_workers s)[w := k])" if err: "execution_error sh = None"
    unfolding ready_inv_def
  proof (intro allI impI)
    fix t assume t: "t < block_size (sh_scheduler sh)" "stat (sh_scheduler sh) t = ReadyToExecute"
    then have tn: "t < length (txs vm)" using core_invD(1)[OF c'] by simp
    from worker_step_picks[OF c c' R run w(2) err tn t(2)]
    consider "picker k t" | (old) "stat (sh_scheduler (sys_shared s)) t = ReadyToExecute" "k \<noteq> Stopped"
      "executes (role_of k) = executes (role_of (sys_workers s ! w))" by blast
    then show "\<exists>w' < length ((sys_workers s)[w := k]). picker ((sys_workers s)[w := k] ! w') t"
    proof cases
      case old
      have "execution_error (sys_shared s) = None" by (rule worker_step_error[OF run err])
      then obtain w' where w': "w' < length (sys_workers s)" "picker (sys_workers s ! w') t"
        using alive old(1) tn core_invD(1)[OF c] by (auto simp: sys_alive_def ready_inv_def)
      then show ?thesis using old(2,3) w(1) by (intro exI[of _ w']) (cases "w' = w"; simp add: picker_def)
    qed (use w(1) in \<open>auto intro!: exI[of _ w]\<close>)
  qed
  then show ?thesis using wat(2) by (simp add: sys_alive_def s')
qed

lemma sys_alive_init:
  assumes "initial_scheduler (length (txs vm)) s0" and "0 < c"
  shows "sys_alive rv transact vm (sys_init vm s0 c)"
  using sys_watched_init[OF assms] assms(2)
  by (auto simp: sys_alive_def ready_inv_def sys_init_def Let_def picker_def intro!: exI[of _ 0])

interpretation readiness: invariant_system
  "\<lambda>s. machine_ok transact vm \<and> sys_initial vm s" "sys_step rv transact vm"
  "\<lambda>s. machine_ok transact vm \<and> sys_alive rv transact vm s"
  for rv transact vm
proof unfold_locales
  fix s assume "machine_ok transact vm \<and> sys_initial vm s"
  then show "machine_ok transact vm \<and> sys_alive rv transact vm s"
    using sys_alive_init unfolding sys_initial_def by blast
next
  fix s s' assume "machine_ok transact vm \<and> sys_alive rv transact vm s" "sys_step rv transact vm s s'"
  then show "machine_ok transact vm \<and> sys_alive rv transact vm s'"
    using sys_alive_step by blast
qed

end
