(* ===== verification/Draining.thy ===== *)
theory Draining
  imports Readiness Fresh_Run
begin

text \<open>
  What the workers can reach from a state, when one of them is chosen at every step. This theory brings
  every worker to rest: at \<open>next_task\<close>, at the start of an execution, or stopped.
\<close>

section \<open>What can be reached\<close>

text \<open>
  The sender of a transaction lacks funds although every transaction below is executed: the case in
  which \<open>try_execute\<close> repeats the execution at once.
\<close>

definition lacks_funds :: "revm \<Rightarrow> read_error transact \<Rightarrow> vm \<Rightarrow> system \<Rightarrow> bool" where
  "lacks_funds rv transact vm s \<longleftrightarrow>
     (\<exists>v. StartExecution v \<in> set (sys_workers s) \<and> 0 < ver_idx v \<and>
        (\<forall>j < ver_idx v. is_done (stat (sh_scheduler (sys_shared s)) j)) \<and>
        runs_short rv transact vm (sh_memory (sys_shared s)) (ver_idx v))"

definition step_panics :: "revm \<Rightarrow> read_error transact \<Rightarrow> vm \<Rightarrow> system \<Rightarrow> bool" where
  "step_panics rv transact vm s \<longleftrightarrow>
     (\<exists>k \<in> set (sys_workers s). \<exists>p. worker_step rv transact vm k (sys_shared s) = Inl p)"

definition escapes :: "revm \<Rightarrow> read_error transact \<Rightarrow> vm \<Rightarrow> system \<Rightarrow> bool" where
  "escapes rv transact vm s \<longleftrightarrow>
     execution_error (sys_shared s) \<noteq> None \<or> step_panics rv transact vm s \<or> lacks_funds rv transact vm s"

definition leads :: "revm \<Rightarrow> read_error transact \<Rightarrow> vm \<Rightarrow> system \<Rightarrow> (system \<Rightarrow> bool) \<Rightarrow> bool" where
  "leads rv transact vm s P \<longleftrightarrow>
     (\<exists>s'. (sys_step rv transact vm)\<^sup>*\<^sup>* s s' \<and> (escapes rv transact vm s' \<or> P s'))"

definition good :: "revm \<Rightarrow> read_error transact \<Rightarrow> vm \<Rightarrow> system \<Rightarrow> bool" where
  "good rv transact vm s \<longleftrightarrow>
     machine_ok transact vm \<and> sys_alive rv transact vm s \<and> execution_error (sys_shared s) = None"

lemma leads_now: "P s \<Longrightarrow> leads rv transact vm s P"
  by (auto simp: leads_def)

lemma leads_escape: "escapes rv transact vm s \<Longrightarrow> leads rv transact vm s P"
  by (auto simp: leads_def)

lemma good_steps:
  assumes steps: "(sys_step rv transact vm)\<^sup>*\<^sup>* s s'" and g: "good rv transact vm s"
    and err: "execution_error (sys_shared s') = None"
  shows "good rv transact vm s'"
proof -
  have mach: "machine_ok transact vm" and alive: "sys_alive rv transact vm s" using g by (simp_all add: good_def)
  have "sys_alive rv transact vm s'"
    using steps
  proof (induction rule: rtranclp_induct)
    case (step y z)
    show ?case by (rule sys_alive_step[OF mach step.IH step.hyps(2)])
  qed (rule alive)
  then show ?thesis using mach err by (simp add: good_def)
qed

lemma leads_then:
  assumes "leads rv transact vm s P" and "good rv transact vm s"
    and "\<And>s'. good rv transact vm s' \<Longrightarrow> P s' \<Longrightarrow> leads rv transact vm s' Q"
  shows "leads rv transact vm s Q"
proof -
  obtain s' where s': "(sys_step rv transact vm)\<^sup>*\<^sup>* s s'" "escapes rv transact vm s' \<or> P s'"
    using assms(1) by (auto simp: leads_def)
  show ?thesis
  proof (cases "escapes rv transact vm s'")
    case False
    then have "good rv transact vm s'" using good_steps[OF s'(1) assms(2)] by (auto simp: escapes_def)
    then have "leads rv transact vm s' Q" using assms(3) s'(2) False by blast
    then show ?thesis using s'(1) unfolding leads_def by (meson rtranclp_trans)
  qed (use s'(1) in \<open>auto simp: leads_def\<close>)
qed

text \<open>The state after worker \<open>w\<close> has moved to \<open>k\<close>.\<close>

definition moved :: "system \<Rightarrow> nat \<Rightarrow> worker \<Rightarrow> shared \<Rightarrow> system" where
  "moved s w k sh = \<lparr>sys_shared = sh, sys_workers = (sys_workers s)[w := k]\<rparr>"

lemma moved_simps [simp]:
  "sys_shared (moved s w k sh) = sh" "sys_workers (moved s w k sh) = (sys_workers s)[w := k]"
  "moved (moved s w k sh) w k' sh' = moved s w k' sh'"
  by (simp_all add: moved_def)

lemma moved_same: "moved s w (sys_workers s ! w) (sys_shared s) = s"
  by (simp add: moved_def)

lemma leads_step:
  assumes g: "good rv transact vm s" and w: "w < length (sys_workers s)" "sys_workers s ! w \<noteq> Stopped"
    and cont: "\<And>k sh. worker_step rv transact vm (sys_workers s ! w) (sys_shared s) = Inr (k, sh) \<Longrightarrow>
      good rv transact vm (moved s w k sh) \<Longrightarrow> leads rv transact vm (moved s w k sh) P"
  shows "leads rv transact vm s P"
proof (cases "worker_step rv transact vm (sys_workers s ! w) (sys_shared s)")
  case (Inl p)
  then have "escapes rv transact vm s" using w(1) by (auto simp: escapes_def step_panics_def)
  then show ?thesis by (rule leads_escape)
next
  case (Inr x)
  obtain k sh where x: "x = (k, sh)" by (cases x)
  then have step: "sys_step rv transact vm s (moved s w k sh)"
    unfolding moved_def using sys_step.worker[OF w] Inr by simp
  have "leads rv transact vm (moved s w k sh) P"
  proof (cases "execution_error sh = None")
    case True
    then have "good rv transact vm (moved s w k sh)" using good_steps[OF r_into_rtranclp[of "sys_step rv transact vm", OF step] g] by simp
    then show ?thesis using cont Inr x by simp
  qed (auto intro!: leads_escape simp: escapes_def)
  then show ?thesis using step unfolding leads_def by (meson converse_rtranclp_into_rtranclp)
qed

section \<open>Bringing the workers to rest\<close>

definition rests :: "worker \<Rightarrow> bool" where
  "rests k \<longleftrightarrow> k = NextTask \<or> k = Stopped \<or> (\<exists>v. k = StartExecution v)"

definition resting :: "system \<Rightarrow> bool" where
  "resting s \<longleftrightarrow> (\<forall>k \<in> set (sys_workers s). rests k)"

text \<open>How many steps a worker is away from rest, when it is not inside the EVM.\<close>

fun rank :: "worker \<Rightarrow> nat" where
  "rank (CheckError (Some (Validation v))) = 6"
| "rank (CheckError _) = 1"
| "rank (FinishValidation v ab) = 2"
| "rank (ConvertWrites v) = 3"
| "rank (TryAbort v) = 4"
| "rank (Validate v) = 5"
| "rank (FinishExecution v new nxt) = 7"
| "rank (Record v res reads ws nxt) = 8"
| "rank (AddDependency v b) = 8"
| "rank (SetError v e) = 8"
| "rank _ = 0"

lemma rank_check [simp]: "rank (CheckError r) < 7" "rank (CheckError (map_option Execution u)) = 1"
  by (cases r rule: task_role.cases; simp) (cases u; simp)

lemma rank_begin [simp]: "rank (begin_task t) \<le> 5" "rank (after_execute v x) \<le> 8"
  by (cases t; simp) (cases x; simp)

lemma rank_step:
  assumes "worker_step rv transact vm k sh = Inr (k', sh')" and "\<not> rests k" and "\<forall>v t db. k \<noteq> RunEvm v t db"
  shows "rank k' < rank k" and "\<forall>v t db. k' \<noteq> RunEvm v t db"
proof -
  have fv: "\<exists>u. r = map_option Execution u" if "finish_validation v ab s = Inr (r, s')" for v ab s r s'
    using that by (auto simp: finish_validation_def Let_def split: sum.splits if_splits)
  have bt: "begin_task t \<noteq> RunEvm v x db" for t v x db by (cases t) auto
  show "rank k' < rank k"
  proof (cases k rule: rank.cases)
    case (3 v ab)
    then obtain r s' where "finish_validation v ab (sh_scheduler sh) = Inr (r, s')" "k' = CheckError r"
      using assms(1) by (auto simp: finish_validation_step_def split: sum.splits)
    then show ?thesis using fv[of v ab "sh_scheduler sh" r s'] 3 by auto
  qed (use assms in \<open>auto simp: rests_def add_dependency_step_def set_error_step_def record_step_def
      finish_execution_step_def validate_step_def try_abort_step_def convert_step_def check_error_step_def
      split: sum.splits option.splits if_splits intro: le_less_trans\<close>)
  show "\<forall>v t db. k' \<noteq> RunEvm v t db"
    using assms bt
    by (cases k) (auto simp: rests_def add_dependency_step_def set_error_step_def record_step_def
      finish_execution_step_def validate_step_def try_abort_step_def convert_step_def check_error_step_def
      finish_validation_step_def split: sum.splits option.splits if_splits)
qed

lemma drain_outside:
  assumes "good rv transact vm s" and "w < length (sys_workers s)" and "\<forall>v t db. sys_workers s ! w \<noteq> RunEvm v t db"
  shows "leads rv transact vm s (\<lambda>s'. \<exists>k sh. s' = moved s w k sh \<and> rests k)"
  using assms
proof (induction "rank (sys_workers s ! w)" arbitrary: s rule: less_induct)
  case less
  let ?goal = "\<lambda>s'. \<exists>k sh. s' = moved s w k sh \<and> rests k"
  show ?case
  proof (cases "rests (sys_workers s ! w)")
    case True
    then have "?goal s" by (intro exI[of _ "sys_workers s ! w"] exI[of _ "sys_shared s"]) (simp add: moved_same)
    then show ?thesis by (rule leads_now)
  next
    case False
    show ?thesis
    proof (rule leads_step[OF less.prems(1,2)])
      show "sys_workers s ! w \<noteq> Stopped" using False by (auto simp: rests_def)
      fix k sh assume run: "worker_step rv transact vm (sys_workers s ! w) (sys_shared s) = Inr (k, sh)"
        and g: "good rv transact vm (moved s w k sh)"
      have kw: "sys_workers (moved s w k sh) ! w = k" using less.prems(2) by simp
      note R = rank_step[OF run False less.prems(3)]
      from less.hyps[of "moved s w k sh"] R g less.prems(2) kw
      show "leads rv transact vm (moved s w k sh) ?goal" by simp
    qed
  qed
qed

text \<open>An execution, alone and to its end.\<close>

lemma run_steps:
  assumes w: "w < length (sys_workers s)"
  shows "run_evm (vm_database rv vm (sh_memory sh)) t db = (r, db') \<Longrightarrow>
    (sys_step rv transact vm)\<^sup>*\<^sup>* (moved s w (RunEvm v t db) sh) (moved s w (RunEvm v (Evm_Done r) db') sh)"
proof (induction t arbitrary: db)
  let ?d = "vm_database rv vm (sh_memory sh)" and ?step = "sys_step rv transact vm"
  have call: "?step\<^sup>*\<^sup>* (moved s w (RunEvm v t db) sh) (moved s w (RunEvm v (Evm_Done r) db') sh)"
    if run: "run_evm ?d t db = (r, db')" and nd: "\<And>x. t \<noteq> Evm_Done x"
      and br: "\<exists>x db1. evm_step ?d t db = (k x, db1)"
      and IH: "\<And>x db. run_evm ?d (k x) db = (r, db') \<Longrightarrow>
        ?step\<^sup>*\<^sup>* (moved s w (RunEvm v (k x) db) sh) (moved s w (RunEvm v (Evm_Done r) db') sh)"
    for t db and k :: "'c \<Rightarrow> vm_run"
  proof -
    obtain x db1 where st: "evm_step ?d t db = (k x, db1)" using br by blast
    then have "worker_step rv transact vm (RunEvm v t db) sh = Inr (RunEvm v (k x) db1, sh)"
      using nd[symmetric] by (cases t) auto
    then have "?step (moved s w (RunEvm v t db) sh) (moved (moved s w (RunEvm v t db) sh) w (RunEvm v (k x) db1) sh)"
      unfolding moved_def by (intro sys_step.worker) (use w in simp_all)
    moreover have "run_evm ?d (k x) db1 = (r, db')" using run st by (simp add: run_evm_step[of _ t])
    ultimately show ?thesis using IH converse_rtranclp_into_rtranclp[of ?step] by simp
  qed
  { case (Evm_Done x) then show ?case by simp }
  { case (Evm_Basic a pre k)
    show ?case by (rule call[OF Evm_Basic.prems _ evm_step_branch(1)]) (use Evm_Basic.IH in blast)+ }
  { case (Evm_Code_By_Hash h k)
    show ?case by (rule call[OF Evm_Code_By_Hash.prems _ evm_step_branch(2)]) (use Evm_Code_By_Hash.IH in blast)+ }
  { case (Evm_Has_Storage a k)
    show ?case by (rule call[OF Evm_Has_Storage.prems _ evm_step_branch(3)]) (use Evm_Has_Storage.IH in blast)+ }
  { case (Evm_Storage a j k)
    show ?case by (rule call[OF Evm_Storage.prems _ evm_step_branch(4)]) (use Evm_Storage.IH in blast)+ }
  { case (Evm_Block_Hash n k)
    show ?case by (rule call[OF Evm_Block_Hash.prems _ evm_step_branch(5)]) (use Evm_Block_Hash.IH in blast)+ }
qed

lemma leads_steps: "(sys_step rv transact vm)\<^sup>*\<^sup>* s s' \<Longrightarrow> leads rv transact vm s' P \<Longrightarrow> leads rv transact vm s P"
  unfolding leads_def by (meson rtranclp_trans)

lemma run_alone:
  assumes g: "good rv transact vm s" and w: "w < length (sys_workers s)" "sys_workers s ! w = RunEvm v t db"
    and run: "run_evm (vm_database rv vm (sh_memory (sys_shared s))) t db = (r, db')"
    and fin: "\<And>x. vm_finish rv vm (txs vm ! ver_idx v) db' r = Inr x \<Longrightarrow>
      good rv transact vm (moved s w (after_execute v x) (sys_shared s)) \<Longrightarrow>
      leads rv transact vm (moved s w (after_execute v x) (sys_shared s)) P"
  shows "leads rv transact vm s P"
proof -
  let ?s = "moved s w (RunEvm v (Evm_Done r) db') (sys_shared s)"
  have steps: "(sys_step rv transact vm)\<^sup>*\<^sup>* s ?s"
    using run_steps[OF w(1) run, of transact v] moved_same[of s w] w(2) by simp
  have g': "good rv transact vm ?s" by (rule good_steps[OF steps g]) (use g in \<open>simp add: good_def\<close>)
  have "leads rv transact vm ?s P"
  proof (rule leads_step[OF g'])
    fix k sh assume "worker_step rv transact vm (sys_workers ?s ! w) (sys_shared ?s) = Inr (k, sh)"
      "good rv transact vm (moved ?s w k sh)"
    then show "leads rv transact vm (moved ?s w k sh) P" using fin w(1) by (auto split: sum.splits)
  qed (use w(1) in simp_all)
  then show ?thesis by (rule leads_steps[OF steps])
qed

lemma drain:
  assumes g: "good rv transact vm s" and w: "w < length (sys_workers s)"
  shows "leads rv transact vm s (\<lambda>s'. \<exists>k sh. s' = moved s w k sh \<and> rests k)"
proof (cases "\<exists>v t db. sys_workers s ! w = RunEvm v t db")
  case True
  then obtain v t db where k: "sys_workers s ! w = RunEvm v t db" by blast
  obtain r db' where "run_evm (vm_database rv vm (sh_memory (sys_shared s))) t db = (r, db')" by fastforce
  then show ?thesis
  proof (rule run_alone[OF g w k])
    fix x assume g': "good rv transact vm (moved s w (after_execute v x) (sys_shared s))"
    have "\<forall>v' t db. after_execute v x \<noteq> RunEvm v' t db" by (cases x) auto
    then show "leads rv transact vm (moved s w (after_execute v x) (sys_shared s))
        (\<lambda>s'. \<exists>k sh. s' = moved s w k sh \<and> rests k)"
      using drain_outside[OF g', of w] w by simp
  qed
qed (use drain_outside[OF g w] in blast)

lemma drain_all:
  assumes g: "good rv transact vm s"
  shows "leads rv transact vm s resting"
proof -
  have "leads rv transact vm s (\<lambda>s'. length (sys_workers s') = length (sys_workers s) \<and>
      (\<forall>w < n. rests (sys_workers s' ! w)))" if "n \<le> length (sys_workers s)" for n
    using that
  proof (induction n)
    case (Suc n)
    show ?case
    proof (rule leads_then[OF _ g])
      show "leads rv transact vm s (\<lambda>s'. length (sys_workers s') = length (sys_workers s) \<and>
          (\<forall>w < n. rests (sys_workers s' ! w)))" using Suc by simp
      fix s' assume g': "good rv transact vm s'" and s': "length (sys_workers s') = length (sys_workers s) \<and>
          (\<forall>w < n. rests (sys_workers s' ! w))"
      have n: "n < length (sys_workers s')" using Suc.prems s' by simp
      show "leads rv transact vm s' (\<lambda>s'. length (sys_workers s') = length (sys_workers s) \<and>
          (\<forall>w < Suc n. rests (sys_workers s' ! w)))"
        by (rule leads_then[OF drain[OF g' n] g'], rule leads_now)
          (use s' n in \<open>auto simp: less_Suc_eq nth_list_update\<close>)
    qed
  qed (simp add: leads_now)
  note all = this[OF order_refl]
  show ?thesis by (rule leads_then[OF all g]) (auto intro!: leads_now simp: resting_def in_set_conv_nth)
qed

end
