(* ===== verification/Completion.thy ===== *)
theory Completion
  imports Draining
begin

text \<open>
  The workers can always finish. From every reachable state without an execution error there is an
  order of steps in which all workers stop, unless an execution ends with an error, a step panics,
  or a transaction lacks funds although everything below it is executed.

  First every worker is brought to rest. Then the least transaction that is not settled is settled,
  by the worker that executes it or by one that is free to pick it. When all are settled, the
  workers stop.
\<close>

section \<open>What a step keeps of the lower transactions\<close>

definition kept :: "tx_idx \<Rightarrow> shared \<Rightarrow> shared \<Rightarrow> bool" where
  "kept k sh sh' \<longleftrightarrow>
     (\<forall>t < k. is_done (stat (sh_scheduler sh) t) \<longrightarrow> is_done (stat (sh_scheduler sh') t) \<and>
        (reads_now (sh_memory sh) t \<longrightarrow> reads_now (sh_memory sh') t)) \<and>
     min (min_validation_idx (sh_scheduler sh)) k \<le> min_validation_idx (sh_scheduler sh')"

lemma kept_refl [simp]: "kept k sh sh"
  by (simp add: kept_def)

lemma kept_trans: "kept k sh sh' \<Longrightarrow> kept k sh' sh'' \<Longrightarrow> kept k sh sh''"
  by (auto simp: kept_def min_def split: if_splits)

lemma kept_mono: "kept k sh sh' \<Longrightarrow> j \<le> k \<Longrightarrow> kept j sh sh'"
  by (auto simp: kept_def min_def split: if_splits)

text \<open>A transaction is settled when it is executed and its reads are valid or never validated.\<close>

definition settled :: "shared \<Rightarrow> nat \<Rightarrow> bool" where
  "settled sh k \<longleftrightarrow> (\<forall>t < k. is_done (stat (sh_scheduler sh) t) \<and>
     (reads_now (sh_memory sh) t \<or> t < min_validation_idx (sh_scheduler sh)))"

lemma settled_kept: "settled sh k \<Longrightarrow> kept k sh sh' \<Longrightarrow> settled sh' k"
  by (fastforce simp: settled_def kept_def)

lemma settled_Suc:
  "settled sh k \<Longrightarrow> is_done (stat (sh_scheduler sh) k) \<Longrightarrow>
   reads_now (sh_memory sh) k \<or> k < min_validation_idx (sh_scheduler sh) \<Longrightarrow> settled sh (Suc k)"
  by (auto simp: settled_def less_Suc_eq)

section \<open>The counters\<close>

lemma resume_dependents_least:
  "resume_dependents ds m s = Inr (m', s') \<Longrightarrow> m' = Some i \<Longrightarrow> i \<in> set ds \<or> m = Some i"
proof (induction ds m s rule: resume_dependents.induct)
  case (2 tx txs m s)
  obtain b s1 where b: "resume_dependent tx s = Inr (b, s1)"
    using "2.prems" by (auto split: sum.splits)
  from "2.IH"[OF b refl, of ] "2.prems" b show ?case
    by (auto simp: min_def split: if_splits option.splits)
qed auto

lemma resume_dependents_execution_idx:
  "resume_dependents ds m s = Inr (m', s') \<Longrightarrow> execution_idx s' = execution_idx s"
proof (induction ds m s rule: resume_dependents.induct)
  case (2 tx txs m s)
  obtain b s1 where b: "resume_dependent tx s = Inr (b, s1)"
    using "2.prems" by (auto split: sum.splits)
  have "execution_idx s1 = execution_idx s"
    using b by (auto simp: resume_dependent_def Let_def set_ready_status_def map_sum_def
        split: option.splits sum.splits if_splits)
  then show ?case using "2.IH"[OF b refl] "2.prems" b by simp
qed auto

lemma schedule_validation_idx:
  "schedule_validation v new nxt s = (r, s') \<Longrightarrow> execution_idx s' = execution_idx s \<and>
     min (validation_idx s) (ver_idx v + 1) \<le> validation_idx s'"
  by (auto simp: schedule_validation_def Let_def min_def split: if_splits option.splits)

lemma finish_execution_counters:
  assumes "finish_execution v new nxt s = Inr (r, s')" and "\<forall>i \<in> set (transactions_dependents s ! ver_idx v). ver_idx v < i"
  shows "min (execution_idx s) (ver_idx v + 1) \<le> execution_idx s'"
proof -
  obtain m s2 where m: "resume_dependents (transactions_dependents s ! ver_idx v) None (set_status (ver_idx v) Executed s) = Inr (m, s2)"
    "Inr (r, s') = (Inr (schedule_validation v new nxt (after_resume (ver_idx v) m s2)) :: (task option \<times> scheduler) panics)"
    using assms(1) by (auto simp: finish_execution_def Let_def after_resume_def vec_get_eq_Inr_iff set_status_def
        split: sum.splits if_splits)
  have "execution_idx s2 = execution_idx s"
    using resume_dependents_execution_idx[OF m(1)] by (simp add: set_status_def)
  moreover have "m = Some i \<Longrightarrow> ver_idx v < i" for i
    using resume_dependents_least[OF m(1)] assms(2) by auto
  moreover have "execution_idx s' = execution_idx (after_resume (ver_idx v) m s2)"
    using schedule_validation_idx[of v new nxt "after_resume (ver_idx v) m s2" r s'] m(2) by simp
  ultimately show ?thesis by (fastforce simp: after_resume_def Let_def min_def split: option.splits)
qed

section \<open>Moves of one worker\<close>

lemma good_core:
  assumes "good rv transact vm s"
  obtains H where "core_inv rv transact vm (sys_shared s) (roles (sys_workers s)) H"
    and "\<And>k. k \<in> set (sys_workers s) \<Longrightarrow> worker_ok rv transact vm (history_values H) k"
    and "own_inv False (sh_scheduler (sys_shared s)) (roles (sys_workers s))"
    and "block_size (sh_scheduler (sys_shared s)) = length (txs vm)"
    and "vm_wf vm" and "\<And>i. i < length (txs vm) \<Longrightarrow> propagates (tx_run transact vm i)"
proof -
  have w: "sys_watched rv transact vm s" and e: "execution_error (sys_shared s) = None"
    using assms by (simp_all add: good_def sys_alive_def)
  obtain H where c: "core_inv rv transact vm (sys_shared s) (roles (sys_workers s)) H"
    and k: "\<And>k. k \<in> set (sys_workers s) \<Longrightarrow> worker_ok rv transact vm (history_values H) k"
    using sys_watched_core[OF w] by blast
  show thesis
    by (rule that[OF c k]) (use core_invD(1,2)[OF c] e assms in \<open>auto simp: good_def machine_ok_def\<close>)
qed

text \<open>When all lower transactions are executed, the memory below is complete.\<close>

lemma complete_below:
  assumes core: "core_inv rv transact vm sh R H" and i: "i \<le> length (txs vm)"
    and low: "\<forall>j < i. is_done (stat (sh_scheduler sh) j)"
  shows "complete vm (sh_memory sh) i"
  unfolding complete_def
proof (intro allI impI)
  fix j assume j: "j < i"
  let ?s = "sh_scheduler sh" and ?v = "\<lparr>ver_idx = j, ver_incarnation = inc (sh_scheduler sh) j\<rparr>"
  note hist = core_invD(3)[OF core]
  have jn: "j < block_size ?s" using j i core_invD(1)[OF core] by simp
  have live: "live ?s R j" using low j by (simp add: live_def)
  have get: "mv_get (sh_memory sh) l j = map_option (Data (inc ?s j)) (history_values H ?v l)" for l
    by (rule hist_invD(8)[OF hist jn live])
  obtain r where r: "H ?v = Some r" using hist_invD(7)[OF hist jn live_current[OF live]] by blast
  then have "beneficiary_location_hash vm \<in> fst ` set (rec_writes r)"
    using hist_invD(5)[OF hist r] by (simp add: replayable_def)
  then have "history_values H ?v (beneficiary_location_hash vm) \<noteq> None"
    using r by (auto simp: history_values_def map_of_eq_None_iff)
  then show "(\<forall>l. mv_get (sh_memory sh) l j \<noteq> Some Estimate) \<and>
      mv_get (sh_memory sh) (beneficiary_location_hash vm) j \<noteq> None" by (auto simp: get)
qed

text \<open>A change of statuses that keeps executed transactions executed.\<close>

definition quiet :: "shared \<Rightarrow> shared \<Rightarrow> bool" where
  "quiet sh sh' \<longleftrightarrow> sh_memory sh' = sh_memory sh \<and>
     execution_idx (sh_scheduler sh') = execution_idx (sh_scheduler sh) \<and>
     validation_idx (sh_scheduler sh') = validation_idx (sh_scheduler sh) \<and>
     min_validation_idx (sh_scheduler sh') = min_validation_idx (sh_scheduler sh) \<and>
     (\<forall>t. stat (sh_scheduler sh') t = stat (sh_scheduler sh) t \<or>
        is_done (stat (sh_scheduler sh) t) \<and> is_done (stat (sh_scheduler sh') t))"

lemma quiet_done: "quiet sh sh' \<Longrightarrow> is_done (stat (sh_scheduler sh') t) \<longleftrightarrow> is_done (stat (sh_scheduler sh) t)"
  unfolding quiet_def by metis

lemma quiet_kept: "quiet sh sh' \<Longrightarrow> kept k sh sh'"
  unfolding kept_def using quiet_done[of sh sh'] by (auto simp: quiet_def)

lemma leads_check_none:
  assumes g: "good rv transact vm s" and w: "w < length (sys_workers s)" "sys_workers s ! w = CheckError r"
    and cont: "leads rv transact vm (moved s w (case r of None \<Rightarrow> NextTask | Some t \<Rightarrow> begin_task t) (sys_shared s)) P"
  shows "leads rv transact vm s P"
  by (rule leads_step[OF g w(1)])
    (use w(2) cont g in \<open>auto simp: check_error_step_def good_def\<close>)

text \<open>A validation of valid reads.\<close>

lemma validate_passes:
  assumes g: "good rv transact vm s" and w: "w < length (sys_workers s)" "sys_workers s ! w = Validate v"
    and now: "reads_now (sh_memory (sys_shared s)) (ver_idx v)"
  shows "leads rv transact vm s (\<lambda>s'. \<exists>sh. s' = moved s w NextTask sh \<and> quiet (sys_shared s) sh)"
    (is "leads _ _ _ _ ?goal")
proof (rule leads_step[OF g w(1)])
  let ?sh = "sys_shared s"
  fix k sh assume run: "worker_step rv transact vm (sys_workers s ! w) ?sh = Inr (k, sh)"
    and g1: "good rv transact vm (moved s w k sh)"
  have k: "k = FinishValidation v False" "sh = ?sh"
    using run w(2) now by (auto simp: validate_step_def validate_read_locations_def reads_now_def reads_valid_def
        vec_get_eq_Inr_iff split: sum.splits if_splits)
  show "leads rv transact vm (moved s w k sh) ?goal"
  proof (rule leads_step[OF g1])
    fix k2 sh2 assume run2: "worker_step rv transact vm (sys_workers (moved s w k sh) ! w) (sys_shared (moved s w k sh)) = Inr (k2, sh2)"
      and g2: "good rv transact vm (moved (moved s w k sh) w k2 sh2)"
    obtain H where own: "own_inv False (sh_scheduler ?sh) (roles (sys_workers (moved s w k sh)))"
      by (rule good_core[OF g1]) (simp add: k)
    have R: "roles (sys_workers (moved s w k sh)) w = Confirming v" using w(1) by (simp add: roles_def k)
    obtain r s' where fin: "finish_validation v False (sh_scheduler ?sh) = Inr (r, s')" "k2 = CheckError r"
      "sh2 = ?sh\<lparr>sh_scheduler := s'\<rparr>"
      using run2 w(1) k by (auto simp: finish_validation_step_def split: sum.splits)
    note V = own_validated[OF own R fin(1)]
    have v: "ver_idx v < length (transactions_status (sh_scheduler ?sh))"
      using own_invD(3)[OF own, of w] R base_lengths(1)[OF inv_base[OF own_invD(1)[OF own]]] by simp
    have "quiet ?sh sh2"
      using stat_set_status[OF v, of Validated] by (auto simp: quiet_def fin(3) V(3))
    then show "leads rv transact vm (moved (moved s w k sh) w k2 sh2) ?goal"
      by (intro leads_check_none[OF g2]) (use w(1) in \<open>auto simp: fin(2) V(1) intro!: leads_now\<close>)
  qed (use w(1) in \<open>simp_all add: k\<close>)
qed (use w(2) in simp)

text \<open>A change of the memory at or above \<open>k\<close>.\<close>

lemma kept_memory:
  assumes core: "core_inv rv transact vm sh R H" and k: "k \<le> length (txs vm)" and m': "mv_inv m'"
    and last: "\<And>t. t < k \<Longrightarrow> mv_last m' ! t = mv_last (sh_memory sh) ! t"
    and get: "\<And>l t. t < k \<Longrightarrow> mv_get m' l t = mv_get (sh_memory sh) l t"
    and t: "t < k" "is_done (stat (sh_scheduler sh) t)" "reads_now (sh_memory sh) t"
  shows "reads_now m' t"
proof (rule reads_now_stable[OF core_invD(3)[OF core] _ t(2) m' last[OF t(1)] _ t(3)])
  show "t < block_size (sh_scheduler sh)" using t(1) k core_invD(1)[OF core] by simp
qed (use t(1) get in simp)

lemma finish_validation_takes:
  assumes "finish_validation v True s = Inr (r, s')" and "ver_idx v < execution_idx s"
    and "ver_idx v < block_size s"
  shows "r \<noteq> None"
proof -
  obtain s1 where s1: "set_ready_status (ver_idx v) s = Inr s1" using assms(1) by (auto simp: finish_validation_def split: sum.splits)
  then have s1': "s1 = s\<lparr>transactions_status := (transactions_status s)
      [ver_idx v := \<lparr>incarnation = inc s (ver_idx v) + 1, status = ReadyToExecute\<rparr>]\<rparr>" "ver_idx v < length (transactions_status s)"
    by (auto simp: set_ready_status_def vec_get_eq_Inr_iff split: sum.splits if_splits)
  let ?s2 = "s1\<lparr>validation_idx := min (validation_idx s1) (ver_idx v + 1)\<rparr>"
  have "\<exists>u s3. try_execute (ver_idx v) ?s2 = Inr (Some u, s3)"
    using assms(3) by (subst try_execute.simps) (simp add: s1')
  then show ?thesis using assms(1,2) s1 by (auto simp: finish_validation_def Let_def s1'(1))
qed

text \<open>
  A validation of invalid reads, below the execution counter, by a worker alone: the worker starts the
  execution again.
\<close>

lemma reschedules:
  assumes g: "good rv transact vm s" and w: "w < length (sys_workers s)" "sys_workers s ! w = FinishValidation v True"
    and ex: "ver_idx v < execution_idx (sh_scheduler (sys_shared s))"
  shows "leads rv transact vm s (\<lambda>s'. \<exists>u sh. s' = moved s w (StartExecution u) sh \<and> ver_idx u = ver_idx v \<and>
    kept (ver_idx v) (sys_shared s) sh)" (is "leads _ _ _ _ ?goal")
proof (rule leads_step[OF g w(1)])
  let ?sh = "sys_shared s" and ?i = "ver_idx v"
  let ?s = "sh_scheduler ?sh"
  fix k sh assume run: "worker_step rv transact vm (sys_workers s ! w) ?sh = Inr (k, sh)"
    and g1: "good rv transact vm (moved s w k sh)"
  obtain H where own: "own_inv False ?s (roles (sys_workers s))" by (rule good_core[OF g])
  have R: "roles (sys_workers s) w = Rescheduling v" using w by (simp add: roles_def)
  then have i: "?i < block_size ?s" using own_invD(3)[OF own, of w] by simp
  obtain r s' where fin: "finish_validation v True ?s = Inr (r, s')" "k = CheckError r" "sh = ?sh\<lparr>sh_scheduler := s'\<rparr>"
    using run w by (auto simp: finish_validation_step_def split: sum.splits)
  have "r \<noteq> None" by (rule finish_validation_takes[OF fin(1) ex i])
  then obtain u s1 where u: "r = Some (Execution u)" "ver_idx u = ?i" "picked s1 u s'"
    "s1 = ?s\<lparr>transactions_status := (transactions_status ?s)
         [?i := \<lparr>incarnation = inc ?s ?i + 1, status = ReadyToExecute\<rparr>], validation_idx := min (validation_idx ?s) (?i + 1)\<rparr>"
    using own_reschedule(2)[OF own R fin(1)] by blast
  have "kept ?i ?sh sh"
    using u(2,3) pickedD[OF u(3)] base_lengths(1)[OF inv_base[OF own_invD(1)[OF own]]]
    by (auto simp: kept_def fin(3) u(4))
  then have "?goal (moved s w (StartExecution u) sh)" using u(2) by blast
  then show "leads rv transact vm (moved s w k sh) ?goal"
    by (intro leads_check_none[OF g1, of w r]) (use w(1) in \<open>simp_all add: fin(2) u(1) leads_now\<close>)
qed (use w in simp)

lemma validate_fails:
  assumes g: "good rv transact vm s" and w: "w < length (sys_workers s)" "sys_workers s ! w = Validate v"
    and bad: "\<not> reads_now (sh_memory (sys_shared s)) (ver_idx v)" and dn: "is_done (stat (sh_scheduler (sys_shared s)) (ver_idx v))"
    and ex: "ver_idx v < execution_idx (sh_scheduler (sys_shared s))"
  shows "leads rv transact vm s (\<lambda>s'. \<exists>u sh. s' = moved s w (StartExecution u) sh \<and> ver_idx u = ver_idx v \<and>
    kept (ver_idx v) (sys_shared s) sh)" (is "leads _ _ _ _ ?goal")
proof (rule leads_step[OF g w(1)])
  let ?sh = "sys_shared s" and ?i = "ver_idx v"
  let ?s = "sh_scheduler ?sh"
  obtain H where core: "core_inv rv transact vm ?sh (roles (sys_workers s)) H" and own: "own_inv False ?s (roles (sys_workers s))"
    and n: "block_size ?s = length (txs vm)" by (rule good_core[OF g])
  have i: "?i < block_size ?s" using own_invD(3)[OF own, of w] w by (simp add: roles_def)
  then have il: "?i < length (transactions_status ?s)" "?i < length (mv_last (sh_memory ?sh))"
    using base_lengths(1)[OF inv_base[OF own_invD(1)[OF own]]] hist_invD(2)[OF core_invD(3)[OF core]] by simp_all
  fix k sh assume run: "worker_step rv transact vm (sys_workers s ! w) ?sh = Inr (k, sh)"
    and g1: "good rv transact vm (moved s w k sh)"
  have k: "k = TryAbort v" "sh = ?sh"
    using run w(2) bad by (auto simp: validate_step_def validate_read_locations_def reads_now_def reads_valid_def
        vec_get_eq_Inr_iff split: sum.splits if_splits)
  obtain s2 n2 where ab: "try_validation_abort v ?s = Inr (True, s2)" "s2 = (set_status ?i Aborting ?s)\<lparr>num_validated := n2\<rparr>"
    using try_validation_abort_ok[OF own_invD(1)[OF own] i] dn by metis
  obtain m' where conv: "convert_writes_to_estimates ?i (sh_memory ?sh) = Inr m'" "mv_inv m'" "mv_last m' = mv_last (sh_memory ?sh)"
    "\<And>l j. j \<noteq> ?i \<Longrightarrow> mv_get m' l j = mv_get (sh_memory ?sh) l j"
    using convert_writes_to_estimates_ok[OF hist_invD(1)[OF core_invD(3)[OF core]] il(2)] by auto
  let ?sh3 = "?sh\<lparr>sh_scheduler := s2, sh_memory := m'\<rparr>"
  have kept3: "kept ?i ?sh ?sh3"
    using kept_memory[OF core less_imp_le[OF i[unfolded n]] conv(2)] conv(3,4) stat_set_status[OF il(1), of Aborting]
    by (auto simp: kept_def ab(2))
  have last: "leads rv transact vm (moved s w (FinishValidation v True) ?sh3) ?goal"
    if g3: "good rv transact vm (moved s w (FinishValidation v True) ?sh3)"
  proof (rule leads_then[OF reschedules[OF g3] g3])
    fix s' assume "\<exists>u sh. s' = moved (moved s w (FinishValidation v True) ?sh3) w (StartExecution u) sh \<and>
        ver_idx u = ?i \<and> kept ?i (sys_shared (moved s w (FinishValidation v True) ?sh3)) sh"
    then obtain u sh4 where "s' = moved s w (StartExecution u) sh4" "ver_idx u = ?i" "kept ?i ?sh3 sh4" by auto
    then show "leads rv transact vm s' ?goal" using kept_trans[OF kept3] by (intro leads_now) blast
  qed (use w(1) ex in \<open>simp_all add: ab(2) set_status_def\<close>)
  have third: "leads rv transact vm (moved s w (ConvertWrites v) (?sh\<lparr>sh_scheduler := s2\<rparr>)) ?goal"
    if g2: "good rv transact vm (moved s w (ConvertWrites v) (?sh\<lparr>sh_scheduler := s2\<rparr>))"
    by (rule leads_step[OF g2]) (use w(1) last conv(1) in \<open>auto simp: convert_step_def\<close>)
  show "leads rv transact vm (moved s w k sh) ?goal"
    by (rule leads_step[OF g1]) (use w(1) third ab(1) k in \<open>auto simp: try_abort_step_def\<close>)
qed (use w(2) in simp)

section \<open>Settling a transaction\<close>

text \<open>The execution of transaction \<open>i\<close> has been brought to its end, without touching what is below.\<close>

definition settles :: "tx_idx \<Rightarrow> shared \<Rightarrow> shared \<Rightarrow> bool" where
  "settles i sh sh' \<longleftrightarrow> kept i sh sh' \<and> is_done (stat (sh_scheduler sh') i) \<and> reads_now (sh_memory sh') i \<and>
     min (execution_idx (sh_scheduler sh)) (i + 1) \<le> execution_idx (sh_scheduler sh') \<and>
     min (validation_idx (sh_scheduler sh)) (i + 1) \<le> validation_idx (sh_scheduler sh')"

lemma settles_quiet: "settles i sh sh' \<Longrightarrow> quiet sh' sh'' \<Longrightarrow> settles i sh sh''"
  using quiet_done[of sh' sh'' i] quiet_kept[of sh' sh'' i] kept_trans[of i sh sh' sh'']
  by (auto simp: settles_def quiet_def)

lemma finish_settles:
  assumes g: "good rv transact vm s" and w: "w < length (sys_workers s)" "sys_workers s ! w = FinishExecution v new nxt"
    and now: "reads_now (sh_memory (sys_shared s)) (ver_idx v)"
  shows "leads rv transact vm s (\<lambda>s'. \<exists>sh. s' = moved s w NextTask sh \<and> settles (ver_idx v) (sys_shared s) sh)"
    (is "leads _ _ _ _ ?goal")
proof (rule leads_step[OF g w(1)])
  let ?sh = "sys_shared s" and ?i = "ver_idx v"
  let ?s = "sh_scheduler ?sh"
  fix k sh assume run: "worker_step rv transact vm (sys_workers s ! w) ?sh = Inr (k, sh)"
    and g1: "good rv transact vm (moved s w k sh)"
  obtain H where own: "own_inv False ?s (roles (sys_workers s))" by (rule good_core[OF g])
  have R: "roles (sys_workers s) w = Finishing v new nxt" using w by (simp add: roles_def)
  then have i: "?i < block_size ?s" "\<And>j. nxt = Some j \<Longrightarrow> ?i \<le> j" using own_invD(3)[OF own, of w] by simp_all
  note base = inv_base[OF own_invD(1)[OF own]]
  obtain r s' where fin: "finish_execution v new nxt ?s = Inr (r, s')" "k = CheckError r" "sh = ?sh\<lparr>sh_scheduler := s'\<rparr>"
    using run w by (auto simp: finish_execution_step_def split: sum.splits)
  obtain s1 where s1: "resume_effect ?i ?s s1" "sched_inv (aborted (roles (sys_workers s))) s1"
    "schedule_validation v new nxt s1 = (r, s')" using own_finish_execution(2)[OF own R fin(1)] by blast
  note E = resume_effectD[OF s1(1)] and V = schedule_validation_ok[OF s1(2,3)]
  have keep: "is_done (stat ?s t) \<Longrightarrow> is_done (stat s' t)" for t
    using resumed_waiting(1)[OF base i(1), of t] by (auto simp: V(2) E(10))
  have deps: "\<forall>j \<in> set (transactions_dependents ?s ! ?i). ?i < j"
    using sched_baseD(3)[OF base] i(1) by (auto simp: blockers_ok_def)
  have "min (min_validation_idx ?s) ?i \<le> min_validation_idx s'"
    using i(2) by (auto simp: V(6) lowered_min_def E(3) split: option.splits)
  then have settled: "settles ?i ?sh sh"
    using keep now finish_execution_counters[OF fin(1) deps] schedule_validation_idx[OF s1(3)] E(10)[of ?i] E(2)
    by (auto simp: settles_def kept_def fin(3) V(2))
  show "leads rv transact vm (moved s w k sh) ?goal"
  proof (cases r)
    case None
    have "?goal (moved s w NextTask sh)" using settled by blast
    then show ?thesis using None
      by (intro leads_check_none[OF g1, of w r]) (use w(1) in \<open>simp_all add: fin(2) leads_now\<close>)
  next
    case (Some t)
    then have t: "r = Some (Validation v)" using V(8) by simp
    have val: "leads rv transact vm (moved s w (Validate v) sh) ?goal" if g2: "good rv transact vm (moved s w (Validate v) sh)"
    proof (rule leads_then[OF validate_passes[OF g2] g2])
      fix s' assume "\<exists>sh'. s' = moved (moved s w (Validate v) sh) w NextTask sh' \<and> quiet (sys_shared (moved s w (Validate v) sh)) sh'"
      then show "leads rv transact vm s' ?goal" using settles_quiet[OF settled] by (intro leads_now) auto
    qed (use w(1) now in \<open>simp_all add: fin(3)\<close>)
    show ?thesis
      by (rule leads_step[OF g1]) (use w(1) val t g in \<open>auto simp: fin check_error_step_def good_def\<close>)
  qed
qed (use w in simp)

lemma record_settles:
  assumes g: "good rv transact vm s" and w: "w < length (sys_workers s)" "sys_workers s ! w = Record v res reads ws nxt"
    and valid: "reads_valid (sh_memory (sys_shared s)) (ver_idx v) reads"
  shows "leads rv transact vm s (\<lambda>s'. \<exists>sh. s' = moved s w NextTask sh \<and> settles (ver_idx v) (sys_shared s) sh)"
    (is "leads _ _ _ _ ?goal")
proof (rule leads_step[OF g w(1)])
  let ?sh = "sys_shared s" and ?i = "ver_idx v"
  let ?s = "sh_scheduler ?sh" and ?m = "sh_memory ?sh"
  fix k sh assume run: "worker_step rv transact vm (sys_workers s ! w) ?sh = Inr (k, sh)"
    and g1: "good rv transact vm (moved s w k sh)"
  obtain H where core: "core_inv rv transact vm ?sh (roles (sys_workers s)) H" and own: "own_inv False ?s (roles (sys_workers s))"
    and n: "block_size ?s = length (txs vm)" and ok: "\<And>k. k \<in> set (sys_workers s) \<Longrightarrow> worker_ok rv transact vm (history_values H) k"
    using good_core[OF g] by metis
  have i: "?i < length (txs vm)" using own_invD(3)[OF own, of w] w n by (simp add: roles_def)
  then have il: "?i < length (mv_last ?m)" using hist_invD(2)[OF core_invD(3)[OF core]] n by simp
  have os: "\<forall>(l, os) \<in> set reads. origins_ok os" using ok[OF nth_mem[OF w(1)]] w(2) by (simp add: replayable_def)
  note inv = hist_invD(1)[OF core_invD(3)[OF core]]
  obtain new m' where m': "mv_record v reads ws ?m = Inr (new, m')" "mv_inv m'"
    "mv_last m' = (mv_last ?m)[?i := \<lparr>last_read = reads, last_write = map fst ws\<rparr>]"
    "\<And>l j. j \<noteq> ?i \<Longrightarrow> mv_get m' l j = mv_get ?m l j"
    using mv_record_ok[OF inv il, of reads ws] by auto
  then have k: "k = FinishExecution v new nxt" "sh_scheduler sh = ?s" "sh_memory sh = m'"
    using run w(2) by (auto simp: record_step_def split: sum.splits)
  have "walk m' l ?i = walk ?m l ?i" for l by (rule walk_cong[OF inv m'(2)]) (use m'(4) in simp)
  then have "validate_location ?i m' (l, os)" if "(l, os) \<in> set reads" for l os
    using valid os that validate_location_walk[of os ?i m' l] validate_location_walk[of os ?i ?m l]
    by (auto simp: reads_valid_def list_all_iff)
  then have now: "reads_now m' ?i"
    using il unfolding reads_now_def reads_valid_def list_all_iff by (auto simp: m'(3))
  have kept: "kept ?i ?sh sh"
    using kept_memory[OF core less_imp_le[OF i] m'(2)] m'(3,4) by (auto simp: kept_def k)
  show "leads rv transact vm (moved s w k sh) ?goal"
  proof (rule leads_then[OF finish_settles[OF g1] g1])
    fix s' assume "\<exists>sh'. s' = moved (moved s w k sh) w NextTask sh' \<and> settles ?i (sys_shared (moved s w k sh)) sh'"
    then obtain sh' where sh': "s' = moved s w NextTask sh'" "settles ?i sh sh'" by auto
    then have "settles ?i ?sh sh'" using kept_trans[OF kept] k(2) by (auto simp: settles_def)
    then show "leads rv transact vm s' ?goal" using sh'(1) by (intro leads_now) blast
  qed (use w(1) now in \<open>simp_all add: k\<close>)
qed (use w in simp)

text \<open>The worker that starts the execution of a transaction settles it, when all lower ones are executed.\<close>

lemma execution_settles:
  assumes g: "good rv transact vm s" and w: "w < length (sys_workers s)" "sys_workers s ! w = StartExecution v"
    and low: "\<forall>j < ver_idx v. is_done (stat (sh_scheduler (sys_shared s)) j)"
  shows "leads rv transact vm s (\<lambda>s'. \<exists>sh. s' = moved s w NextTask sh \<and> settles (ver_idx v) (sys_shared s) sh)"
    (is "leads _ _ _ _ ?goal")
proof (cases "lacks_funds rv transact vm s")
  case True
  then show ?thesis by (intro leads_escape) (simp add: escapes_def)
next
  case funds: False
  let ?sh = "sys_shared s" and ?i = "ver_idx v"
  let ?m = "sh_memory ?sh"
  obtain H where core: "core_inv rv transact vm ?sh (roles (sys_workers s)) H"
    and own: "own_inv False (sh_scheduler ?sh) (roles (sys_workers s))"
    and n: "block_size (sh_scheduler ?sh) = length (txs vm)" and wf: "vm_wf vm"
    and pr: "\<And>i. i < length (txs vm) \<Longrightarrow> propagates (tx_run transact vm i)" using good_core[OF g] by metis
  have i: "?i < length (txs vm)" using own_invD(3)[OF own, of w] w n by (simp add: roles_def)
  note hist = core_invD(3)[OF core]
  note exec = vm_execute_complete[of vm transact ?i, OF wf pr[OF i] hist_invD(1)[OF hist] hist_values[OF hist]
      complete_below[OF core less_imp_le[OF i] low], of rv]
  show ?thesis
  proof (rule leads_step[OF g w(1)])
    fix k sh assume run: "worker_step rv transact vm (sys_workers s ! w) ?sh = Inr (k, sh)"
      and g1: "good rv transact vm (moved s w k sh)"
    obtain db where db: "vm_start vm ?i = Inr db" "k = RunEvm v (tx_run transact vm ?i) db" "sh = ?sh"
      using run w(2) by (auto split: sum.splits)
    obtain r db' where ev: "run_evm (vm_database rv vm ?m) (tx_run transact vm ?i) db = (r, db')" by fastforce
    show "leads rv transact vm (moved s w k sh) ?goal"
    proof (rule run_alone[OF g1])
      show "sys_workers (moved s w k sh) ! w = RunEvm v (tx_run transact vm ?i) db" using w(1) db(2) by simp
      show "run_evm (vm_database rv vm (sh_memory (sys_shared (moved s w k sh)))) (tx_run transact vm ?i) db = (r, db')"
        using ev db(3) by simp
      fix x assume fin: "vm_finish rv vm (txs vm ! ?i) db' r = Inr x"
        and g2: "good rv transact vm (moved (moved s w k sh) w (after_execute v x) (sys_shared (moved s w k sh)))"
      then have g3: "good rv transact vm (moved s w (after_execute v x) ?sh)" using db(3) by simp
      have x: "vm_execute rv transact vm ?m ?i = Inr x" using db(1) ev fin by (simp add: vm_execute_def execute_tx_def)
      have "StartExecution v \<in> set (sys_workers s)" using w nth_mem by metis
      then have "\<not> (0 < ?i \<and> runs_short rv transact vm ?m ?i)" using funds low by (auto simp: lacks_funds_def)
      then consider (ok) res reads ws nxt where "x = VmOk res reads ws nxt" "reads_valid ?m ?i reads"
        | (err) e where "x = VmExecutionError e" using exec[OF x] by blast
      then have "leads rv transact vm (moved s w (after_execute v x) ?sh) ?goal"
      proof cases
        case ok
        show ?thesis
          by (rule leads_then[OF record_settles[OF g3] g3]) (use w(1) ok in \<open>auto intro!: leads_now\<close>)
      next
        case err
        show ?thesis
          by (rule leads_step[OF g3])
            (use w(1) err g in \<open>auto simp: set_error_step_def good_def\<close>)
      qed
      then show "leads rv transact vm (moved (moved s w k sh) w (after_execute v x) (sys_shared (moved s w k sh))) ?goal"
        using db(3) by simp
    qed (use w(1) in simp)
  qed (use w in simp)
qed

end
