(* ===== verification/Liveness.thy ===== *)
theory Liveness
  imports Completion
begin

text \<open>
  From rest to the end of the block: the transactions are settled one after the other, and then the
  workers stop.
\<close>

section \<open>Workers at rest\<close>

lemma resting_roles:
  assumes "resting s"
  shows "roles (sys_workers s) w = Free \<or>
    (\<exists>v. roles (sys_workers s) w = Pre v \<and> w < length (sys_workers s) \<and> sys_workers s ! w = StartExecution v)"
proof (cases "w < length (sys_workers s)")
  case True
  then have "rests (sys_workers s ! w)" using assms by (simp add: resting_def)
  then show ?thesis using True by (auto simp: rests_def roles_def)
qed (simp add: roles_def)

lemma resting_cases:
  assumes "resting s" and "k \<in> set (sys_workers s)"
  shows "k = NextTask \<or> k = Stopped \<or> (\<exists>w v. w < length (sys_workers s) \<and> sys_workers s ! w = StartExecution v)"
proof -
  obtain w where w: "w < length (sys_workers s)" "sys_workers s ! w = k" using assms(2) by (auto simp: in_set_conv_nth)
  have "rests k" using assms by (simp add: resting_def)
  then show ?thesis using w by (auto simp: rests_def)
qed

lemma resting_facts:
  assumes g: "good rv transact vm s" and rest: "resting s"
  shows "sched_inv {} (sh_scheduler (sys_shared s))"
    and "block_size (sh_scheduler (sys_shared s)) = length (txs vm)"
    and "j < length (txs vm) \<Longrightarrow> is_done (stat (sh_scheduler (sys_shared s)) j) \<Longrightarrow>
      min_validation_idx (sh_scheduler (sys_shared s)) \<le> j \<Longrightarrow>
      reads_now (sh_memory (sys_shared s)) j \<or> validation_idx (sh_scheduler (sys_shared s)) \<le> j"
    and "j < length (txs vm) \<Longrightarrow> stat (sh_scheduler (sys_shared s)) j = Executing \<Longrightarrow>
      \<exists>w v. w < length (sys_workers s) \<and> sys_workers s ! w = StartExecution v \<and> ver_idx v = j"
    and "w < length (sys_workers s) \<Longrightarrow> sys_workers s ! w = StartExecution v \<Longrightarrow>
      ver_idx v < length (txs vm) \<and> stat (sh_scheduler (sys_shared s)) (ver_idx v) = Executing"
    and "j < length (txs vm) \<Longrightarrow> stat (sh_scheduler (sys_shared s)) j = ReadyToExecute \<Longrightarrow>
      \<exists>w < length (sys_workers s). picker (sys_workers s ! w) j"
proof -
  let ?s = "sh_scheduler (sys_shared s)" and ?R = "roles (sys_workers s)"
  obtain H where core: "core_inv rv transact vm (sys_shared s) ?R H" and own: "own_inv False ?s ?R"
    and n: "block_size ?s = length (txs vm)" by (rule good_core[OF g])
  have ab: "aborts (?R w) = None" "\<not> alarm (?R w) j" for w j using resting_roles[OF rest, of w] by auto
  then have "aborted ?R = {}" by (auto simp: aborted_iff)
  then show "sched_inv {} ?s" using own_invD(1)[OF own] by simp
  show "block_size ?s = length (txs vm)" by (rule n)
  have cover: "cover_inv ?s (sh_memory (sys_shared s)) ?R" using core_invD(4)[OF core] g by (simp add: good_def)
  show "j < length (txs vm) \<Longrightarrow> is_done (stat ?s j) \<Longrightarrow> min_validation_idx ?s \<le> j \<Longrightarrow>
      reads_now (sh_memory (sys_shared s)) j \<or> validation_idx ?s \<le> j"
    using cover ab(2) n by (auto simp: cover_inv_def covered_def)
  have all: "all_owned ?s ?R" using own_invD(4)[OF own] by simp
  show "j < length (txs vm) \<Longrightarrow> stat ?s j = Executing \<Longrightarrow>
      \<exists>w v. w < length (sys_workers s) \<and> sys_workers s ! w = StartExecution v \<and> ver_idx v = j"
  proof -
    assume "j < length (txs vm)" "stat ?s j = Executing"
    then obtain w v where w: "executes (?R w) = Some v" "ver_idx v = j" using all n by (auto simp: all_owned_def)
    then show ?thesis using resting_roles[OF rest, of w] by auto
  qed
  show "w < length (sys_workers s) \<Longrightarrow> sys_workers s ! w = StartExecution v \<Longrightarrow>
      ver_idx v < length (txs vm) \<and> stat ?s (ver_idx v) = Executing"
    using own_invD(3)[OF own, of w] n by (simp add: roles_def)
  show "j < length (txs vm) \<Longrightarrow> stat ?s j = ReadyToExecute \<Longrightarrow> \<exists>w < length (sys_workers s). picker (sys_workers s ! w) j"
    using g n by (auto simp: good_def sys_alive_def ready_inv_def)
qed

text \<open>The least transaction that is not executed is ready or executing.\<close>

lemma least_pending:
  assumes inv: "sched_inv {} s" and j: "j < block_size s" "\<not> is_done (stat s j)" and low: "\<forall>i < j. is_done (stat s i)"
  shows "stat s j = ReadyToExecute \<or> stat s j = Executing"
proof -
  note base = inv_base[OF inv]
  have "stat s j \<noteq> Aborting"
  proof
    assume "stat s j = Aborting"
    then have "pending s j \<noteq> 0" using sched_baseD(7)[OF base j(1)] by simp
    then obtain ds where "ds \<in> set (transactions_dependents s)" "j \<in> set ds" using pending_zero_iff[of s j] by auto
    then obtain i where "i < block_size s" "j \<in> set (transactions_dependents s ! i)"
      using in_set_conv_nth[of ds "transactions_dependents s"] base_lengths(2)[OF base] by auto
    then have "i < j" "\<not> is_done (stat s i)" using sched_baseD(3)[OF base] by (auto simp: blockers_ok_def)
    then show False using low by blast
  qed
  then show ?thesis using j(2) by (cases "stat s j") auto
qed

text \<open>A worker at rest that can pick the least pending transaction is at \<open>next_task\<close>.\<close>

lemma picker_at_rest:
  assumes g: "good rv transact vm s" and rest: "resting s" and j: "j < length (txs vm)"
    and ready: "stat (sh_scheduler (sys_shared s)) j = ReadyToExecute"
    and low: "\<forall>i < j. is_done (stat (sh_scheduler (sys_shared s)) i)"
  obtains w where "w < length (sys_workers s)" and "sys_workers s ! w = NextTask"
proof -
  obtain w where w: "w < length (sys_workers s)" "picker (sys_workers s ! w) j"
    using resting_facts(6)[OF g rest j ready] by blast
  have "rests (sys_workers s ! w)" using rest w(1) by (simp add: resting_def)
  moreover have "sys_workers s ! w \<noteq> StartExecution v" for v
  proof
    assume v: "sys_workers s ! w = StartExecution v"
    then have ex: "stat (sh_scheduler (sys_shared s)) (ver_idx v) = Executing" "ver_idx v \<le> j"
      using resting_facts(5)[OF g rest w(1) v] w(2) by (auto simp: picker_def)
    then have "ver_idx v \<noteq> j" using ready by auto
    then show False using low[rule_format, of "ver_idx v"] ex by simp
  qed
  ultimately show thesis using that[of w] w by (auto simp: rests_def picker_def)
qed

section \<open>A round of \<open>next_task\<close>\<close>

lemma next_task_branches:
  assumes inv: "sched_inv A s" and run: "next_task_iter s = Inr (r, s')"
    and left: "\<not> (block_size s \<le> execution_idx s \<and> block_size s \<le> validation_idx s)"
  shows "validation_idx s < execution_idx s \<and>
      (if validation_idx s < block_size s \<and> is_done (stat s (validation_idx s))
       then \<exists>v. r = Return (Validation v) \<and> claimed s v s' else r = Continue) \<or>
    execution_idx s \<le> validation_idx s \<and>
      (r = Continue \<and> (\<exists>e \<ge> block_size s. s' = s\<lparr>execution_idx := e\<rparr>) \<or>
       (\<exists>v. r = Return (Execution v) \<and> picked s v s' \<and> ver_idx v < execution_idx s'))"
proof (cases "validation_idx s < execution_idx s")
  case True
  have "length (transactions_status s) = block_size s" by (rule base_lengths(1)[OF inv_base[OF inv]])
  moreover have "min_validation_idx s \<le> validation_idx s"
    using sched_baseD(1)[OF inv_base[OF inv]] by (simp add: sizes_ok_def)
  ultimately show ?thesis using run left True
    by (auto simp: next_task_iter_def sched_try_validate_def claimed_def Let_def split: if_splits)
next
  case False
  let ?s = "s\<lparr>execution_idx := execution_idx s + 1\<rparr>"
  have "ready_ok {execution_idx s} ?s" using inv by (auto simp: sched_inv_def ready_ok_def)
  then obtain x s1 where x: "try_execute (execution_idx s) ?s = Inr (x, s1)"
    "case x of Some v \<Rightarrow> picked ?s v s1 | None \<Rightarrow> \<exists>e \<ge> execution_idx ?s. s1 = ?s\<lparr>execution_idx := e\<rparr> \<and>
       (execution_idx s < block_size ?s \<longrightarrow> block_size ?s \<le> e)"
    using try_execute_ok[of ?s "execution_idx s"] base_lengths(1)[OF inv_base[OF inv]] by auto
  have lt: "execution_idx s < block_size s" using False left by linarith
  show ?thesis
  proof (cases x)
    case None
    then have "r = Continue" "s' = s1" using run left False x(1) by (auto simp: next_task_iter_def split: if_splits)
    then show ?thesis using x(2) None lt False by auto
  next
    case (Some v)
    then have r: "r = Return (Execution v)" "s' = s1" using run left False x(1) by (auto simp: next_task_iter_def split: if_splits)
    moreover have "picked s v s1" by (rule picked_execution_idx) (use x(2) Some in auto)
    ultimately show ?thesis using next_task_idx[of s v s'] run False by auto
  qed
qed

section \<open>Settling the least unsettled transaction\<close>

text \<open>
  While transaction \<open>k\<close> is not settled: first the execution counter passes it if it waits for
  validation, then the validation counter reaches it; a worker has to be free for that.
\<close>

definition distance :: "nat \<Rightarrow> system \<Rightarrow> nat" where
  "distance k s =
     (let sch = sh_scheduler (sys_shared s) in
      (if is_done (stat sch k) \<and> execution_idx sch \<le> k then 2 * k + 2 else 0) + 2 * (k - validation_idx sch) +
      (if NextTask \<in> set (sys_workers s) then 0 else 1))"

definition progressed :: "nat \<Rightarrow> system \<Rightarrow> bool" where
  "progressed k s \<longleftrightarrow> all_stopped s \<or> resting s \<and> settled (sys_shared s) (Suc k)"

lemma resting_moved: "resting s \<Longrightarrow> rests k \<Longrightarrow> resting (moved s w k sh)"
  using set_update_subset_insert[of "sys_workers s" w k] by (auto simp: resting_def)

lemma rests_simps [simp]: "rests NextTask" "rests Stopped" "rests (StartExecution v)"
  by (simp_all add: rests_def)

text \<open>The workers rest, and everything below \<open>k\<close> is settled.\<close>

definition waiting :: "revm \<Rightarrow> read_error transact \<Rightarrow> vm \<Rightarrow> nat \<Rightarrow> system \<Rightarrow> bool" where
  "waiting rv transact vm k s \<longleftrightarrow> good rv transact vm s \<and> resting s \<and> settled (sys_shared s) k"

lemma waitingD:
  assumes "waiting rv transact vm k s"
  shows "good rv transact vm s" "resting s" "settled (sys_shared s) k"
  using assms by (simp_all add: waiting_def)

lemma waiting_moved:
  "waiting rv transact vm k s \<Longrightarrow> good rv transact vm (moved s w k' sh) \<Longrightarrow> rests k' \<Longrightarrow> settled sh k \<Longrightarrow>
   waiting rv transact vm k (moved s w k' sh)"
  by (simp add: waiting_def resting_moved)

text \<open>The worker that starts its execution settles it.\<close>

lemma owner_progresses:
  assumes wt: "waiting rv transact vm k s"
    and w: "w < length (sys_workers s)" "sys_workers s ! w = StartExecution v" "ver_idx v = k"
  shows "leads rv transact vm s (progressed k)"
proof (rule leads_then[OF execution_settles[OF waitingD(1)[OF wt] w(1,2)] waitingD(1)[OF wt]])
  show "\<forall>j < ver_idx v. is_done (stat (sh_scheduler (sys_shared s)) j)"
    using waitingD(3)[OF wt] w(3) by (simp add: settled_def)
  fix s' assume "\<exists>sh. s' = moved s w NextTask sh \<and> settles (ver_idx v) (sys_shared s) sh"
  then obtain sh where sh: "s' = moved s w NextTask sh" "settles k (sys_shared s) sh" using w(3) by blast
  then have "settled sh (Suc k)"
    using settled_kept[OF waitingD(3)[OF wt], of sh] settled_Suc[of sh k] by (auto simp: settles_def)
  then show "leads rv transact vm s' (progressed k)"
    using resting_moved[OF waitingD(2)[OF wt]] sh(1) by (intro leads_now) (simp add: progressed_def)
qed

text \<open>A change of the scheduler alone that keeps the statuses below \<open>k\<close>.\<close>

lemma settled_scheduler:
  assumes "settled sh k" and "min_validation_idx s' = min_validation_idx (sh_scheduler sh)"
    and "\<And>t. t < k \<Longrightarrow> stat s' t = stat (sh_scheduler sh) t"
  shows "settled (sh\<lparr>sh_scheduler := s'\<rparr>) k"
  using assms by (simp add: settled_def)

text \<open>A validation of a settled transaction passes.\<close>

lemma settled_validation:
  assumes wt: "waiting rv transact vm k s" and g: "good rv transact vm (moved s w (Validate v) sh)"
    and w: "w < length (sys_workers s)" and sh: "sh_memory sh = sh_memory (sys_shared s)" "settled sh k"
    and v: "ver_idx v < k" "min_validation_idx (sh_scheduler (sys_shared s)) \<le> ver_idx v"
  shows "leads rv transact vm (moved s w (Validate v) sh)
    (\<lambda>s'. \<exists>sh'. s' = moved s w NextTask sh' \<and> waiting rv transact vm k s' \<and> quiet sh sh')"
proof (rule leads_then[OF validate_passes[OF g] g])
  show "reads_now (sh_memory (sys_shared (moved s w (Validate v) sh))) (ver_idx v)"
    using waitingD(3)[OF wt] v sh(1) by (force simp: settled_def)
  fix s' assume g': "good rv transact vm s'" and "\<exists>sh'. s' = moved (moved s w (Validate v) sh) w NextTask sh' \<and>
      quiet (sys_shared (moved s w (Validate v) sh)) sh'"
  then obtain sh' where s': "s' = moved s w NextTask sh'" "quiet sh sh'" by auto
  have "waiting rv transact vm k s'" unfolding s'(1)
    by (rule waiting_moved[OF wt]) (use g' s'(1) settled_kept[OF sh(2) quiet_kept[OF s'(2)]] in simp_all)
  then show "leads rv transact vm s' (\<lambda>s'. \<exists>sh'. s' = moved s w NextTask sh' \<and> waiting rv transact vm k s' \<and> quiet sh sh')"
    using s' by (intro leads_now) blast
qed (use w in simp_all)

text \<open>The transaction is executed, but its reads are not valid.\<close>

definition stale :: "shared \<Rightarrow> nat \<Rightarrow> bool" where
  "stale sh k \<longleftrightarrow> is_done (stat (sh_scheduler sh) k) \<and> min_validation_idx (sh_scheduler sh) \<le> k \<and>
     \<not> reads_now (sh_memory sh) k"

text \<open>A validation of the transaction itself.\<close>

lemma stale_validation:
  assumes wt: "waiting rv transact vm (ver_idx v) s" and g: "good rv transact vm (moved s w (Validate v) sh)"
    and w: "w < length (sys_workers s)"
    and stale: "stale sh (ver_idx v)" and ex: "ver_idx v < execution_idx (sh_scheduler sh)" and set: "settled sh (ver_idx v)"
  shows "leads rv transact vm (moved s w (Validate v) sh) (progressed (ver_idx v))"
proof (rule leads_then[OF validate_fails[OF g] g])
  fix s' assume g': "good rv transact vm s'" and "\<exists>u sh'. s' = moved (moved s w (Validate v) sh) w (StartExecution u) sh' \<and>
      ver_idx u = ver_idx v \<and> kept (ver_idx v) (sys_shared (moved s w (Validate v) sh)) sh'"
  then obtain u sh' where u: "s' = moved s w (StartExecution u) sh'" "ver_idx u = ver_idx v" "kept (ver_idx v) sh sh'" by auto
  have "waiting rv transact vm (ver_idx v) s'" unfolding u(1)
    by (rule waiting_moved[OF wt]) (use g' u settled_kept[OF set] in simp_all)
  then show "leads rv transact vm s' (progressed (ver_idx v))"
    by (rule owner_progresses[of _ _ _ _ _ w u]) (use u w in simp_all)
qed (use w stale ex in \<open>simp_all add: stale_def\<close>)

section \<open>A free worker takes the next task\<close>

lemma claim_progresses:
  assumes wt: "waiting rv transact vm k s" and g: "good rv transact vm (moved s w (Validate v) sh)"
    and w: "w < length (sys_workers s)" "sys_workers s ! w = NextTask" and c: "claimed (sh_scheduler (sys_shared s)) v s'"
    and sh: "sh = (sys_shared s)\<lparr>sh_scheduler := s'\<rparr>" and ex: "ver_idx v < execution_idx (sh_scheduler (sys_shared s))"
    and k: "ver_idx v < k \<or> ver_idx v = k \<and> stale (sys_shared s) k"
    and IH: "\<And>s'. distance k s' < distance k s \<Longrightarrow> waiting rv transact vm k s' \<Longrightarrow> leads rv transact vm s' (progressed k)"
  shows "leads rv transact vm (moved s w (Validate v) sh) (progressed k)"
proof -
  have s': "s' = (sh_scheduler (sys_shared s))\<lparr>validation_idx := validation_idx (sh_scheduler (sys_shared s)) + 1\<rparr>"
    and v: "ver_idx v = validation_idx (sh_scheduler (sys_shared s))"
      "min_validation_idx (sh_scheduler (sys_shared s)) \<le> ver_idx v" using c by (simp_all add: claimed_def)
  have set: "settled sh k" using settled_scheduler[OF waitingD(3)[OF wt], of s'] by (simp add: sh s')
  have idle: "NextTask \<in> set (sys_workers s)" "NextTask \<in> set ((sys_workers s)[w := NextTask])"
    using w nth_mem[OF w(1)] set_update_memI[OF w(1)] by simp_all
  show ?thesis
  proof (cases "ver_idx v = k")
    case True
    have "stale sh k" using k True by (simp add: stale_def sh s')
    then show ?thesis using stale_validation[of rv transact vm v s w sh] wt g w(1) ex set True by (simp add: sh s')
  next
    case False
    show ?thesis
    proof (rule leads_then[OF settled_validation[OF wt g w(1) _ set _ v(2)] g])
      fix s2 assume "\<exists>sh'. s2 = moved s w NextTask sh' \<and> waiting rv transact vm k s2 \<and> quiet sh sh'"
      then obtain sh' where s2: "s2 = moved s w NextTask sh'" "waiting rv transact vm k s2" "quiet sh sh'" by blast
      have "distance k s2 < distance k s"
        using quiet_done[OF s2(3), of k] s2(3) v(1) False k idle unfolding distance_def Let_def
        by (auto simp: s2(1) quiet_def sh s')
      then show "leads rv transact vm s2 (progressed k)" by (rule IH) (rule s2(2))
    qed (use False k sh in auto)
  qed
qed

lemma pick_progresses:
  assumes wt: "waiting rv transact vm k s" and g: "good rv transact vm (moved s w (StartExecution v) sh)"
    and w: "w < length (sys_workers s)" and inv: "sched_inv A (sh_scheduler (sys_shared s))" "sched_inv A s'"
    and k: "k < block_size (sh_scheduler (sys_shared s))"
    and p: "picked (sh_scheduler (sys_shared s)) v s'" "ver_idx v < execution_idx s'"
    and sh: "sh = (sys_shared s)\<lparr>sh_scheduler := s'\<rparr>"
    and todo: "stat (sh_scheduler (sys_shared s)) k = ReadyToExecute \<or>
      stale (sys_shared s) k \<and> execution_idx (sh_scheduler (sys_shared s)) \<le> k"
    and IH: "\<And>s'. distance k s' < distance k s \<Longrightarrow> waiting rv transact vm k s' \<Longrightarrow> leads rv transact vm s' (progressed k)"
  shows "leads rv transact vm (moved s w (StartExecution v) sh) (progressed k)"
proof -
  note P = pickedD[OF p(1) base_lengths(1)[OF inv_base[OF inv(1)]]]
  have ge: "k \<le> ver_idx v" by (rule leI) (use waitingD(3)[OF wt] P(2) in \<open>auto simp: settled_def\<close>)
  then have "settled sh k" using settled_scheduler[OF waitingD(3)[OF wt], of s'] P(5,7) sh by simp
  then have wt': "waiting rv transact vm k (moved s w (StartExecution v) sh)" by (intro waiting_moved[OF wt g]) simp_all
  show ?thesis
  proof (cases "ver_idx v = k")
    case True
    show ?thesis by (rule owner_progresses[OF wt', of w v]) (use True w in simp_all)
  next
    case False
    have "stale (sys_shared s) k \<and> execution_idx (sh_scheduler (sys_shared s)) \<le> k"
      using todo ready_above[OF inv(2), of k] P(4,7) False ge p(2) k by auto
    then have "distance k (moved s w (StartExecution v) sh) < distance k s"
      using p(2) ge False unfolding distance_def Let_def by (auto simp: sh stale_def P(6))
    then show ?thesis by (rule IH[OF _ wt'])
  qed
qed

lemma free_worker_progresses:
  assumes wt: "waiting rv transact vm k s" and k: "k < length (txs vm)"
    and w: "w < length (sys_workers s)" "sys_workers s ! w = NextTask"
    and todo: "stat (sh_scheduler (sys_shared s)) k = ReadyToExecute \<or> stale (sys_shared s) k"
    and IH: "\<And>s'. distance k s' < distance k s \<Longrightarrow> waiting rv transact vm k s' \<Longrightarrow> leads rv transact vm s' (progressed k)"
  shows "leads rv transact vm s (progressed k)"
proof (rule leads_step[OF waitingD(1)[OF wt] w(1)])
  let ?sh = "sys_shared s"
  let ?s = "sh_scheduler ?sh"
  note facts = resting_facts[OF waitingD(1,2)[OF wt]]
  have inv: "sched_inv {} ?s" and n: "block_size ?s = length (txs vm)" by (rule facts(1), rule facts(2))
  have idx: "execution_idx ?s \<le> k \<or> stale ?sh k \<and> validation_idx ?s \<le> k"
    using todo ready_above[OF inv, of k] facts(3)[OF k] k n by (auto simp: stale_def)
  fix k' sh assume run: "worker_step rv transact vm (sys_workers s ! w) ?sh = Inr (k', sh)"
    and g1: "good rv transact vm (moved s w k' sh)"
  obtain r s' where r: "next_task_iter ?s = Inr (r, s')" "sh = ?sh\<lparr>sh_scheduler := s'\<rparr>"
    "k' = (case r of Break \<Rightarrow> Stopped | Continue \<Rightarrow> NextTask | Return t \<Rightarrow> begin_task t)"
    using run w(2) by (auto simp: next_task_step_def split: sum.splits)
  have inv': "sched_inv {} s'" using next_task_iter_ok[OF inv] r(1) by auto
  have "\<not> (block_size ?s \<le> execution_idx ?s \<and> block_size ?s \<le> validation_idx ?s)" using idx k n by auto
  note branches = next_task_branches[OF inv r(1) this]
  have val_idx: "validation_idx ?s \<le> k \<and> is_done (stat ?s (validation_idx ?s))" if "validation_idx ?s < execution_idx ?s"
  proof -
    have le: "validation_idx ?s \<le> k" using that idx by auto
    have "validation_idx ?s < k \<Longrightarrow> is_done (stat ?s (validation_idx ?s))" using waitingD(3)[OF wt] by (simp add: settled_def)
    then show ?thesis using le that idx by (auto simp: le_less stale_def)
  qed
  with branches k n
  consider (val) v where "r = Return (Validation v)" "claimed ?s v s'" "validation_idx ?s < execution_idx ?s"
    | (skip) e where "execution_idx ?s \<le> validation_idx ?s" "r = Continue" "block_size ?s \<le> e" "s' = ?s\<lparr>execution_idx := e\<rparr>"
    | (exec) v where "execution_idx ?s \<le> validation_idx ?s" "r = Return (Execution v)" "picked ?s v s'" "ver_idx v < execution_idx s'"
    by (auto split: if_splits)
  then show "leads rv transact vm (moved s w k' sh) (progressed k)"
  proof cases
    case (val v)
    then have v: "ver_idx v = validation_idx ?s" by (simp add: claimed_def)
    show ?thesis
      using claim_progresses[OF wt _ w val(2) r(2) _ _ IH] g1 r(3) val(1,3) v val_idx idx by (auto simp: le_less)
  next
    case skip
    have st: "stale ?sh k" using todo ready_above[OF inv', of k] skip(3,4) k n by auto
    have "distance k (moved s w k' sh) < distance k s"
      using st idx skip(1,3) k n w unfolding distance_def Let_def
      by (auto simp: r skip(2,4) stale_def set_update_memI)
    then show ?thesis
      by (rule IH) (intro waiting_moved[OF wt g1], use settled_scheduler[OF waitingD(3)[OF wt], of s'] skip(2,4) r in simp_all)
  next
    case (exec v)
    show ?thesis
      using pick_progresses[OF wt _ w(1) inv inv' _ exec(3,4) r(2) _ IH] g1 exec(1,2) idx r(3) todo k n by auto
  qed
qed (use w in simp)

text \<open>No worker is free: the least transaction that is not executed is settled first.\<close>

lemma busy_progresses:
  assumes wt: "waiting rv transact vm k s" and k: "k < length (txs vm)"
    and busy: "NextTask \<notin> set (sys_workers s)" and dn: "is_done (stat (sh_scheduler (sys_shared s)) k)"
    and IH: "\<And>s'. distance k s' < distance k s \<Longrightarrow> waiting rv transact vm k s' \<Longrightarrow> leads rv transact vm s' (progressed k)"
  shows "leads rv transact vm s (progressed k)"
proof (cases "all_stopped s")
  case True
  then show ?thesis by (intro leads_now) (simp add: progressed_def)
next
  case False
  let ?s = "sh_scheduler (sys_shared s)"
  note g = waitingD(1)[OF wt] and rest = waitingD(2)[OF wt] and set = waitingD(3)[OF wt]
  note facts = resting_facts[OF g rest]
  have n: "block_size ?s = length (txs vm)" by (rule facts(2))
  obtain x where "x \<in> set (sys_workers s)" "x \<noteq> Stopped" using False by (auto simp: all_stopped_iff)
  then obtain w v where "w < length (sys_workers s)" "sys_workers s ! w = StartExecution v"
    using resting_cases[OF rest, of x] busy by blast
  then have ex: "\<exists>j. j < length (txs vm) \<and> \<not> is_done (stat ?s j)" using facts(5)[of w v] by auto
  define j where "j = (LEAST j. j < length (txs vm) \<and> \<not> is_done (stat ?s j))"
  have j: "j < length (txs vm)" "\<not> is_done (stat ?s j)" using LeastI_ex[OF ex] by (auto simp: j_def)
  have low: "\<forall>i < j. is_done (stat ?s i)"
  proof (intro allI impI)
    fix i assume "i < j"
    then show "is_done (stat ?s i)"
      using not_less_Least[of i "\<lambda>j. j < length (txs vm) \<and> \<not> is_done (stat ?s j)"] j(1) by (auto simp: j_def)
  qed
  have kj: "k < j" by (rule ccontr) (use set dn j(2) in \<open>auto simp: settled_def not_less le_less\<close>)
  have "stat ?s j \<noteq> ReadyToExecute" using picker_at_rest[OF g rest j(1) _ low] busy nth_mem by metis
  then have "stat ?s j = Executing" using least_pending[OF facts(1) _ j(2) low] j(1) n by simp
  then obtain w u where w: "w < length (sys_workers s)" "sys_workers s ! w = StartExecution u" "ver_idx u = j"
    using facts(4)[OF j(1)] by blast
  show ?thesis
  proof (rule leads_then[OF execution_settles[OF g w(1,2)] g])
    fix s' assume g': "good rv transact vm s'" and "\<exists>sh. s' = moved s w NextTask sh \<and> settles (ver_idx u) (sys_shared s) sh"
    then obtain sh where sh: "s' = moved s w NextTask sh" "settles j (sys_shared s) sh" using w(3) by blast
    have kept: "kept j (sys_shared s) sh" using sh(2) by (simp add: settles_def)
    then have "is_done (stat (sh_scheduler sh) k)" using dn kj by (auto simp: kept_def)
    then have "distance k s' < distance k s"
      using sh kj dn busy w(1) unfolding distance_def Let_def settles_def by (auto simp: set_update_memI)
    then show "leads rv transact vm s' (progressed k)"
      by (rule IH) (unfold sh(1), intro waiting_moved[OF wt],
        use g' settled_kept[OF set kept_mono[OF kept]] sh(1) kj in simp_all)
  qed (use low w(3) in simp)
qed

lemma advance:
  assumes "waiting rv transact vm k s" and k: "k < length (txs vm)"
  shows "leads rv transact vm s (progressed k)"
  using assms(1)
proof (induction "distance k s" arbitrary: s rule: less_induct)
  case less
  let ?s = "sh_scheduler (sys_shared s)"
  note wt = less.prems and D = waitingD[OF less.prems]
  note facts = resting_facts[OF D(1,2)]
  have low: "\<forall>i < k. is_done (stat ?s i)" using D(3) by (simp add: settled_def)
  consider (ready) "stat ?s k = ReadyToExecute" | (ex) "stat ?s k = Executing" | (stale) "stale (sys_shared s) k"
    | (settled) "settled (sys_shared s) (Suc k)"
    using least_pending[OF facts(1) _ _ low] k facts(2) settled_Suc[OF D(3)]
    unfolding stale_def by (metis not_le)
  then show ?case
  proof cases
    case ready
    obtain w where w: "w < length (sys_workers s)" "sys_workers s ! w = NextTask"
      by (rule picker_at_rest[OF D(1,2) k ready low])
    show ?thesis by (rule free_worker_progresses[OF wt k w _ less.hyps]) (use ready in simp)
  next
    case ex
    then show ?thesis using facts(4)[OF k] owner_progresses[OF wt] by blast
  next
    case stale
    show ?thesis
    proof (cases "NextTask \<in> set (sys_workers s)")
      case True
      then obtain w where w: "w < length (sys_workers s)" "sys_workers s ! w = NextTask" by (auto simp: in_set_conv_nth)
      show ?thesis by (rule free_worker_progresses[OF wt k w _ less.hyps]) (use stale in simp)
    next
      case False
      show ?thesis by (rule busy_progresses[OF wt k False _ less.hyps]) (use stale in \<open>simp add: stale_def\<close>)
    qed
  next
    case settled
    then show ?thesis using D(2) by (intro leads_now) (simp add: progressed_def)
  qed
qed

section \<open>Stopping\<close>

text \<open>When everything is settled, a worker at \<open>next_task\<close> validates, moves a counter or stops.\<close>

definition undone :: "system \<Rightarrow> nat" where
  "undone s = unscanned (sh_scheduler (sys_shared s)) + length (filter (\<lambda>k. k \<noteq> Stopped) (sys_workers s))"

lemma settled_idle:
  assumes "waiting rv transact vm (length (txs vm)) s"
  shows "\<forall>k \<in> set (sys_workers s). k = NextTask \<or> k = Stopped" and "idle_sched (sh_scheduler (sys_shared s))"
proof -
  note D = waitingD[OF assms]
  have dn: "is_done (stat (sh_scheduler (sys_shared s)) t)" if "t < length (txs vm)" for t
    using D(3) that by (simp add: settled_def)
  show idle: "\<forall>k \<in> set (sys_workers s). k = NextTask \<or> k = Stopped"
  proof
    fix k assume "k \<in> set (sys_workers s)"
    then show "k = NextTask \<or> k = Stopped"
      using resting_cases[OF D(2), of k] resting_facts(5)[OF D(1,2)] dn by fastforce
  qed
  show "idle_sched (sh_scheduler (sys_shared s))"
    by (rule sys_idle[OF _ _ idle]) (use D(1) in \<open>auto simp: good_def sys_alive_def\<close>)
qed

lemma settled_claim:
  assumes wt: "waiting rv transact vm (length (txs vm)) s" and g: "good rv transact vm (moved s w (Validate v) sh)"
    and w: "w < length (sys_workers s)" "sys_workers s ! w = NextTask"
    and c: "claimed (sh_scheduler (sys_shared s)) v s'" and sh: "sh = (sys_shared s)\<lparr>sh_scheduler := s'\<rparr>"
    and IH: "\<And>s'. undone s' < undone s \<Longrightarrow> waiting rv transact vm (length (txs vm)) s' \<Longrightarrow> leads rv transact vm s' all_stopped"
  shows "leads rv transact vm (moved s w (Validate v) sh) all_stopped"
proof -
  let ?s = "sh_scheduler (sys_shared s)" and ?n = "length (txs vm)"
  have n: "block_size ?s = ?n" by (rule resting_facts(2)[OF waitingD(1,2)[OF wt]])
  have v: "ver_idx v < ?n" "min_validation_idx ?s \<le> ver_idx v" "ver_idx v = validation_idx ?s"
    "s' = ?s\<lparr>validation_idx := validation_idx ?s + 1\<rparr>" using c n by (auto simp: claimed_def)
  have set: "settled sh ?n" using settled_scheduler[OF waitingD(3)[OF wt], of s'] by (simp add: sh v(4))
  have keep: "(sys_workers s)[w := NextTask] = sys_workers s" using w(2) list_update_id by metis
  show ?thesis
  proof (rule leads_then[OF settled_validation[OF wt g w(1) _ set v(1,2)] g])
    fix s2 assume "\<exists>sh'. s2 = moved s w NextTask sh' \<and> waiting rv transact vm ?n s2 \<and> quiet sh sh'"
    then obtain sh2 where s2: "s2 = moved s w NextTask sh2" "waiting rv transact vm ?n s2" "quiet sh sh2" by blast
    have "block_size (sh_scheduler sh2) = ?n" using resting_facts(2)[OF waitingD(1,2)[OF s2(2)]] s2(1) by simp
    then have "undone s2 < undone s"
      using s2(3) v(1,3) n by (simp add: undone_def unscanned_def s2(1) keep quiet_def sh v(4))
    then show "leads rv transact vm s2 all_stopped" by (rule IH) (rule s2(2))
  qed (simp add: sh)
qed

lemma settled_stops:
  assumes "waiting rv transact vm (length (txs vm)) s"
  shows "leads rv transact vm s all_stopped"
  using assms
proof (induction "undone s" arbitrary: s rule: less_induct)
  case less
  let ?sh = "sys_shared s" and ?n = "length (txs vm)"
  let ?s = "sh_scheduler ?sh"
  note wt = less.prems and D = waitingD[OF less.prems] and idle = settled_idle[OF less.prems]
  note facts = resting_facts[OF D(1,2)]
  show ?case
  proof (cases "all_stopped s")
    case False
    then obtain w where w: "w < length (sys_workers s)" "sys_workers s ! w = NextTask"
      using idle(1) by (metis all_stopped_iff in_set_conv_nth)
    have keep: "(sys_workers s)[w := NextTask] = sys_workers s" using w(2) list_update_id by metis
    show ?thesis
    proof (rule leads_step[OF D(1) w(1)])
      fix k sh assume run: "worker_step rv transact vm (sys_workers s ! w) ?sh = Inr (k, sh)"
        and g: "good rv transact vm (moved s w k sh)"
      obtain r s' where r: "next_task_iter ?s = Inr (r, s')" "sh = ?sh\<lparr>sh_scheduler := s'\<rparr>"
        "k = (case r of Break \<Rightarrow> Stopped | Continue \<Rightarrow> NextTask | Return t \<Rightarrow> begin_task t)"
        using run w(2) by (auto simp: next_task_step_def split: sum.splits)
      have "\<not> picked ?s v s'" for v using D(3) facts(2) by (auto simp: picked_def settled_def)
      then consider (break) "r = Break" "s' = ?s" | (skip) "r = Continue" "skipped ?s s'"
        | (val) v where "r = Return (Validation v)" "claimed ?s v s'"
        using next_task_iter_ok[OF facts(1)] r(1) by (cases r; cases "case r of Return t \<Rightarrow> t") auto
      then show "leads rv transact vm (moved s w k sh) all_stopped"
      proof cases
        case break
        have "undone (moved s w k sh) < undone s"
          using length_filter_update[OF w(1), of "\<lambda>k. k \<noteq> Stopped" Stopped] w(2) by (simp add: undone_def r break)
        then show ?thesis
          by (rule less.hyps) (intro waiting_moved[OF wt g], use D(3) break r in simp_all)
      next
        case skip
        have "undone (moved s w k sh) < undone s"
          using idle_continue(2)[OF idle(2)] r(1) skip(1) by (simp add: undone_def r(2,3) keep)
        moreover have "settled sh ?n"
          using settled_scheduler[OF D(3), of s'] skip(2) by (auto simp: skipped_def r(2))
        ultimately show ?thesis
          by (intro less.hyps waiting_moved[OF wt g]) (use skip r in simp_all)
      next
        case (val v)
        then show ?thesis using settled_claim[OF wt _ w val(2) r(2) less.hyps] g r(3) by simp
      qed
    qed (use w in simp)
  qed (simp add: leads_now)
qed

section \<open>The end of the block\<close>

lemma settle_all:
  assumes "waiting rv transact vm 0 s" and "k \<le> length (txs vm)"
  shows "leads rv transact vm s (\<lambda>s'. all_stopped s' \<or> resting s' \<and> settled (sys_shared s') k)"
  using assms(2)
proof (induction k)
  case 0
  then show ?case using waitingD[OF assms(1)] by (intro leads_now) simp
next
  case (Suc k)
  have "leads rv transact vm s (\<lambda>s'. all_stopped s' \<or> resting s' \<and> settled (sys_shared s') k)" using Suc by simp
  then show ?case
  proof (rule leads_then[OF _ waitingD(1)[OF assms(1)]])
    fix s' assume g: "good rv transact vm s'" and "all_stopped s' \<or> resting s' \<and> settled (sys_shared s') k"
    then consider "all_stopped s'" | "waiting rv transact vm k s'" by (auto simp: waiting_def)
    then show "leads rv transact vm s' (\<lambda>s'. all_stopped s' \<or> resting s' \<and> settled (sys_shared s') (Suc k))"
      using advance[of rv transact vm k s'] Suc.prems by cases (auto intro: leads_now simp: progressed_def[abs_def])
  qed
qed

lemma workers_finish:
  assumes "good rv transact vm s"
  shows "leads rv transact vm s all_stopped"
proof (rule leads_then[OF drain_all[OF assms] assms])
  fix s' assume g: "good rv transact vm s'" and "resting s'"
  then have "waiting rv transact vm 0 s'" by (simp add: waiting_def settled_def)
  from settle_all[OF this order_refl] show "leads rv transact vm s' all_stopped"
  proof (rule leads_then[OF _ g])
    fix s2 assume "good rv transact vm s2" and "all_stopped s2 \<or> resting s2 \<and> settled (sys_shared s2) (length (txs vm))"
    then show "leads rv transact vm s2 all_stopped"
      using settled_stops[of rv transact vm s2] by (auto intro: leads_now simp: waiting_def)
  qed
qed

end
