(* ===== verification/Progress_Props.thy ===== *)
theory Progress_Props
  imports Livelock Liveness
begin

text \<open>
  Whether the workers get on: from every state without an execution error they can finish the block,
  unless a transaction ends with an error, panics or lacks funds; \<open>next_task\<close> returns whenever no
  worker holds a task, but may never return after an execution error; and two workers can be
  caught in the retries of a transaction that lacks funds.
\<close>

text \<open>C10. Whenever no execution error has occurred and every worker is in \<open>next_task\<close> or has
  stopped, a call of \<open>next_task\<close> returns without a panic; when it returns no task, every
  transaction of the block has been executed. So the spin loop never waits for a task that nobody
  holds.\<close>

theorem idle_workers_progress:
  assumes "machine_ok transact vm" and "initial_scheduler (length (txs vm)) s0" and "0 < c"
    and "reachable rv transact vm s0 c s" and "execution_error (sys_shared s) = None"
    and "\<forall>k \<in> set (sys_workers s). k = NextTask \<or> k = Stopped"
  shows "\<exists>r s'. next_task (sh_scheduler (sys_shared s)) = Some (Inr (r, s')) \<and>
    (r = None \<longrightarrow> (\<forall>t < length (txs vm). is_done (stat (sh_scheduler (sys_shared s)) t)))"
proof -
  have watched: "sys_watched rv transact vm s"
    using progress.inv_reachable[of transact vm "sys_init vm s0 c" rv s] assms(1-4)
    by (auto simp: sys_initial_def reachable_def)
  then have "block_size (sh_scheduler (sys_shared s)) = length (txs vm)"
    using core_invD(1) by (auto simp: sys_watched_def sys_ok_def)
  with idle_next_task[OF sys_idle[OF watched assms(5,6)]] show ?thesis by simp
qed

definition ex_idle :: system where
  "ex_idle = the (ex_run ex_checked (replicate 8 0))"

lemma ex_idle:
  "reachable ex_revm ex_transact (ex_vm ex_checked) (ex_start ex_checked) 2 ex_idle"
  "execution_error (sys_shared ex_idle) = None"
  "\<forall>k \<in> set (sys_workers ex_idle). k = NextTask \<or> k = Stopped"
proof -
  have run: "case ex_run ex_checked (replicate 8 0) of None \<Rightarrow> False | Some s \<Rightarrow>
      execution_error (sys_shared s) = None \<and>
      list_all (\<lambda>k. case k of NextTask \<Rightarrow> True | _ \<Rightarrow> False) (sys_workers s)"
    by code_simp
  then have s: "ex_run ex_checked (replicate 8 0) = Some ex_idle"
    unfolding ex_idle_def by (simp split: option.splits)
  show "reachable ex_revm ex_transact (ex_vm ex_checked) (ex_start ex_checked) 2 ex_idle"
    by (rule ex_run_reachable[OF s])
  show "execution_error (sys_shared ex_idle) = None" using run[unfolded s] by simp
  have "(case k of NextTask \<Rightarrow> True | _ \<Rightarrow> False) \<Longrightarrow> k = NextTask" for k by (cases k) auto
  then show "\<forall>k \<in> set (sys_workers ex_idle). k = NextTask \<or> k = Stopped"
    using run[unfolded s] by (auto simp: list_all_iff)
qed

theorem idle_workers_progress_witness:
  "\<exists>r s'. next_task (sh_scheduler (sys_shared ex_idle)) = Some (Inr (r, s')) \<and>
     (r = None \<longrightarrow> (\<forall>t < length (txs (ex_vm ex_checked)). is_done (stat (sh_scheduler (sys_shared ex_idle)) t)))"
  by (rule idle_workers_progress[OF ex_machine_ok ex_initial(1) _ ex_idle]) simp

text \<open>
  C9. The workers never lock each other out. From every reachable state without an execution error
  there is an order of steps after which all workers have stopped, or an execution error has
  occurred, or a step panics, or a transaction whose lower transactions are all executed still lacks
  funds, which is the one case in which \<open>try_execute\<close> repeats an execution that nobody else
  can change.
\<close>

theorem workers_can_finish:
  assumes "machine_ok transact vm" and "initial_scheduler (length (txs vm)) s0" and "0 < c"
    and "reachable rv transact vm s0 c s" and "execution_error (sys_shared s) = None"
  shows "\<exists>s'. (sys_step rv transact vm)\<^sup>*\<^sup>* s s' \<and>
    (all_stopped s' \<or> execution_error (sys_shared s') \<noteq> None \<or> step_panics rv transact vm s' \<or>
     lacks_funds rv transact vm s')"
proof -
  have "sys_alive rv transact vm s"
    using readiness.inv_reachable[of transact vm "sys_init vm s0 c" rv s] assms(1-4)
    by (auto simp: sys_initial_def reachable_def)
  then have "leads rv transact vm s all_stopped" using assms(1,5) by (intro workers_finish) (simp add: good_def)
  then show ?thesis unfolding leads_def escapes_def by blast
qed

theorem workers_can_finish_witness:
  "\<exists>s'. (sys_step ex_revm ex_transact (ex_vm ex_checked))\<^sup>*\<^sup>* ex_idle s' \<and>
    (all_stopped s' \<or> execution_error (sys_shared s') \<noteq> None \<or> step_panics ex_revm ex_transact (ex_vm ex_checked) s' \<or>
     lacks_funds ex_revm ex_transact (ex_vm ex_checked) s')"
  by (rule workers_can_finish[OF ex_machine_ok ex_initial(1) _ ex_idle(1,2)]) simp

text \<open>A block whose last transaction cannot be executed.\<close>

definition ex_failing :: "tx_env list" where
  "ex_failing = ex_checked @ [(ex_tx 5 6 0)\<lparr>transact_to := Create\<rparr>]"

definition ex_stuck :: system where
  "ex_stuck = the (ex_run ex_failing (replicate 37 0 @ [1]))"

text \<open>C16. After an execution error a worker may wait forever: the worker that met the error has
  stopped and left its transaction in execution, and the other worker, which is in \<open>next_task\<close>,
  never returns from there to see the error. The scope that joins the workers then never
  ends.\<close>

theorem error_leaves_worker_spinning:
  "reachable ex_revm ex_transact (ex_vm ex_failing) (ex_start ex_failing) 2 ex_stuck \<and>
   execution_error (sys_shared ex_stuck) = Some (EVM_Other ''create'') \<and>
   sys_workers ex_stuck = [Stopped, NextTask] \<and>
   next_task (sh_scheduler (sys_shared ex_stuck)) = None"
proof -
  have run: "case ex_run ex_failing (replicate 37 0 @ [1]) of None \<Rightarrow> False | Some s \<Rightarrow>
      execution_error (sys_shared s) = Some (EVM_Other ''create'') \<and>
      (case sys_workers s of [Stopped, NextTask] \<Rightarrow> True | _ \<Rightarrow> False) \<and>
      next_task_iter (sh_scheduler (sys_shared s)) = Inr (Continue, sh_scheduler (sys_shared s))"
    by code_simp
  then have s: "ex_run ex_failing (replicate 37 0 @ [1]) = Some ex_stuck"
    unfolding ex_stuck_def by (simp split: option.splits)
  show ?thesis using run[unfolded s] ex_run_reachable[OF s]
    by (auto intro: next_task_spins split: list.splits worker.splits)
qed

text \<open>
  C17. A livelock on a valid block. On a block of six transactions that executes in order without an
  error, two workers can reach a state from which they never stop, whatever the order of their
  steps: both execute, again and again, a transaction whose sender lacks the funds that an earlier
  transaction sends when it is executed again, and no worker is left to validate that one.
\<close>

theorem valid_block_livelock:
  "reachable ex_revm fund_transact fund_vm (ex_start fund_block) 2 fund_spinning \<and>
   execution_error (sys_shared fund_spinning) = None \<and>
   \<not> (\<exists>s. (sys_step ex_revm fund_transact fund_vm)\<^sup>*\<^sup>* fund_spinning s \<and> all_stopped s) \<and>
   (case in_order ex_revm fund_transact fund_vm (\<lambda>_. 0) 6 of
      Some (results, m) \<Rightarrow> length results = 6 | None \<Rightarrow> False)"
proof -
  have "case in_order ex_revm fund_transact fund_vm (\<lambda>_. 0) 6 of
      Some (results, m) \<Rightarrow> length results = 6 | None \<Rightarrow> False"
    by code_simp
  then show ?thesis using fund_spinning all_spin_forever[OF fund_spinning(4,3)] by blast
qed

end
