(* ===== verification/Spec2Isabelle.thy ===== *)
theory Spec2Isabelle
  imports Examples Waiting Scheduler_Props Vm_Props Storage_Props Primitives_Props Pevm_Props Progress_Props
begin

text \<open>
  A model of the parallel EVM executor in \<open>src/src\<close> (crate \<open>pevm\<close>) and the theorems that make it
  correct.

  The program. A block of transactions is executed by several worker threads at once, after the
  Block-STM algorithm. A \<^emph>\<open>scheduler\<close> (\<open>scheduler.rs\<close>) hands out execution and validation tasks. A
  worker executes a transaction on \<open>revm\<close> through a database (\<open>vm.rs\<close>) that reads the latest
  write of a lower transaction from the \<^emph>\<open>multi-version memory\<close> (\<open>mv_memory.rs\<close>), or the chain
  state from a \<^emph>\<open>storage\<close> (\<open>storage.rs\<close>, \<open>storage/in_memory.rs\<close>, \<open>storage/rpc.rs\<close>), and records
  where each read came from. Validation compares those origins with the memory; a transaction
  that read something stale is aborted, its writes become estimates and it is executed again.
  Balance additions to plain recipients and to the beneficiary are kept lazily and evaluated
  by later reads and at the end of the block. \<open>pevm.rs\<close> preprocesses the dependencies that
  are known from senders and recipients, runs the workers, and falls back to sequential execution.
  \<open>primitives.rs\<close> converts headers and transactions; \<open>lib.rs\<close> has the shared types.

  The theories, in the order of their imports.
  \<^item> \<open>Prelude\<close>: machine types, panics as values, checked indexing, hash maps, generic lemmas.
  \<^item> \<open>BTree_Map\<close>: the ordered map of a memory location; locale \<open>tx_map\<close> is its interface.
  \<^item> \<open>Accounts\<close>: accounts and their conversions, the \<open>Storage\<close> trait, \<open>StorageWrapper\<close>, the
    in-memory storage; locale \<open>storage_provider\<close> is the contract of a storage.
  \<^item> \<open>Rpc_Storage\<close>: the RPC storage with its caches and their guard.
  \<^item> \<open>Lib_Types\<close>: the types and hashers of \<open>lib.rs\<close>.
  \<^item> \<open>Scheduler\<close>, \<open>Scheduler_Inv\<close>: the scheduler's methods and the invariant they keep.
  \<^item> \<open>Mv_Memory\<close>: the multi-version memory, its abstract view \<open>mv_get\<close> and validation.
  \<^item> \<open>Primitives\<close>: block and transaction environments.
  \<^item> \<open>Vm\<close>, \<open>Vm_Replay\<close>: the database, the execution of a transaction, the write set, the rewards; and
    that an execution whose reads validate on another memory replays there.
  \<^item> \<open>Preprocess\<close>: the dependencies known before execution and the initial scheduler.
  \<^item> \<open>Workers\<close>: \<open>try_execute\<close>, \<open>try_validate\<close> and the worker loop as a transition system.
  \<^item> \<open>Ownership\<close>, \<open>History\<close>, \<open>Coverage\<close>, \<open>Workers_Inv\<close>: the parts of its invariant (who holds a
    transaction; what has been recorded; that every stale read will still be found) and that each
    step keeps them.
  \<^item> \<open>Serializability\<close>: the invariant in all reachable states (locale \<open>invariant_system\<close>, interpreted
    on the workers), the causes of panics, and the comparison with in-order execution.
  \<^item> \<open>Footprint\<close>, \<open>Fresh_Run\<close>: what an execution can have read and written; that a read is valid when it
    is made, and that an execution above executed transactions reads nothing that is missing.
  \<^item> \<open>Unvalidated\<close>: what an execution that asks for no validation relies on
    (a third interpretation of \<open>invariant_system\<close>): its reads stay valid when every conflict
    between a sender or recipient and an earlier one is among the dependencies the block starts with.
  \<^item> \<open>Waiting\<close>: which conflicts \<open>preprocess_dependencies\<close> covers, directly or through other transactions.
  \<^item> \<open>Progress\<close>: no executed transaction is forgotten by the validation counter (a second
    interpretation of \<open>invariant_system\<close>), so the loop of \<open>next_task\<close> ends when no worker holds a task.
  \<^item> \<open>Readiness\<close>: for every ready transaction there is a worker that can still pick it (a fourth
    interpretation of \<open>invariant_system\<close>).
  \<^item> \<open>Draining\<close>, \<open>Completion\<close>, \<open>Liveness\<close>: what the workers can reach from a state: all of them come to rest,
    then the transactions are settled one after the other, by a measure on the counters, then all stop.
  \<^item> \<open>Livelock\<close>: workers whose steps change nothing, and a valid block on which two workers get there.
  \<^item> \<open>Pevm\<close>: \<open>execute\<close>, \<open>execute_revm\<close>, \<open>execute_revm_sequential\<close> and the evaluation at the end.
  \<^item> \<open>Examples\<close>: a concrete machine and concrete runs for the instances of the theorems.
  \<^item> \<open>Scheduler_Props\<close>, \<open>Vm_Props\<close>, \<open>Storage_Props\<close>, \<open>Primitives_Props\<close>, \<open>Preprocess_Props\<close>, \<open>Pevm_Props\<close>,
    \<open>Progress_Props\<close> and this theory: the properties of each part.

  How code becomes definitions. A struct is a record, an enum a datatype, a method a function that
  takes and returns the state. Words keep their width; \<open>usize\<close> indexes and counters are natural
  numbers, with the wrap-around of \<open>fetch_sub\<close> written out. \<open>panic!\<close>, \<open>unreachable!\<close>, a failed \<open>unwrap\<close> and
  an index out of a vector are values on the left of a sum. \<open>next_task\<close> is a spin loop: one
  round is \<open>next_task_iter\<close>, the workers take one round per step, and \<open>next_task\<close> iterates it, with
  \<open>None\<close> for a loop that never ends. The EVM is a parameter:
  a tree of database calls with a continuation for each answer.

  The workers interleave at the level of one round of \<open>next_task\<close>, one database call of the EVM, one
  call of the multi-version memory, one call of another scheduler method. The write of a result and the
  \<open>record\<close> that follows it are one step: no other worker reads that result before the block ends.
  The theorems about the system hold for every interleaving of any number of workers.

  What is assumed of other crates is named: \<open>kinds_apart\<close> (the hasher does not map an account and
  a slot to the same number; collisions within a kind are allowed, except in \<open>plain_transfers_in_order\<close>, whose
  hypothesis names different hashes for the addresses of the block), \<open>propagates\<close> (\<open>revm\<close> ends
  an execution with the error of a failed database call and invents no such error), and
  \<open>bytecode_laws\<close> for the account round trips. Each has a concrete instance.

  Bounds. No fuel is used: \<open>try_execute\<close> terminates by a measure, the other loops are structural,
  and the run of the workers is a reachability relation. The test \<open>len / n > 0.85\<close> in double precision is the
  comparison of integers, exact for blocks below \<open>2 ^ 40\<close> transactions.

  A storage under parallel execution is a record of functions that answer or fail but neither panic nor
  block; the RPC storage, which can do both, is modelled and verified on its own.

  Not modelled: relaxed atomic orderings and the finer interleavings inside one method call of
  the scheduler or the memory (the methods hold the locks of what they touch, one by one); the
  poisoning of mutexes; \<open>revm\<close>, \<open>alloy\<close>, \<open>dashmap\<close>, \<open>ahash\<close>, \<open>tokio\<close>; the deferred drops; the order in which a
  hash set or hash map is iterated; tests and benches. Arithmetic on \<open>u128\<close> gas sums
  wraps, as in a release build.

  Findings. \<open>lost_update\<close>: two payments to an account that then sends can lose the first payment.
  \<open>first_transaction_unseen\<close>: a payment that the first transaction makes through a contract can be lost.
  \<open>stale_validation_aborts\<close>: a late validation aborts a newer incarnation. \<open>rpc_storage_deadlocks\<close>: reading a
  slot of an account that is not cached deadlocks. \<open>error_leaves_worker_spinning\<close>: after an execution error
  another worker can wait forever in \<open>next_task\<close>. \<open>valid_block_livelock\<close>: on a valid block all workers can be
  caught in the retries of transactions that lack funds; \<open>workers_can_finish\<close> shows that, as long as no
  execution error or panic occurs, nothing else can keep the workers from finishing.
\<close>

section \<open>Every interleaving of the workers\<close>

text \<open>
  C1. Parallel execution is serialisable. When all workers have stopped without an execution error,
  and the transactions below the least index the scheduler validates from hold reads that are
  still valid, then executing the transactions one after the other, in the order of the block,
  gives exactly the results of the parallel execution and a memory with the same entries.
  (The transactions from that index on need no hypothesis: the scheduler has validated them.)
\<close>

theorem parallel_is_in_order:
  assumes "machine_ok transact vm" and "initial_scheduler (length (txs vm)) s0" and "0 < c"
    and "reachable rv transact vm s0 c s" and "all_stopped s"
    and "execution_error (sys_shared s) = None"
    and "\<forall>j < min (length (txs vm)) (min_validation_idx (sh_scheduler (sys_shared s))).
           reads_now (sh_memory (sys_shared s)) j"
  shows "\<exists>results m.
    in_order rv transact vm (inc (sh_scheduler (sys_shared s))) (length (txs vm)) = Some (results, m) \<and>
    execution_results (sys_shared s) = map Some results \<and>
    (\<forall>l i. i < length (txs vm) \<longrightarrow> mv_get m l i = mv_get (sh_memory (sys_shared s)) l i)"
proof -
  obtain H where ok: "sys_ok rv transact vm s H" using reachable_ok[OF assms(1-4)] by blast
  show ?thesis by (rule in_order_complete[OF ok assms(5,6)]) (use assms(7) in auto)
qed

theorem parallel_is_in_order_witness:
  "\<exists>results m.
    in_order ex_revm ex_transact (ex_vm ex_checked) (inc (sh_scheduler (sys_shared ex_final))) 3 = Some (results, m) \<and>
    execution_results (sys_shared ex_final) = map Some results"
proof -
  have "\<forall>j < min (length (txs (ex_vm ex_checked))) (min_validation_idx (sh_scheduler (sys_shared ex_final))).
      reads_now (sh_memory (sys_shared ex_final)) j"
    using ex_final(5) by (simp add: ex_final(4))
  from parallel_is_in_order[OF ex_machine_ok ex_initial(1) zero_less_numeral ex_final(1-3) this]
  show ?thesis unfolding ex_vm_txs ex_lengths by blast
qed

text \<open>
  C2. Parallel execution is serialisable without any hypothesis on the run, for every block whose
  conflicts are known in advance: when a transaction can write the account that a later one
  reads as its sender or recipient, the later one waits for it from the start, and the first
  transaction writes nothing but its sender, its recipient and the beneficiary. Then every
  interleaving that stops without an execution error has the results of in-order execution.
\<close>

theorem covered_blocks_in_order:
  assumes "machine_ok transact vm" and "first_local rv transact vm" and "initial_scheduler (length (txs vm)) s0"
    and "conflicts_wait vm (wait_rel (length (txs vm)) s0)" and "0 < c"
    and "reachable rv transact vm s0 c s" and "all_stopped s" and "execution_error (sys_shared s) = None"
  shows "\<exists>results m.
    in_order rv transact vm (inc (sh_scheduler (sys_shared s))) (length (txs vm)) = Some (results, m) \<and>
    execution_results (sys_shared s) = map Some results \<and>
    (\<forall>l i. i < length (txs vm) \<longrightarrow> mv_get m l i = mv_get (sh_memory (sys_shared s)) l i)"
proof -
  obtain H where ok: "sys_ok rv transact vm s H"
    and calm: "calm vm (wait_rel (length (txs vm)) s0) (sys_shared s) (sys_workers s)"
    using assms(1-6) by (rule reachable_calm)
  show ?thesis by (rule in_order_complete[OF ok assms(7,8) unvalidated_reads[OF ok calm assms(7,8)]])
qed

lemma ex_chain_covered: "conflicts_wait (ex_vm ex_chain) (wait_rel (length (txs (ex_vm ex_chain))) (ex_start ex_chain))"
proof -
  let ?v = "ex_vm ex_chain"
  have "2 \<in> set (transactions_dependents (ex_start ex_chain) ! 0)" by code_simp
  then have "(0, 2) \<in> wait_rel 3 (ex_start ex_chain)" by (simp add: wait_rel_def)
  moreover have "\<forall>t \<in> {..<3}. \<forall>p \<in> {..<t}.
      endpoints ?v (txs ?v ! p) \<inter> read_points ?v (txs ?v ! t) \<subseteq> {beneficiary_location_hash ?v} \<or> p = 0 \<and> t = 2"
    by code_simp
  ultimately show ?thesis unfolding conflicts_wait_def ex_vm_txs ex_lengths by blast
qed

lemma ex_chain_first: "first_local ex_revm ex_transact (ex_vm ex_chain)"
  by code_simp

theorem covered_blocks_in_order_witness:
  "\<exists>results m.
    in_order ex_revm ex_transact (ex_vm ex_chain) (inc (sh_scheduler (sys_shared ex_chained))) 3 = Some (results, m) \<and>
    execution_results (sys_shared ex_chained) = map Some results"
  using covered_blocks_in_order[OF ex_machine_ok ex_chain_first ex_initial(3) ex_chain_covered zero_less_numeral ex_chained]
  unfolding ex_vm_txs ex_lengths by blast

text \<open>
  C3. Blocks of plain transfers are executed as in order. When every transaction pays a positive
  value to another account that is not a contract, no account is paid twice without sending in
  between before it sends, and the addresses have different locations, then the dependencies that
  \<open>preprocess_dependencies\<close> registers are enough: whatever the interleaving, a run that stops without an
  execution error has the results of in-order execution.
\<close>

theorem plain_transfers_in_order:
  assumes "machine_ok transact vm" and "first_local rv transact vm" and "plain_transfers vm"
    and "preprocess_dependencies b (txs vm) = Inr (Some (s0, limit))" and "0 < c"
    and "reachable rv transact vm s0 c s" and "all_stopped s" and "execution_error (sys_shared s) = None"
  shows "\<exists>results m.
    in_order rv transact vm (inc (sh_scheduler (sys_shared s))) (length (txs vm)) = Some (results, m) \<and>
    execution_results (sys_shared s) = map Some results \<and>
    (\<forall>l i. i < length (txs vm) \<longrightarrow> mv_get m l i = mv_get (sh_memory (sys_shared s)) l i)"
proof -
  have init: "initial_scheduler (length (txs vm)) s0" using preprocess_initial[OF assms(4)] by simp
  have cov: "conflicts_wait vm (wait_rel (length (txs vm)) s0)"
    by (rule plain_transfers_covered[OF assms(3) preprocess_waits[OF assms(4)]])
  obtain H where ok: "sys_ok rv transact vm s H"
    and calm: "calm vm (wait_rel (length (txs vm)) s0) (sys_shared s) (sys_workers s)"
    using assms(1,2) init cov assms(5,6) by (rule reachable_calm)
  show ?thesis by (rule in_order_complete[OF ok assms(7,8) unvalidated_reads[OF ok calm assms(7,8)]])
qed

theorem plain_transfers_in_order_witness:
  "\<exists>results m.
    in_order ex_revm ex_transact (ex_vm ex_chain) (inc (sh_scheduler (sys_shared ex_chained))) 3 = Some (results, m) \<and>
    execution_results (sys_shared ex_chained) = map Some results"
proof -
  have "\<forall>t \<in> {..<3}. \<forall>q \<in> {..<t}. \<forall>p \<in> {..<q}. pays (ex_chain ! p) \<noteq> pays (ex_chain ! q)" by code_simp
  then have "paid_once ex_chain" unfolding paid_once_def ex_lengths by (metis lessThan_iff)
  moreover have "\<forall>tx \<in> set ex_chain. maybe_lazy (vm_storage (ex_vm ex_chain)) tx = Inr True \<and> tx_value tx > 0"
    "inj_on (vm_get_address_hash (ex_vm ex_chain)) (\<Union>tx \<in> set ex_chain. insert (caller tx) (set_option (tx_to tx)))"
    by code_simp+
  ultimately have plain: "plain_transfers (ex_vm ex_chain)" by (simp add: plain_transfers_def)
  have "case preprocess_dependencies 9 ex_chain of Inr (Some x) \<Rightarrow> True | _ \<Rightarrow> False" by code_simp
  then obtain limit where "preprocess_dependencies 9 (txs (ex_vm ex_chain)) = Inr (Some (ex_start ex_chain, limit))"
    by (auto simp: ex_start_def split: sum.splits option.splits)
  from plain_transfers_in_order[OF ex_machine_ok ex_chain_first plain this zero_less_numeral ex_chained]
  show ?thesis unfolding ex_vm_txs ex_lengths by blast
qed

text \<open>
  C4. The workers stop only when the block is done. When all of them have stopped without an
  execution error, every transaction has been executed and has a result, and every
  transaction from the least validation index on is validated and its recorded reads are still what
  a read would find.
\<close>

theorem stopped_means_complete:
  assumes "machine_ok transact vm" and "initial_scheduler (length (txs vm)) s0" and "0 < c"
    and "reachable rv transact vm s0 c s" and "all_stopped s"
    and "execution_error (sys_shared s) = None" and "j < length (txs vm)"
  shows "is_done (stat (sh_scheduler (sys_shared s)) j) \<and> execution_results (sys_shared s) ! j \<noteq> None \<and>
    (min_validation_idx (sh_scheduler (sys_shared s)) \<le> j \<longrightarrow>
      stat (sh_scheduler (sys_shared s)) j = Validated \<and>
      validate_read_locations j (sh_memory (sys_shared s)) = Inr True)"
proof (intro conjI impI)
  obtain H where ok: "sys_ok rv transact vm s H" using reachable_ok[OF assms(1-4)] by blast
  have c: "core_inv rv transact vm (sys_shared s) (roles (sys_workers s)) H"
    using ok by (simp add: sys_ok_def)
  show "is_done (stat (sh_scheduler (sys_shared s)) j)" by (rule sys_ok_final(1)[OF ok assms(5-7)])
  show "execution_results (sys_shared s) ! j \<noteq> None"
    by (rule sys_ok_executed[OF ok assms(5-7)]) simp
  have "j < length (mv_last (sh_memory (sys_shared s)))"
    using hist_invD(2)[OF core_invD(3)[OF c]] core_invD(1)[OF c] assms(7) by simp
  then show "min_validation_idx (sh_scheduler (sys_shared s)) \<le> j \<Longrightarrow>
      validate_read_locations j (sh_memory (sys_shared s)) = Inr True"
    using sys_ok_final(3)[OF ok assms(5-7)]
    by (simp add: validate_read_locations_def reads_now_def reads_valid_def)
  show "min_validation_idx (sh_scheduler (sys_shared s)) \<le> j \<Longrightarrow> stat (sh_scheduler (sys_shared s)) j = Validated"
    by (rule sys_ok_final(2)[OF ok assms(5-7)])
qed

theorem stopped_means_complete_witness:
  "stat (sh_scheduler (sys_shared ex_final)) 2 = Validated \<and>
   validate_read_locations 2 (sh_memory (sys_shared ex_final)) = Inr True"
  using stopped_means_complete[OF ex_machine_ok ex_initial(1) zero_less_numeral ex_final(1-3), of 2]
  by (simp add: ex_final(4))

text \<open>
  C5. No worker panics in the scheduler or in the multi-version memory. In every reachable state, a
  step of a worker panics only at the start of an execution when the storage fails to
  answer \<open>is_contract\<close>, at the end of one on bytecode of the unsupported EOF format, or when it
  sets a second execution error.
\<close>

theorem panics_are_external:
  assumes "machine_ok transact vm" and "initial_scheduler (length (txs vm)) s0" and "0 < c"
    and "reachable rv transact vm s0 c s" and "w < length (sys_workers s)"
    and "worker_step rv transact vm (sys_workers s ! w) (sys_shared s) = Inl p"
  shows "panic_cause vm (sys_shared s) (sys_workers s ! w) p"
  using assms by (rule reachable_panic_cause)

text \<open>The second step of a worker on a storage that fails.\<close>

definition failing_storage :: storage_ops where
  "failing_storage = ex_storage\<lparr>st_is_contract := (\<lambda>a. Inl ''offline'')\<rparr>"

definition failing_vm :: vm where
  "failing_vm = vm_new ex_hash failing_storage 1 CANCUN ex_block [ex_tx 1 2 10]"

definition failing_start :: scheduler where
  "failing_start = scheduler_new 1 [\<lparr>incarnation = 0, status = ReadyToExecute\<rparr>] [[]] []"

lemma failing_initial: "initial_scheduler (length (txs failing_vm)) failing_start"
proof -
  have "pp_ok 1 1 (preprocess_init 1)" using pp_ok_Suc[OF pp_ok_init, of 1] by simp
  from pp_ok_initial[OF this] show ?thesis
    by (simp add: failing_vm_def failing_start_def vm_new_def preprocess_init_def)
qed

theorem panics_are_external_witness:
  "\<exists>s :: system. worker_step ex_revm ex_transact failing_vm (sys_workers s ! 0) (sys_shared s) = Inl Unwrap_failed \<and>
     panic_cause failing_vm (sys_shared s) (sys_workers s ! 0) Unwrap_failed"
proof -
  have mach: "machine_ok ex_transact failing_vm"
    by (simp add: machine_ok_def failing_vm_def ex_transact_propagates vm_wf_new ex_hash_apart)
  have run: "case run_workers ex_revm ex_transact failing_vm [0] (sys_init failing_vm failing_start 1) of
      None \<Rightarrow> False
    | Some s \<Rightarrow> 0 < length (sys_workers s) \<and>
        (case worker_step ex_revm ex_transact failing_vm (sys_workers s ! 0) (sys_shared s) of
           Inl p \<Rightarrow> p = Unwrap_failed | _ \<Rightarrow> False)"
    by code_simp
  then obtain s where s: "run_workers ex_revm ex_transact failing_vm [0] (sys_init failing_vm failing_start 1) = Some s"
    "0 < length (sys_workers s)"
    "worker_step ex_revm ex_transact failing_vm (sys_workers s ! 0) (sys_shared s) = Inl Unwrap_failed"
    by (auto split: option.splits sum.splits)
  show ?thesis
    using panics_are_external[OF mach failing_initial zero_less_one run_workers_reachable[OF s(1)] s(2,3)] s(3)
    by blast
qed

text \<open>
  C6. A transaction is executed or aborted by at most one worker at a time. While a worker executes it,
  it has the status \<open>Executing\<close> with the incarnation of the worker's task; while a worker aborts it,
  it has the status \<open>Aborting\<close>. (The task of an aborting worker may name an older incarnation.)
\<close>

theorem executions_exclusive:
  assumes "machine_ok transact vm" and "initial_scheduler (length (txs vm)) s0" and "0 < c"
    and "reachable rv transact vm s0 c s" and "w < length (sys_workers s)" and "w' < length (sys_workers s)"
    and "owns (role_of (sys_workers s ! w)) = Some i"
  shows "(owns (role_of (sys_workers s ! w')) = Some i \<longrightarrow> w' = w) \<and>
    (\<forall>v. executes (role_of (sys_workers s ! w)) = Some v \<longrightarrow>
      stat (sh_scheduler (sys_shared s)) (ver_idx v) = Executing \<and>
      inc (sh_scheduler (sys_shared s)) (ver_idx v) = ver_incarnation v) \<and>
    (\<forall>v. aborts (role_of (sys_workers s ! w)) = Some v \<longrightarrow> stat (sh_scheduler (sys_shared s)) (ver_idx v) = Aborting)"
proof -
  obtain H where ok: "sys_ok rv transact vm s H" using reachable_ok[OF assms(1-4)] by blast
  have own: "own_inv (execution_error (sys_shared s) \<noteq> None) (sh_scheduler (sys_shared s)) (roles (sys_workers s))"
    using ok core_invD(2) unfolding sys_ok_def by blast
  have R: "roles (sys_workers s) w = role_of (sys_workers s ! w)"
    "roles (sys_workers s) w' = role_of (sys_workers s ! w')" using assms(5,6) by (simp_all add: roles_def)
  have "owns (role_of (sys_workers s ! w')) = Some i \<longrightarrow> w' = w"
    using own_invD(2)[OF own] assms(7) R unfolding single_owners_def by metis
  moreover have "stat (sh_scheduler (sys_shared s)) (ver_idx v) = Aborting" if "aborts (role_of (sys_workers s ! w)) = Some v" for v
  proof -
    have "ver_idx v \<in> aborted (roles (sys_workers s))" using that R(1) unfolding aborted_iff by metis
    then show ?thesis using sched_baseD(6)[OF inv_base[OF own_invD(1)[OF own]]] by blast
  qed
  ultimately show ?thesis using own_invD(3)[OF own, of w] R by (auto simp: role_ok_def)
qed

theorem executions_exclusive_witness:
  "case ex_run ex_checked [0] of
     None \<Rightarrow> False
   | Some s \<Rightarrow> owns (role_of (sys_workers s ! 0)) = Some 0 \<and> owns (role_of (sys_workers s ! 1)) \<noteq> Some 0"
proof -
  have run: "case ex_run ex_checked [0] of
     None \<Rightarrow> False
   | Some s \<Rightarrow> owns (role_of (sys_workers s ! 0)) = Some 0 \<and> length (sys_workers s) = 2" by code_simp
  then obtain s where s: "ex_run ex_checked [0] = Some s"
    "length (sys_workers s) = 2" "owns (role_of (sys_workers s ! 0)) = Some 0"
    by (auto split: option.splits)
  show ?thesis
    using executions_exclusive[OF ex_machine_ok ex_initial(1) zero_less_numeral
        ex_run_reachable[OF s(1)] _ _ s(3), of 1] s by auto
qed

text \<open>
  C7. A transaction that waits for another is not executed before it: in every reachable state, a
  transaction in the list of dependents of a lower one is aborting, the lower one is not yet
  executed, and no worker executes the waiting one.
\<close>

theorem dependents_wait:
  assumes "machine_ok transact vm" and "initial_scheduler (length (txs vm)) s0" and "0 < c"
    and "reachable rv transact vm s0 c s" and "j < length (txs vm)"
    and "i \<in> set (transactions_dependents (sh_scheduler (sys_shared s)) ! j)"
  shows "j < i \<and> \<not> is_done (stat (sh_scheduler (sys_shared s)) j) \<and>
    stat (sh_scheduler (sys_shared s)) i = Aborting \<and>
    (\<forall>w < length (sys_workers s). owns (role_of (sys_workers s ! w)) \<noteq> Some i)"
proof -
  let ?sch = "sh_scheduler (sys_shared s)" and ?R = "roles (sys_workers s)"
  obtain H where ok: "sys_ok rv transact vm s H" using reachable_ok[OF assms(1-4)] by blast
  have c: "core_inv rv transact vm (sys_shared s) ?R H" using ok by (simp add: sys_ok_def)
  note own = core_invD(2)[OF c] and base = inv_base[OF own_invD(1)[OF core_invD(2)[OF c]]]
  have j: "j < block_size ?sch" using assms(5) core_invD(1)[OF c] by simp
  have pend: "0 < pending ?sch i"
    using pending_member[of j ?sch i] assms(6) j base_lengths(2)[OF base] by simp
  then have ab: "stat ?sch i = Aborting" "i < block_size ?sch"
    using sched_baseD(2)[OF base] base_lengths(1)[OF base] by (auto simp: deps_ok_def)
  then have "i \<notin> aborted ?R" using sched_baseD(7)[OF base] pend by auto
  then have "owns (?R w) \<noteq> Some i" for w
    using own_invD(3)[OF own, of w] ab(1) by (auto simp: owns_def role_ok_def aborted_iff split: option.splits)
  then have "owns (role_of (sys_workers s ! w)) \<noteq> Some i" if "w < length (sys_workers s)" for w
    using that unfolding roles_def by (metis (full_types))
  then show ?thesis using sched_baseD(3)[OF base] j assms(6) ab(1) by (auto simp: blockers_ok_def)
qed

theorem dependents_wait_witness:
  "stat (ex_start ex_checked) 2 = Aborting"
proof -
  have r: "reachable ex_revm ex_transact (ex_vm ex_checked) (ex_start ex_checked) 2
      (sys_init (ex_vm ex_checked) (ex_start ex_checked) 2)" by (simp add: reachable_def)
  have "2 \<in> set (transactions_dependents (ex_start ex_checked) ! 1)" by code_simp
  moreover have "sh_scheduler (sys_shared (sys_init (ex_vm ex_checked) (ex_start ex_checked) 2)) = ex_start ex_checked"
    by (simp add: sys_init_def Let_def)
  ultimately show ?thesis
    using dependents_wait[OF ex_machine_ok ex_initial(1) zero_less_numeral r, of 1 2] by simp
qed

text \<open>
  C8. The result of a validated transaction is stable. When all workers have stopped without an
  execution error, executing a transaction from the least validation index on once more, on the
  final memory, gives the result that was kept and, entry by entry, the writes the memory holds.
\<close>

theorem validated_is_stable:
  assumes "machine_ok transact vm" and "initial_scheduler (length (txs vm)) s0" and "0 < c"
    and "reachable rv transact vm s0 c s" and "all_stopped s"
    and "execution_error (sys_shared s) = None" and "j < length (txs vm)"
    and "min_validation_idx (sh_scheduler (sys_shared s)) \<le> j"
  shows "\<exists>res reads ws nxt.
    vm_execute rv transact vm (sh_memory (sys_shared s)) j = Inr (VmOk res reads ws nxt) \<and>
    execution_results (sys_shared s) ! j = Some res \<and>
    (\<forall>l. mv_get (sh_memory (sys_shared s)) l j =
       map_option (Data (inc (sh_scheduler (sys_shared s)) j)) (map_of (rev ws) l))"
proof -
  obtain H where ok: "sys_ok rv transact vm s H" using reachable_ok[OF assms(1-4)] by blast
  have c: "core_inv rv transact vm (sys_shared s) (roles (sys_workers s)) H"
    using ok by (simp add: sys_ok_def)
  obtain r where r: "execution_results (sys_shared s) ! j = Some (rec_result r)"
    "last_read (mv_last (sh_memory (sys_shared s)) ! j) = rec_reads r"
    "\<And>l. mv_get (sh_memory (sys_shared s)) l j =
       map_option (Data (inc (sh_scheduler (sys_shared s)) j)) (map_of (rev (rec_writes r)) l)"
    "replayable rv transact vm (history_values H) j r"
    using sys_ok_executed[OF ok assms(5-7)] by metis
  have "reads_valid (sh_memory (sys_shared s)) j (rec_reads r)"
    using sys_ok_final(3)[OF ok assms(5-8)] r(2) by (simp add: reads_now_def)
  then have "vm_execute rv transact vm (sh_memory (sys_shared s)) j =
      Inr (VmOk (rec_result r) (rec_reads r) (rec_writes r) (rec_next r))"
    using r(4) hist_invD(1)[OF core_invD(3)[OF c]] hist_values[OF core_invD(3)[OF c]] values_extend_refl
    unfolding replayable_def by blast
  then show ?thesis using r(1,3) by blast
qed

theorem validated_is_stable_witness:
  "\<exists>res reads ws nxt.
    vm_execute ex_revm ex_transact (ex_vm ex_checked) (sh_memory (sys_shared ex_final)) 2 = Inr (VmOk res reads ws nxt) \<and>
    execution_results (sys_shared ex_final) ! 2 = Some res"
proof -
  have "2 < length (txs (ex_vm ex_checked))" "min_validation_idx (sh_scheduler (sys_shared ex_final)) \<le> 2"
    by (simp_all add: ex_final(4))
  from validated_is_stable[OF ex_machine_ok ex_initial(1) zero_less_numeral ex_final(1-3) this]
  show ?thesis by blast
qed

text \<open>The balance that a transaction leaves at address 2.\<close>

definition sender_balance :: "mv_memory \<Rightarrow> tx_idx \<Rightarrow> u256 option" where
  "sender_balance m i =
     (case mv_get m (ex_hash (LocBasic 2)) i of Some (Data n (ValBasic a)) \<Rightarrow> Some (info_balance a) | _ \<Rightarrow> None)"

text \<open>
  C14. A lost update. On a block of three plain transfers, of which the last spends from the account
  the first two pay, there is an interleaving of two workers that ends without an error and in
  which the third transaction has missed the first payment: the balance it leaves is not the
  balance that executing the block in order leaves. \<open>preprocess_dependencies\<close> makes it wait for
  the second payment only, and none of the three asks for validation.
\<close>

theorem lost_update:
  "reachable ex_revm ex_transact (ex_vm ex_race) (ex_start ex_race) 2 ex_lost \<and> all_stopped ex_lost \<and>
   execution_error (sys_shared ex_lost) = None \<and>
   sender_balance (sh_memory (sys_shared ex_lost)) 2 = Some 104 \<and>
   (case in_order ex_revm ex_transact (ex_vm ex_race) (\<lambda>_. 0) 3 of
      Some (results, m) \<Rightarrow> sender_balance m 2 = Some 114 | None \<Rightarrow> False)"
proof -
  let ?ws = "[0] @ replicate 16 1 @ replicate 8 0 @ [1]"
  have run: "case ex_run ex_race ?ws of None \<Rightarrow> False | Some s \<Rightarrow>
      all_stopped s \<and> execution_error (sys_shared s) = None \<and>
      sender_balance (sh_memory (sys_shared s)) 2 = Some 104"
    by code_simp
  then have s: "ex_run ex_race ?ws = Some ex_lost"
    unfolding ex_lost_def by (simp only: split: option.splits) simp
  have "case in_order ex_revm ex_transact (ex_vm ex_race) (\<lambda>_. 0) 3 of
      Some (results, m) \<Rightarrow> sender_balance m 2 = Some 114 | None \<Rightarrow> False"
    by code_simp
  then show ?thesis using ex_run_reachable[OF s] run[unfolded s] by simp
qed

text \<open>
  C15. The first transaction is never a reason to validate others. On a block whose first transaction
  calls a contract that forwards the value to the sender of the second, there is an interleaving
  that ends without an error and in which the second transaction has missed the payment,
  although the first one has written outside of its sender and recipient.
\<close>

theorem first_transaction_unseen:
  "reachable ex_revm ex_transact (ex_vm ex_forward) (ex_start ex_forward) 2 ex_skipped \<and> all_stopped ex_skipped \<and>
   execution_error (sys_shared ex_skipped) = None \<and>
   sender_balance (sh_memory (sys_shared ex_skipped)) 1 = Some 99 \<and>
   (case in_order ex_revm ex_transact (ex_vm ex_forward) (\<lambda>_. 0) 2 of
      Some (results, m) \<Rightarrow> sender_balance m 1 = Some 109 | None \<Rightarrow> False)"
proof -
  let ?ws = "[0] @ replicate 8 1 @ replicate 8 0 @ [1]"
  have run: "case ex_run ex_forward ?ws of None \<Rightarrow> False | Some s \<Rightarrow>
      all_stopped s \<and> execution_error (sys_shared s) = None \<and>
      sender_balance (sh_memory (sys_shared s)) 1 = Some 99"
    by code_simp
  then have s: "ex_run ex_forward ?ws = Some ex_skipped"
    unfolding ex_skipped_def by (simp only: split: option.splits) simp
  have "case in_order ex_revm ex_transact (ex_vm ex_forward) (\<lambda>_. 0) 2 of
      Some (results, m) \<Rightarrow> sender_balance m 1 = Some 109 | None \<Rightarrow> False"
    by code_simp
  then show ?thesis using ex_run_reachable[OF s] run[unfolded s] by simp
qed

end
